theory Spec2Isabelle
  imports Main "HOL-Library.Sublist" "HOL-Library.AList"
begin

section \<open>The file system\<close>

text \<open>
  The three scripts only talk to the world through the synchronous calls of Node's
  \<^verbatim>\<open>fs\<close> module. A file system is a tree: a regular file with its text, or a
  directory with its named entries. A path is the list of its components, already
  resolved (what \<^verbatim>\<open>path.join\<close> and \<^verbatim>\<open>path.resolve\<close> compute on strings).
\<close>

datatype node = File string | Dir "(string \<times> node) list"

type_synonym path = "string list"

text \<open>
  How a run ends when it does not end well. The first four are the calls of
  \<^verbatim>\<open>error(...)\<close> (message, then \<^verbatim>\<open>process.exit(1)\<close>), named as the specification
  names them; the other three are exceptions nobody catches.
\<close>

datatype failure =
    NotFound        \<comment> \<open>\<^verbatim>\<open>Unknown example\<close>, \<^verbatim>\<open>Unknown category\<close>\<close>
  | MissingSource   \<comment> \<open>\<^verbatim>\<open>Contract not found\<close>, \<^verbatim>\<open>Test not found\<close>\<close>
  | AlreadyExists   \<comment> \<open>\<^verbatim>\<open>Directory exists\<close>, \<^verbatim>\<open>Output directory already exists\<close>\<close>
  | ParseError      \<comment> \<open>\<^verbatim>\<open>Could not extract contract name\<close>\<close>
  | FsError         \<comment> \<open>an exception thrown by a call of the \<^verbatim>\<open>fs\<close> module\<close>
  | SyntaxError     \<comment> \<open>thrown by \<^verbatim>\<open>JSON.parse\<close>\<close>
  | TypeError       \<comment> \<open>thrown on a property access or by \<^verbatim>\<open>path.join\<close> on \<^verbatim>\<open>undefined\<close>\<close>

fun lookup :: "node \<Rightarrow> path \<Rightarrow> node option" where
  "lookup n [] = Some n"
| "lookup (File s) (c # p) = None"
| "lookup (Dir es) (c # p) = (case map_of es c of None \<Rightarrow> None | Some n \<Rightarrow> lookup n p)"

definition existsSync :: "node \<Rightarrow> path \<Rightarrow> bool" where
  "existsSync fs p = (lookup fs p \<noteq> None)"

definition isDirectory :: "node \<Rightarrow> path \<Rightarrow> bool" where
  "isDirectory fs p = (case lookup fs p of Some (Dir es) \<Rightarrow> True | _ \<Rightarrow> False)"

text \<open>\<^verbatim>\<open>fs.mkdirSync(p, { recursive: true })\<close>: every missing directory on the way is
  created; a regular file on the way makes it throw.\<close>

fun mkdir_p :: "node \<Rightarrow> path \<Rightarrow> node option" where
  "mkdir_p (File s) p = None"
| "mkdir_p (Dir es) [] = Some (Dir es)"
| "mkdir_p (Dir es) (c # p) =
     (case mkdir_p (case map_of es c of None \<Rightarrow> Dir [] | Some n \<Rightarrow> n) p of
        None \<Rightarrow> None
      | Some n' \<Rightarrow> Some (Dir (AList.update c n' es)))"

definition mkdirSync :: "node \<Rightarrow> path \<Rightarrow> failure + node" where
  "mkdirSync fs p = (case mkdir_p fs p of None \<Rightarrow> Inl FsError | Some fs' \<Rightarrow> Inr fs')"

text \<open>Putting a node at a path whose parent directory exists.\<close>

fun store :: "node \<Rightarrow> path \<Rightarrow> node \<Rightarrow> node option" where
  "store n [] v = Some v"
| "store (File s) (c # p) v = None"
| "store (Dir es) (c # p) v =
     (if p = [] then Some (Dir (AList.update c v es))
      else case map_of es c of
             None \<Rightarrow> None
           | Some n \<Rightarrow> (case store n p v of
                          None \<Rightarrow> None
                        | Some n' \<Rightarrow> Some (Dir (AList.update c n' es))))"

text \<open>\<^verbatim>\<open>fs.writeFileSync(p, text)\<close> creates or overwrites a regular file; it throws
  when \<open>p\<close> is a directory or when the parent of \<open>p\<close> is not an existing directory.\<close>

definition writeFileSync :: "node \<Rightarrow> path \<Rightarrow> string \<Rightarrow> failure + node" where
  "writeFileSync fs p s =
     (if p = [] \<or> isDirectory fs p then Inl FsError
      else case store fs p (File s) of None \<Rightarrow> Inl FsError | Some fs' \<Rightarrow> Inr fs')"

definition readFileSync :: "node \<Rightarrow> path \<Rightarrow> failure + string" where
  "readFileSync fs p = (case lookup fs p of Some (File s) \<Rightarrow> Inr s | _ \<Rightarrow> Inl FsError)"

definition copyFileSync :: "node \<Rightarrow> path \<Rightarrow> path \<Rightarrow> failure + node" where
  "copyFileSync fs src dst =
     (case readFileSync fs src of Inl e \<Rightarrow> Inl e | Inr s \<Rightarrow> writeFileSync fs dst s)"

text \<open>\<^verbatim>\<open>fs.readdirSync(p)\<close>: the names in a directory, each once.\<close>

definition readdirSync :: "node \<Rightarrow> path \<Rightarrow> failure + string list" where
  "readdirSync fs p =
     (case lookup fs p of
        Some (Dir es) \<Rightarrow> Inr (map fst (AList.clearjunk es))
      | _ \<Rightarrow> Inl FsError)"

text \<open>Two paths diverge when neither leads to the other.\<close>

definition diverge :: "path \<Rightarrow> path \<Rightarrow> bool" where
  "diverge p q = (\<not> prefix p q \<and> \<not> prefix q p)"

section \<open>JavaScript objects\<close>

text \<open>
  The registries are object literals, so a lookup \<^verbatim>\<open>REGISTRY[key]\<close> also finds
  the properties every object inherits from \<^verbatim>\<open>Object.prototype\<close>. Each inherited
  value is a function or an object: truthy, and without any of the fields of a
  registry entry.
\<close>

datatype 'a property = Own 'a | Inherited | Undefined

definition object_prototype_keys :: "string list" where
  "object_prototype_keys =
     [''constructor'', ''hasOwnProperty'', ''isPrototypeOf'', ''propertyIsEnumerable'',
      ''toLocaleString'', ''toString'', ''valueOf'', ''__defineGetter__'',
      ''__defineSetter__'', ''__lookupGetter__'', ''__lookupSetter__'', ''__proto__'']"

definition get_property :: "(string \<times> 'a) list \<Rightarrow> string \<Rightarrow> 'a property" where
  "get_property obj k =
     (case map_of obj k of
        Some v \<Rightarrow> Own v
      | None \<Rightarrow> if k \<in> set object_prototype_keys then Inherited else Undefined)"

text \<open>
  A parsed JSON text. \<^verbatim>\<open>JSON.parse\<close> and \<^verbatim>\<open>JSON.stringify\<close> belong to the
  runtime, not to the repository: the functions below take them as the parameters
  \<open>parse\<close> and \<open>stringify\<close>.
\<close>

datatype json =
    JObject "(string \<times> json) list"
  | JArray "json list"
  | JString string
  | JLiteral string   \<comment> \<open>a number, \<^verbatim>\<open>true\<close>, \<^verbatim>\<open>false\<close> or \<^verbatim>\<open>null\<close>\<close>

section \<open>Text and the character classes of the regular expressions\<close>

text \<open>
  A file holds bytes, and the scripts read and write every file as UTF-8: a \<open>string\<close> is
  the byte sequence of a text. A class of the regular expressions that holds characters
  beyond ASCII is given by the encodings of its characters. No encoding below starts with
  a byte that continues a character, so in a text such a sequence is one whole character.
\<close>

text \<open>\<^verbatim>\<open>\s\<close>, and what \<^verbatim>\<open>trim()\<close> strips: the white space and the line terminators of
  ECMAScript.\<close>

definition white_space :: "string list" where
  "white_space =
     [[CHR 0x09], [CHR 0x0A], [CHR 0x0B], [CHR 0x0C], [CHR 0x0D], [CHR 0x20],
      [CHR 0xC2, CHR 0xA0],
      [CHR 0xE1, CHR 0x9A, CHR 0x80],
      [CHR 0xE2, CHR 0x80, CHR 0x80], [CHR 0xE2, CHR 0x80, CHR 0x81],
      [CHR 0xE2, CHR 0x80, CHR 0x82], [CHR 0xE2, CHR 0x80, CHR 0x83],
      [CHR 0xE2, CHR 0x80, CHR 0x84], [CHR 0xE2, CHR 0x80, CHR 0x85],
      [CHR 0xE2, CHR 0x80, CHR 0x86], [CHR 0xE2, CHR 0x80, CHR 0x87],
      [CHR 0xE2, CHR 0x80, CHR 0x88], [CHR 0xE2, CHR 0x80, CHR 0x89],
      [CHR 0xE2, CHR 0x80, CHR 0x8A],
      [CHR 0xE2, CHR 0x80, CHR 0xA8], [CHR 0xE2, CHR 0x80, CHR 0xA9],
      [CHR 0xE2, CHR 0x80, CHR 0xAF],
      [CHR 0xE2, CHR 0x81, CHR 0x9F],
      [CHR 0xE3, CHR 0x80, CHR 0x80],
      [CHR 0xEF, CHR 0xBB, CHR 0xBF]]"

text \<open>The line terminators: what \<^verbatim>\<open>.\<close> does not match, and where \<^verbatim>\<open>^\<close> and \<^verbatim>\<open>$\<close>
  hold under the flag \<^verbatim>\<open>m\<close>.\<close>

definition line_terminators :: "string list" where
  "line_terminators =
     [[CHR 0x0A], [CHR 0x0D], [CHR 0xE2, CHR 0x80, CHR 0xA8], [CHR 0xE2, CHR 0x80, CHR 0xA9]]"

definition is_word :: "char \<Rightarrow> bool" where
  "is_word c =
     (c \<in> set ''abcdefghijklmnopqrstuvwxyzABCDEFGHIJKLMNOPQRSTUVWXYZ0123456789_'')"

text \<open>\<open>starts_with lit s\<close> reads the literal \<open>lit\<close> at the front of \<open>s\<close> and returns
  what follows it; \<open>first_of\<close> reads the first of several literals that is there.\<close>

fun starts_with :: "string \<Rightarrow> string \<Rightarrow> string option" where
  "starts_with [] s = Some s"
| "starts_with (a # as) [] = None"
| "starts_with (a # as) (c # s) = (if a = c then starts_with as s else None)"

fun first_of :: "string list \<Rightarrow> string \<Rightarrow> (string \<times> string) option" where
  "first_of [] s = None"
| "first_of (w # ws) s =
     (case starts_with w s of Some r \<Rightarrow> Some (w, r) | None \<Rightarrow> first_of ws s)"

text \<open>One white-space character at the front of a text, and one line terminator.\<close>

definition skip_space :: "string \<Rightarrow> string option" where
  "skip_space s = map_option snd (first_of white_space s)"

definition line_break :: "string \<Rightarrow> string option" where
  "line_break s = map_option snd (first_of line_terminators s)"

lemma starts_with_length: "starts_with a s = Some r \<Longrightarrow> length s = length a + length r"
  by (induction a s rule: starts_with.induct) (auto split: if_splits)

lemma first_of_length: "first_of ws s = Some (w, r) \<Longrightarrow> length s = length w + length r"
  by (induction ws s rule: first_of.induct) (auto split: option.splits dest: starts_with_length)

lemma first_of_member: "first_of ws s = Some (w, r) \<Longrightarrow> w \<in> set ws"
  by (induction ws s rule: first_of.induct) (auto split: option.splits)

lemma skip_space_length: "skip_space s = Some r \<Longrightarrow> length r < length s"
proof -
  assume "skip_space s = Some r"
  then obtain w where w: "first_of white_space s = Some (w, r)"
    by (auto simp: skip_space_def)
  from first_of_member[OF w] have "w \<noteq> []" by (auto simp: white_space_def)
  with first_of_length[OF w] show ?thesis by simp
qed

lemma line_break_length: "line_break s = Some r \<Longrightarrow> length r < length s"
proof -
  assume "line_break s = Some r"
  then obtain w where w: "first_of line_terminators s = Some (w, r)"
    by (auto simp: line_break_def)
  from first_of_member[OF w] have "w \<noteq> []" by (auto simp: line_terminators_def)
  with first_of_length[OF w] show ?thesis by simp
qed

text \<open>A greedy \<^verbatim>\<open>\s*\<close> where giving white space back cannot help.\<close>

function drop_spaces :: "string \<Rightarrow> string" where
  "drop_spaces [] = []"
| "drop_spaces (c # s) =
     (case skip_space (c # s) of Some r \<Rightarrow> drop_spaces r | None \<Rightarrow> c # s)"
  by pat_completeness auto
termination
  by (relation "measure length") (auto dest: skip_space_length)

text \<open>\<^verbatim>\<open>^\<close> under the flag \<^verbatim>\<open>m\<close> holds where the text in front is empty or ends with a
  line terminator; \<^verbatim>\<open>$\<close> holds where the text behind is empty or starts with one.\<close>

definition line_start :: "string \<Rightarrow> bool" where
  "line_start front = (front = [] \<or> list_ex (\<lambda>t. suffix t front) line_terminators)"

definition line_end :: "string \<Rightarrow> bool" where
  "line_end rest = (rest = [] \<or> line_break rest \<noteq> None)"

text \<open>The bytes that start a white-space character.\<close>

definition space_lead :: "char \<Rightarrow> bool" where
  "space_lead c = (c \<in> set [CHR 0x09, CHR 0x0A, CHR 0x0B, CHR 0x0C, CHR 0x0D, CHR 0x20,
                             CHR 0xC2, CHR 0xE1, CHR 0xE2, CHR 0xE3, CHR 0xEF])"

lemma drop_spaces_length: "length (drop_spaces s) \<le> length s"
proof (induction s rule: drop_spaces.induct)
  case (2 c s)
  show ?case
  proof (cases "skip_space (c # s)")
    case None
    then show ?thesis by simp
  next
    case (Some r)
    from "2.IH"[OF Some] skip_space_length[OF Some] Some show ?thesis by simp
  qed
qed simp

text \<open>A text that is white space altogether: a sequence of white-space characters.\<close>

inductive spaces :: "string \<Rightarrow> bool" where
  none: "spaces []"
| more: "w \<in> set white_space \<Longrightarrow> spaces r \<Longrightarrow> spaces (w @ r)"

section \<open>create-fhevm-example\<close>

record ExampleInfo =
  contract :: path
  test :: path
  description :: string

record ExampleConfig = ExampleInfo +
  category :: string

definition EXAMPLES_MAP :: "(string \<times> ExampleConfig) list" where
  "EXAMPLES_MAP =
     [(''artifact-auction'',
       \<lparr>contract = [''contracts'', ''ArtifactAuction.sol''],
        test = [''test'', ''ArtifactAuction.ts''],
        description = ''Confidential artifact auction with encrypted bids and authentication'',
        category = ''advanced''\<rparr>)]"

definition excluded_dirs :: "string list" where
  "excluded_dirs =
     [''node_modules'', ''artifacts'', ''cache'', ''coverage'', ''types'', ''dist'', ''fhevmTemp'']"

text \<open>
  \<^verbatim>\<open>copyDirectoryRecursive\<close> reads the directory it copies while it writes, so
  nothing bounds its recursion beforehand: the first argument is fuel, and \<open>None\<close>
  is a run that has not returned within it. The second function is the body of
  \<^verbatim>\<open>items.forEach\<close>. An exception ends the run with the file system as it is.
\<close>

fun copyDirectoryRecursive ::
    "nat \<Rightarrow> string list \<Rightarrow> node \<Rightarrow> path \<Rightarrow> path \<Rightarrow> (failure option \<times> node) option"
and copyItems ::
    "nat \<Rightarrow> string list \<Rightarrow> node \<Rightarrow> path \<Rightarrow> path \<Rightarrow> string list \<Rightarrow> (failure option \<times> node) option"
where
  "copyDirectoryRecursive 0 skipFiles fs source destination = None"
| "copyDirectoryRecursive (Suc k) skipFiles fs source destination =
     (case (if \<not> existsSync fs destination then mkdirSync fs destination else Inr fs) of
        Inl e \<Rightarrow> Some (Some e, fs)
      | Inr fs1 \<Rightarrow>
         (case readdirSync fs1 source of
            Inl e \<Rightarrow> Some (Some e, fs1)
          | Inr items \<Rightarrow> copyItems k skipFiles fs1 source destination items))"
| "copyItems k skipFiles fs source destination [] = Some (None, fs)"
| "copyItems k skipFiles fs source destination (item # items) =
     (if item \<in> set skipFiles then copyItems k skipFiles fs source destination items
      else case lookup fs (source @ [item]) of
             None \<Rightarrow> Some (Some FsError, fs)
           | Some (Dir es) \<Rightarrow>
               if item \<in> set excluded_dirs
               then copyItems k skipFiles fs source destination items
               else (case copyDirectoryRecursive k skipFiles fs (source @ [item]) (destination @ [item]) of
                       None \<Rightarrow> None
                     | Some (Some e, fs') \<Rightarrow> Some (Some e, fs')
                     | Some (None, fs') \<Rightarrow> copyItems k skipFiles fs' source destination items)
           | Some (File s) \<Rightarrow>
               (case copyFileSync fs (source @ [item]) (destination @ [item]) of
                  Inl e \<Rightarrow> Some (Some e, fs)
                | Inr fs' \<Rightarrow> copyItems k skipFiles fs' source destination items))"

text \<open>
  What a copy into a fresh destination is expected to hold, as a function on trees: an
  entry is kept unless its name is in \<open>skipFiles\<close> or it is a directory with one of the
  excluded names, and kept directories are copied in the same way.
\<close>

definition kept :: "string list \<Rightarrow> string \<times> node \<Rightarrow> bool" where
  "kept skipFiles e =
     (fst e \<notin> set skipFiles \<and>
      (case snd e of Dir es \<Rightarrow> fst e \<notin> set excluded_dirs | File s \<Rightarrow> True))"

function template_copy :: "string list \<Rightarrow> node \<Rightarrow> node" where
  "template_copy skipFiles (File s) = File s"
| "template_copy skipFiles (Dir es) =
     Dir (map (\<lambda>e. (fst e, template_copy skipFiles (snd e)))
            (filter (kept skipFiles) (AList.clearjunk es)))"
  by pat_completeness auto
termination
proof (relation "measure (\<lambda>(skipFiles, n). size n)", goal_cases)
  case 1
  show ?case by simp
next
  case (2 skipFiles es e)
  then have "(fst e, snd e) \<in> Map.graph (map_of es)" by (simp add: graph_map_of)
  then have "map_of es (fst e) = Some (snd e)" by (rule in_graphD)
  then have "(fst e, snd e) \<in> set es" by (rule map_of_SomeD)
  then have "size (snd e) < size (Dir es)" by (induction es) auto
  then show ?case by simp
qed

text \<open>A directory can be created at \<open>p\<close> when no regular file lies on the way to it.\<close>

definition creatable :: "node \<Rightarrow> path \<Rightarrow> bool" where
  "creatable fs p = (\<forall>q\<in>set (prefixes p). \<forall>s. lookup fs q \<noteq> Some (File s))"

text \<open>
  \<^verbatim>\<open>content.match(/^\s*contract\s+(\w+)(?:\s+is\s+|\s*\{)/m)\<close>. A greedy run of
  \<^verbatim>\<open>\s\<close> or \<^verbatim>\<open>\w\<close> is followed by something that its own class cannot start,
  so giving characters back never helps: at one start there is one way to match.
  \<open>match_contract s\<close> matches at the front of \<open>s\<close> and returns the captured name;
  \<open>search_contract\<close> tries the starts from left to right, those where \<^verbatim>\<open>^\<close> holds;
  its first argument is the text in front of the position it is at.
\<close>

definition match_contract :: "string \<Rightarrow> string option" where
  "match_contract s =
     (case starts_with ''contract'' (drop_spaces s) of
        None \<Rightarrow> None
      | Some r1 \<Rightarrow>
          let r2 = drop_spaces r1;
              name = takeWhile is_word r2;
              r3 = dropWhile is_word r2;
              r4 = drop_spaces r3
          in if r2 = r1 \<or> name = [] then None
             else if r4 \<noteq> r3 \<and>
                     (case starts_with ''is'' r4 of None \<Rightarrow> False
                      | Some r5 \<Rightarrow> skip_space r5 \<noteq> None)
                  then Some name
             else if starts_with ''{'' r4 \<noteq> None then Some name
             else None)"

fun search_contract :: "string \<Rightarrow> string \<Rightarrow> string option" where
  "search_contract front [] = None"
| "search_contract front (c # s) =
     (case (if line_start front then match_contract (c # s) else None) of
        Some name \<Rightarrow> Some name
      | None \<Rightarrow> search_contract (front @ [c]) s)"

text \<open>
  What the pattern reads, in words: a text declares a contract \<open>name\<close> at its front when
  it is white space, the word \<^verbatim>\<open>contract\<close>, white space, the name (a run of word
  characters), and then either white space, \<^verbatim>\<open>is\<close> and white space, or an opening brace
  with or without white space in front of it.
\<close>

definition declares :: "string \<Rightarrow> string \<Rightarrow> bool" where
  "declares s name =
     (\<exists>ws1 ws2 r. s = ws1 @ ''contract'' @ ws2 @ name @ r \<and>
        spaces ws1 \<and> spaces ws2 \<and> ws2 \<noteq> [] \<and> name \<noteq> [] \<and> list_all is_word name \<and>
        ((\<exists>ws3 ws4 r'. r = ws3 @ ''is'' @ ws4 @ r' \<and>
            spaces ws3 \<and> ws3 \<noteq> [] \<and> spaces ws4 \<and> ws4 \<noteq> []) \<or>
         (\<exists>ws3 r'. r = ws3 @ ''{'' @ r' \<and> spaces ws3)))"

definition getContractName :: "node \<Rightarrow> path \<Rightarrow> failure + string option" where
  "getContractName fs contractPath =
     (case readFileSync fs contractPath of
        Inl e \<Rightarrow> Inl e
      | Inr content \<Rightarrow> Inr (search_contract [] content))"

text \<open>
  \<^verbatim>\<open>packageJson.name = ...\<close> on what \<^verbatim>\<open>JSON.parse\<close> returned: an object takes the
  property (in place when it has it, at the end otherwise); an array takes it too, but
  \<^verbatim>\<open>JSON.stringify\<close> writes only the elements of an array; on anything else the
  assignment throws (the scripts are modules, hence strict code).
\<close>

definition updatePackageJson ::
    "(string \<Rightarrow> json option) \<Rightarrow> (json \<Rightarrow> string) \<Rightarrow> node \<Rightarrow> path \<Rightarrow> string \<Rightarrow> string
       \<Rightarrow> failure option \<times> node" where
  "updatePackageJson parse stringify fs outputDir exampleName descr =
     (let packageJsonPath = outputDir @ [''package.json''] in
      case readFileSync fs packageJsonPath of
        Inl e \<Rightarrow> (Some e, fs)
      | Inr text \<Rightarrow>
         (case parse text of
            None \<Rightarrow> (Some SyntaxError, fs)
          | Some (JObject kv) \<Rightarrow>
              (case writeFileSync fs packageJsonPath
                      (stringify (JObject
                         (AList.update ''description'' (JString descr)
                            (AList.update ''name'' (JString (''fhevm-'' @ exampleName)) kv)))) of
                 Inl e \<Rightarrow> (Some e, fs)
               | Inr fs' \<Rightarrow> (None, fs'))
          | Some (JArray xs) \<Rightarrow>
              (case writeFileSync fs packageJsonPath (stringify (JArray xs)) of
                 Inl e \<Rightarrow> (Some e, fs)
               | Inr fs' \<Rightarrow> (None, fs'))
          | Some _ \<Rightarrow> (Some TypeError, fs)))"

definition unlines :: "string list \<Rightarrow> string" where
  "unlines ls = concat (map (\<lambda>l. l @ ''\<newline>'') ls)"

definition generateReadme :: "string \<Rightarrow> string \<Rightarrow> string \<Rightarrow> string" where
  "generateReadme exampleName descr contractName =
     unlines
      [''# FHEVM Example: '' @ exampleName,
       '''',
       descr,
       '''',
       ''## Quick Start'',
       '''',
       ''### Installation'',
       '''',
       ''```bash'',
       ''npm install'',
       ''npm run compile'',
       ''npm run test'',
       ''```'',
       '''',
       ''## Contract'',
       '''',
       ''Main contract: `'' @ contractName @ ''` in `contracts/'' @ contractName @ ''.sol`'',
       '''',
       ''## Documentation'',
       '''',
       ''- [FHEVM Docs](https://docs.zama.ai/fhevm)'',
       ''- [Hardhat](https://hardhat.org)'',
       '''',
       ''## License'',
       '''',
       ''MIT License'']"

text \<open>
  \<^verbatim>\<open>createExample\<close>. The result is how the run ended and the file system it left;
  what it prints is not modelled. An inherited property passes the first check, and
  \<^verbatim>\<open>path.join(rootDir, example.contract)\<close> then throws on \<^verbatim>\<open>undefined\<close>.
\<close>

definition createExample ::
    "nat \<Rightarrow> (string \<Rightarrow> json option) \<Rightarrow> (json \<Rightarrow> string) \<Rightarrow> node \<Rightarrow> path \<Rightarrow> string \<Rightarrow> path
       \<Rightarrow> (failure option \<times> node) option" where
  "createExample fuel parse stringify fs rootDir exampleName outputDir =
     (case get_property EXAMPLES_MAP exampleName of
        Undefined \<Rightarrow> Some (Some NotFound, fs)
      | Inherited \<Rightarrow> Some (Some TypeError, fs)
      | Own example \<Rightarrow>
          let contractPath = rootDir @ contract example;
              testPath = rootDir @ test example
          in if \<not> existsSync fs contractPath then Some (Some MissingSource, fs)
             else if \<not> existsSync fs testPath then Some (Some MissingSource, fs)
             else if existsSync fs outputDir then Some (Some AlreadyExists, fs)
             else
              (case copyDirectoryRecursive fuel [''scripts''] fs rootDir outputDir of
                 None \<Rightarrow> None
               | Some (Some e, fs1) \<Rightarrow> Some (Some e, fs1)
               | Some (None, fs1) \<Rightarrow>
                  (case getContractName fs1 contractPath of
                     Inl e \<Rightarrow> Some (Some e, fs1)
                   | Inr None \<Rightarrow> Some (Some ParseError, fs1)
                   | Inr (Some contractName) \<Rightarrow>
                      (case updatePackageJson parse stringify fs1 outputDir exampleName
                              (description example) of
                         (Some e, fs2) \<Rightarrow> Some (Some e, fs2)
                       | (None, fs2) \<Rightarrow>
                          (case writeFileSync fs2 (outputDir @ [''README.md''])
                                  (generateReadme exampleName (description example) contractName) of
                             Inl e \<Rightarrow> Some (Some e, fs2)
                           | Inr fs3 \<Rightarrow> Some (None, fs3))))))"

section \<open>create-fhevm-category\<close>

record CategoryConfig =
  cat_name :: string
  cat_description :: string
  examples :: "string list"

definition CATEGORIES :: "(string \<times> CategoryConfig) list" where
  "CATEGORIES =
     [(''basic'',
       \<lparr>cat_name = ''Basic FHEVM Examples'',
        cat_description = ''Fundamental examples demonstrating basic FHE operations'',
        examples = [''counter'', ''fhe-counter'']\<rparr>),
      (''advanced'',
       \<lparr>cat_name = ''Advanced FHEVM Examples'',
        cat_description = ''Complex examples showing real-world applications'',
        examples = [''artifact-auction'']\<rparr>),
      (''access-control'',
       \<lparr>cat_name = ''Access Control Examples'',
        cat_description = ''Examples demonstrating FHE access control patterns'',
        examples = []\<rparr>),
      (''encryption'',
       \<lparr>cat_name = ''Encryption Examples'',
        cat_description = ''Examples showing encryption and decryption workflows'',
        examples = []\<rparr>)]"

definition EXAMPLES :: "(string \<times> ExampleInfo) list" where
  "EXAMPLES =
     [(''counter'',
       \<lparr>contract = [''contracts'', ''Counter.sol''],
        test = [''test'', ''Counter.ts''],
        description = ''Simple non-encrypted counter for comparison''\<rparr>),
      (''fhe-counter'',
       \<lparr>contract = [''base-template'', ''contracts'', ''FHECounter.sol''],
        test = [''base-template'', ''test'', ''FHECounter.ts''],
        description = ''Encrypted counter using FHEVM''\<rparr>),
      (''artifact-auction'',
       \<lparr>contract = [''contracts'', ''ArtifactAuction.sol''],
        test = [''test'', ''ArtifactAuction.ts''],
        description = ''Confidential artifact auction system''\<rparr>)]"

text \<open>Running one call of the \<^verbatim>\<open>fs\<close> module, and going on after a step that went
  well. A step that throws leaves the file system as it found it.\<close>

definition attempt :: "failure + node \<Rightarrow> node \<Rightarrow> failure option \<times> node" where
  "attempt r fs = (case r of Inl e \<Rightarrow> (Some e, fs) | Inr fs' \<Rightarrow> (None, fs'))"

definition and_then ::
    "failure option \<times> node \<Rightarrow> (node \<Rightarrow> failure option \<times> node) \<Rightarrow> failure option \<times> node" where
  "and_then r k = (case r of (Some e, fs) \<Rightarrow> (Some e, fs) | (None, fs) \<Rightarrow> k fs)"

definition basename :: "path \<Rightarrow> string" where
  "basename p = (if p = [] then [] else last p)"

text \<open>The box-drawing characters of the directory diagram, as their UTF-8 bytes.\<close>

definition box_bar :: string where
  "box_bar = [CHR 0xE2, CHR 0x94, CHR 0x82]"

definition box_tee :: string where
  "box_tee = [CHR 0xE2, CHR 0x94, CHR 0x9C, CHR 0xE2, CHR 0x94, CHR 0x80, CHR 0xE2, CHR 0x94, CHR 0x80]"

definition box_end :: string where
  "box_end = [CHR 0xE2, CHR 0x94, CHR 0x94, CHR 0xE2, CHR 0x94, CHR 0x80, CHR 0xE2, CHR 0x94, CHR 0x80]"

fun intercalate :: "string \<Rightarrow> string list \<Rightarrow> string" where
  "intercalate sep [] = []"
| "intercalate sep [x] = x"
| "intercalate sep (x # y # ys) = x @ sep @ intercalate sep (y # ys)"

text \<open>\<^verbatim>\<open>EXAMPLES[ex]?.description || 'Example'\<close>, over a registry \<open>registry\<close>.\<close>

definition description_or_default :: "(string \<times> ExampleInfo) list \<Rightarrow> string \<Rightarrow> string" where
  "description_or_default registry ex =
     (case get_property registry ex of
        Own info \<Rightarrow> if description info = [] then ''Example'' else description info
      | _ \<Rightarrow> ''Example'')"

definition generateCategoryReadme ::
    "(string \<times> ExampleInfo) list \<Rightarrow> string \<Rightarrow> CategoryConfig \<Rightarrow> string" where
  "generateCategoryReadme registry categoryName config =
     unlines
      [''# '' @ cat_name config,
       '''',
       cat_description config,
       '''',
       ''## Examples Included'',
       '''',
       intercalate ''\<newline>''
         (map (\<lambda>ex. ''- **'' @ ex @ ''**: '' @ description_or_default registry ex) (examples config)),
       '''',
       ''## Getting Started'',
       '''',
       ''### Prerequisites'',
       '''',
       ''- Node.js >= 20'',
       ''- npm >= 7.0.0'',
       '''',
       ''### Installation'',
       '''',
       ''```bash'',
       ''npm install'',
       ''```'',
       '''',
       ''### Compile All Examples'',
       '''',
       ''```bash'',
       ''npm run compile'',
       ''```'',
       '''',
       ''### Run All Tests'',
       '''',
       ''```bash'',
       ''npm run test'',
       ''```'',
       '''',
       ''## Individual Examples'',
       '''',
       ''Each example can be found in its respective directory:'',
       '''',
       intercalate ''\<newline>'' (map (\<lambda>ex. ''- `examples/'' @ ex @ ''/`'') (examples config)),
       '''',
       ''## Project Structure'',
       '''',
       ''```'',
       categoryName @ ''/'',
       box_tee @ '' examples/'',
       intercalate ''\<newline>''
         (map (\<lambda>ex. box_bar @ ''   '' @ box_tee @ '' '' @ ex @ ''/\<newline>'' @
                     box_bar @ ''   '' @ box_bar @ ''   '' @ box_tee @ '' contracts/\<newline>'' @
                     box_bar @ ''   '' @ box_bar @ ''   '' @ box_end @ '' test/'')
              (examples config)),
       box_tee @ '' hardhat.config.ts'',
       box_tee @ '' package.json'',
       box_end @ '' README.md'',
       ''```'',
       '''',
       ''## Documentation'',
       '''',
       ''For detailed documentation on each example, see the README in each example directory.'',
       '''',
       ''## Resources'',
       '''',
       ''- [FHEVM Documentation](https://docs.zama.ai/fhevm)'',
       ''- [Hardhat Documentation](https://hardhat.org)'',
       ''- [Zama Community](https://www.zama.ai/community)'',
       '''',
       ''## License'',
       '''',
       ''MIT License'']"

definition exampleReadme :: "string \<Rightarrow> ExampleInfo \<Rightarrow> string" where
  "exampleReadme exampleName exampleInfo =
     unlines
      [''# '' @ exampleName,
       '''',
       description exampleInfo,
       '''',
       ''## Files'',
       '''',
       ''- `contracts/'' @ basename (contract exampleInfo) @ ''`'',
       ''- `test/'' @ basename (test exampleInfo) @ ''`'',
       '''',
       ''## Running'',
       '''',
       ''```bash'',
       ''npm run compile'',
       ''npm run test'',
       ''```'']"

definition template_files :: "string list" where
  "template_files =
     [''hardhat.config.ts'', ''package.json'', ''tsconfig.json'', ''.gitignore'',
      ''.eslintrc.yml'', ''.prettierrc.yml'']"

text \<open>The loop over the shared configuration files of the base template.\<close>

fun copyTemplateFiles :: "node \<Rightarrow> path \<Rightarrow> path \<Rightarrow> string list \<Rightarrow> failure option \<times> node" where
  "copyTemplateFiles fs baseTemplatePath outputDir [] = (None, fs)"
| "copyTemplateFiles fs baseTemplatePath outputDir (file # files) =
     (if existsSync fs (baseTemplatePath @ [file])
      then and_then (attempt (copyFileSync fs (baseTemplatePath @ [file]) (outputDir @ [file])) fs)
             (\<lambda>fs'. copyTemplateFiles fs' baseTemplatePath outputDir files)
      else copyTemplateFiles fs baseTemplatePath outputDir files)"

text \<open>
  The body of \<^verbatim>\<open>category.examples.forEach\<close>, for one member. Of what the script
  prints only the warnings are kept: they are the third component of the result. A member
  name is one path component. For a name that is only an inherited property the three
  directories are made before \<^verbatim>\<open>path.join(rootDir, exampleInfo.contract)\<close> throws.
\<close>

definition copyIfExists :: "node \<Rightarrow> path \<Rightarrow> path \<Rightarrow> failure option \<times> node" where
  "copyIfExists fs sourcePath targetDir =
     (if existsSync fs sourcePath
      then attempt (copyFileSync fs sourcePath (targetDir @ [basename sourcePath])) fs
      else (None, fs))"

definition makeExampleDirs :: "node \<Rightarrow> path \<Rightarrow> failure option \<times> node" where
  "makeExampleDirs fs exampleDir =
     and_then (attempt (mkdirSync fs exampleDir) fs)
       (\<lambda>fs1. and_then (attempt (mkdirSync fs1 (exampleDir @ [''contracts''])) fs1)
          (\<lambda>fs2. attempt (mkdirSync fs2 (exampleDir @ [''test''])) fs2))"

definition copyExample ::
    "(string \<times> ExampleInfo) list \<Rightarrow> node \<Rightarrow> path \<Rightarrow> path \<Rightarrow> string
       \<Rightarrow> failure option \<times> node \<times> string list" where
  "copyExample registry fs rootDir outputDir exampleName =
     (let exampleDir = outputDir @ [''examples'', exampleName] in
      case get_property registry exampleName of
        Undefined \<Rightarrow> (None, fs, [''Warning: Example '' @ exampleName @ '' not found''])
      | Inherited \<Rightarrow>
          (case makeExampleDirs fs exampleDir of
             (Some e, fs') \<Rightarrow> (Some e, fs', [])
           | (None, fs') \<Rightarrow> (Some TypeError, fs', []))
      | Own exampleInfo \<Rightarrow>
          (case and_then (makeExampleDirs fs exampleDir)
                  (\<lambda>fs1. and_then (copyIfExists fs1 (rootDir @ contract exampleInfo)
                                     (exampleDir @ [''contracts'']))
                     (\<lambda>fs2. and_then (copyIfExists fs2 (rootDir @ test exampleInfo)
                                        (exampleDir @ [''test'']))
                        (\<lambda>fs3. attempt (writeFileSync fs3 (exampleDir @ [''README.md''])
                                           (exampleReadme exampleName exampleInfo)) fs3))) of
             (r, fs') \<Rightarrow> (r, fs', [])))"

fun copyExamples ::
    "(string \<times> ExampleInfo) list \<Rightarrow> node \<Rightarrow> path \<Rightarrow> path \<Rightarrow> string list
       \<Rightarrow> failure option \<times> node \<times> string list" where
  "copyExamples registry fs rootDir outputDir [] = (None, fs, [])"
| "copyExamples registry fs rootDir outputDir (exampleName # rest) =
     (case copyExample registry fs rootDir outputDir exampleName of
        (Some e, fs', warnings) \<Rightarrow> (Some e, fs', warnings)
      | (None, fs', warnings) \<Rightarrow>
          (case copyExamples registry fs' rootDir outputDir rest of
             (r, fs'', warnings') \<Rightarrow> (r, fs'', warnings @ warnings')))"

text \<open>The last step: the manifest of the category project, when there is one.\<close>

definition updateCategoryPackageJson ::
    "(string \<Rightarrow> json option) \<Rightarrow> (json \<Rightarrow> string) \<Rightarrow> node \<Rightarrow> path \<Rightarrow> string \<Rightarrow> string
       \<Rightarrow> failure option \<times> node" where
  "updateCategoryPackageJson parse stringify fs outputDir categoryName descr =
     (let packageJsonPath = outputDir @ [''package.json''] in
      if \<not> existsSync fs packageJsonPath then (None, fs)
      else case readFileSync fs packageJsonPath of
        Inl e \<Rightarrow> (Some e, fs)
      | Inr manifest \<Rightarrow>
         (case parse manifest of
            None \<Rightarrow> (Some SyntaxError, fs)
          | Some (JObject kv) \<Rightarrow>
              attempt (writeFileSync fs packageJsonPath
                      (stringify (JObject
                         (AList.update ''description'' (JString descr)
                            (AList.update ''name''
                               (JString (''fhevm-'' @ categoryName @ ''-examples'')) kv))))) fs
          | Some (JArray xs) \<Rightarrow> attempt (writeFileSync fs packageJsonPath (stringify (JArray xs))) fs
          | Some _ \<Rightarrow> (Some TypeError, fs)))"

text \<open>
  \<^verbatim>\<open>createCategory\<close>, over the two registries it reads. For a category name that is
  only an inherited property, the project structure is made before
  \<^verbatim>\<open>category.examples.forEach\<close> throws.
\<close>

definition createCategoryIn ::
    "(string \<times> CategoryConfig) list \<Rightarrow> (string \<times> ExampleInfo) list \<Rightarrow>
     (string \<Rightarrow> json option) \<Rightarrow> (json \<Rightarrow> string) \<Rightarrow> node \<Rightarrow> path \<Rightarrow> string \<Rightarrow> path
       \<Rightarrow> failure option \<times> node \<times> string list" where
  "createCategoryIn categories registry parse stringify fs rootDir categoryName outputDir =
     (case get_property categories categoryName of
        Undefined \<Rightarrow> (Some NotFound, fs, [])
      | found \<Rightarrow>
          if existsSync fs outputDir then (Some AlreadyExists, fs, [])
          else
           (case and_then (attempt (mkdirSync fs outputDir) fs)
                   (\<lambda>fs1. and_then (attempt (mkdirSync fs1 (outputDir @ [''examples''])) fs1)
                      (\<lambda>fs2. if existsSync fs2 (rootDir @ [''base-template''])
                              then copyTemplateFiles fs2 (rootDir @ [''base-template''])
                                     outputDir template_files
                              else (None, fs2))) of
              (Some e, fs3) \<Rightarrow> (Some e, fs3, [])
            | (None, fs3) \<Rightarrow>
               (case found of
                  Own config \<Rightarrow>
                    (case copyExamples registry fs3 rootDir outputDir (examples config) of
                       (Some e, fs4, warnings) \<Rightarrow> (Some e, fs4, warnings)
                     | (None, fs4, warnings) \<Rightarrow>
                        (case and_then
                                (attempt (writeFileSync fs4 (outputDir @ [''README.md''])
                                   (generateCategoryReadme registry categoryName config)) fs4)
                                (\<lambda>fs5. updateCategoryPackageJson parse stringify fs5 outputDir
                                          categoryName (cat_description config)) of
                           (r, fs6) \<Rightarrow> (r, fs6, warnings)))
                | _ \<Rightarrow> (Some TypeError, fs3, []))))"

definition createCategory ::
    "(string \<Rightarrow> json option) \<Rightarrow> (json \<Rightarrow> string) \<Rightarrow> node \<Rightarrow> path \<Rightarrow> string \<Rightarrow> path
       \<Rightarrow> failure option \<times> node \<times> string list" where
  "createCategory = createCategoryIn CATEGORIES EXAMPLES"

text \<open>
  What a run that ends well is expected to leave under \<^verbatim>\<open>examples/\<close>: for each member
  that the registry holds, a directory with \<^verbatim>\<open>contracts/\<close>, \<^verbatim>\<open>test/\<close> and a
  \<^verbatim>\<open>README.md\<close>, each of the two source files copied in when it is a regular file; and
  what it is expected to print: one warning for each member that the registry does not
  hold.
\<close>

definition copied_file :: "node \<Rightarrow> path \<Rightarrow> (string \<times> node) list" where
  "copied_file fs p = (case lookup fs p of Some (File s) \<Rightarrow> [(basename p, File s)] | _ \<Rightarrow> [])"

definition member_dir :: "node \<Rightarrow> path \<Rightarrow> string \<Rightarrow> ExampleInfo \<Rightarrow> node" where
  "member_dir fs rootDir exampleName info =
     Dir [(''contracts'', Dir (copied_file fs (rootDir @ contract info))),
          (''test'', Dir (copied_file fs (rootDir @ test info))),
          (''README.md'', File (exampleReadme exampleName info))]"

definition member_entries ::
    "(string \<times> ExampleInfo) list \<Rightarrow> node \<Rightarrow> path \<Rightarrow> string list \<Rightarrow> (string \<times> node) list" where
  "member_entries registry fs rootDir members =
     concat (map (\<lambda>m. case get_property registry m of
                          Own info \<Rightarrow> [(m, member_dir fs rootDir m info)]
                        | _ \<Rightarrow> []) members)"

definition member_warnings :: "(string \<times> ExampleInfo) list \<Rightarrow> string list \<Rightarrow> string list" where
  "member_warnings registry members =
     concat (map (\<lambda>m. case get_property registry m of
                          Undefined \<Rightarrow> [''Warning: Example '' @ m @ '' not found'']
                        | _ \<Rightarrow> []) members)"

text \<open>A source path that a run can deal with: it lies beside the destination and is not a
  directory.\<close>

definition source_ok :: "node \<Rightarrow> path \<Rightarrow> path \<Rightarrow> bool" where
  "source_ok fs outputDir p = (diverge p outputDir \<and> \<not> isDirectory fs p)"

definition template_entries :: "node \<Rightarrow> path \<Rightarrow> string list \<Rightarrow> (string \<times> node) list" where
  "template_entries fs baseTemplatePath files =
     concat (map (\<lambda>f. case lookup fs (baseTemplatePath @ [f]) of
                          Some (File s) \<Rightarrow> [(f, File s)]
                        | _ \<Rightarrow> []) files)"


section \<open>generate-docs\<close>

record TestDescription =
  title :: string
  test_description :: string
  test_context :: string

definition is_quote :: "char \<Rightarrow> bool" where
  "is_quote c = (c = CHR 0x27 \<or> c = CHR 0x22 \<or> c = CHR 0x60)"

text \<open>
  \<^verbatim>\<open>/describe\(['"`](.*?)['"`],\s*function\s*\(\)/g\<close>. After the opening quote the
  lazy group grows one character at a time (any character but a line terminator) until a
  quote follows that has \<^verbatim>\<open>, function ()\<close> behind it. A match returns the title and
  the text behind the match.
\<close>

definition describe_tail :: "string \<Rightarrow> string option" where
  "describe_tail s =
     (case starts_with '','' s of
        None \<Rightarrow> None
      | Some r \<Rightarrow>
         (case starts_with ''function'' (drop_spaces r) of
            None \<Rightarrow> None
          | Some r2 \<Rightarrow> starts_with ''()'' (drop_spaces r2)))"

fun lazy_title :: "string \<Rightarrow> string \<Rightarrow> (string \<times> string) option" where
  "lazy_title acc [] = None"
| "lazy_title acc (c # s) =
     (case (if is_quote c then describe_tail s else None) of
        Some rest \<Rightarrow> Some (acc, rest)
      | None \<Rightarrow> if line_break (c # s) \<noteq> None then None else lazy_title (acc @ [c]) s)"

definition match_describe :: "string \<Rightarrow> (string \<times> string) option" where
  "match_describe s =
     (case starts_with ''describe('' s of
        Some (q # r) \<Rightarrow> if is_quote q then lazy_title [] r else None
      | _ \<Rightarrow> None)"

lemma describe_tail_length: "describe_tail s = Some rest \<Longrightarrow> length rest \<le> length s"
proof -
  assume a: "describe_tail s = Some rest"
  then obtain r r2 where r: "starts_with '','' s = Some r"
    and r2: "starts_with ''function'' (drop_spaces r) = Some r2"
    and r3: "starts_with ''()'' (drop_spaces r2) = Some rest"
    by (auto simp: describe_tail_def split: option.splits)
  have "length rest \<le> length (drop_spaces r2)"
    using starts_with_length[OF r3] by simp
  also have "\<dots> \<le> length r2" by (rule drop_spaces_length)
  also have "\<dots> \<le> length (drop_spaces r)"
    using starts_with_length[OF r2] by simp
  also have "\<dots> \<le> length r" by (rule drop_spaces_length)
  also have "\<dots> \<le> length s" using starts_with_length[OF r] by simp
  finally show ?thesis .
qed

lemma lazy_title_length: "lazy_title acc s = Some (t, rest) \<Longrightarrow> length rest < length s"
proof (induction acc s rule: lazy_title.induct)
  case (2 acc c s)
  show ?case
  proof (cases "if is_quote c then describe_tail s else None")
    case None
    with 2 have "length rest < length s" by (auto split: if_splits)
    then show ?thesis by simp
  next
    case (Some r)
    with 2(2) have "r = rest" by simp
    with Some have "describe_tail s = Some rest" by (auto split: if_splits)
    from describe_tail_length[OF this] show ?thesis by simp
  qed
qed simp

lemma match_describe_length: "match_describe s = Some (t, rest) \<Longrightarrow> length rest < length s"
proof -
  assume "match_describe s = Some (t, rest)"
  then obtain q r where a: "starts_with ''describe('' s = Some (q # r)"
    and b: "lazy_title [] r = Some (t, rest)"
    by (auto simp: match_describe_def split: option.splits list.splits if_splits)
  from lazy_title_length[OF b] starts_with_length[OF a] show ?thesis by simp
qed

text \<open>
  \<^verbatim>\<open>/\/\*\*[\s\S]*?\*\//g\<close>: from an opening \<^verbatim>\<open>/**\<close> to the first \<^verbatim>\<open>*/\<close> behind
  it. \<open>all_jsdocs\<close> is \<^verbatim>\<open>matchAll\<close>: the matches from left to right, each search
  starting where the last match ended.
\<close>

fun until_close :: "string \<Rightarrow> string \<Rightarrow> (string \<times> string) option" where
  "until_close acc [] = None"
| "until_close acc (c # s) =
     (case starts_with ''*/'' (c # s) of
        Some rest \<Rightarrow> Some (acc @ ''*/'', rest)
      | None \<Rightarrow> until_close (acc @ [c]) s)"

definition match_jsdoc :: "string \<Rightarrow> (string \<times> string) option" where
  "match_jsdoc s =
     (case starts_with ''/**'' s of
        None \<Rightarrow> None
      | Some r \<Rightarrow>
         (case until_close [] r of
            None \<Rightarrow> None
          | Some (body, rest) \<Rightarrow> Some (''/**'' @ body, rest)))"

lemma until_close_length: "until_close acc s = Some (b, rest) \<Longrightarrow> length rest < length s"
proof (induction acc s rule: until_close.induct)
  case (2 acc c s)
  show ?case
  proof (cases "starts_with ''*/'' (c # s)")
    case None
    with 2 have "length rest < length s" by simp
    then show ?thesis by simp
  next
    case (Some r)
    with 2(2) have "r = rest" by simp
    with starts_with_length[OF Some] show ?thesis by simp
  qed
qed simp

lemma match_jsdoc_length: "match_jsdoc s = Some (m, rest) \<Longrightarrow> length rest < length s"
  by (fastforce simp: match_jsdoc_def split: option.splits
        dest: until_close_length starts_with_length)

function all_jsdocs :: "string \<Rightarrow> string list" where
  "all_jsdocs [] = []"
| "all_jsdocs (c # s) =
     (case match_jsdoc (c # s) of
        Some (m, rest) \<Rightarrow> m # all_jsdocs rest
      | None \<Rightarrow> all_jsdocs s)"
  by pat_completeness auto
termination
  by (relation "measure length") (auto dest: match_jsdoc_length)

text \<open>
  \<^verbatim>\<open>.replace(/\/\*\*|^\s*\*\/$/gm, '')\<close>: every \<^verbatim>\<open>/**\<close> goes, and a \<^verbatim>\<open>*/\<close> goes
  together with the white space in front of it when that white space starts a line and
  the \<^verbatim>\<open>*/\<close> ends one. The first argument is the text in front of the position the
  search is at.
\<close>

definition match_closing :: "string \<Rightarrow> string option" where
  "match_closing s =
     (case starts_with ''*/'' (drop_spaces s) of
        None \<Rightarrow> None
      | Some r \<Rightarrow> if line_end r then Some r else None)"

lemma match_closing_length: "match_closing s = Some rest \<Longrightarrow> length rest < length s"
proof -
  assume "match_closing s = Some rest"
  then have "starts_with ''*/'' (drop_spaces s) = Some rest"
    by (auto simp: match_closing_def split: option.splits if_splits)
  then have "length rest < length (drop_spaces s)"
    by (auto dest: starts_with_length)
  also have "\<dots> \<le> length s" by (rule drop_spaces_length)
  finally show ?thesis .
qed

function strip_delimiters :: "string \<Rightarrow> string \<Rightarrow> string" where
  "strip_delimiters front [] = []"
| "strip_delimiters front (c # s) =
     (case starts_with ''/**'' (c # s) of
        Some rest \<Rightarrow> strip_delimiters (front @ ''/**'') rest
      | None \<Rightarrow>
         (case (if line_start front then match_closing (c # s) else None) of
            Some rest \<Rightarrow>
              strip_delimiters (front @ take (length (c # s) - length rest) (c # s)) rest
          | None \<Rightarrow> c # strip_delimiters (front @ [c]) s))"
  by pat_completeness auto
termination
  by (relation "measure (\<lambda>(f, s). length s)")
     (auto dest: match_closing_length starts_with_length split: if_splits)

text \<open>\<^verbatim>\<open>.split('\n')\<close>, \<^verbatim>\<open>.filter(line => line.trim())\<close> and
  \<^verbatim>\<open>.map(line => line.replace(/^\s*\*\s?/, ''))\<close>, then \<^verbatim>\<open>.join('\n')\<close>. A line
  passes the filter when something is left of it after the white space at its ends is
  trimmed, that is when it is not white space altogether.\<close>

fun split_lines :: "string \<Rightarrow> string list" where
  "split_lines [] = [[]]"
| "split_lines (c # s) =
     (if c = CHR 0x0A then [] # split_lines s
      else case split_lines s of
             l # ls \<Rightarrow> (c # l) # ls
           | [] \<Rightarrow> [[c]])"

definition strip_marker :: "string \<Rightarrow> string" where
  "strip_marker line =
     (case starts_with ''*'' (drop_spaces line) of
        None \<Rightarrow> line
      | Some r \<Rightarrow> (case skip_space r of Some r' \<Rightarrow> r' | None \<Rightarrow> r))"

definition cleanJsDoc :: "string \<Rightarrow> string" where
  "cleanJsDoc lastJsDoc =
     intercalate ''\<newline>''
       (map strip_marker
          (filter (\<lambda>line. drop_spaces line \<noteq> [])
             (split_lines (strip_delimiters [] lastJsDoc))))"

text \<open>
  The loop of \<^verbatim>\<open>extractTestDescriptions\<close> over the text of the test file:
  \<open>beforeContent\<close> is the text in front of the position the search is at, which is
  \<^verbatim>\<open>content.substring(0, match.index)\<close> when a match starts there.
\<close>

function describe_loop :: "string \<Rightarrow> string \<Rightarrow> TestDescription list" where
  "describe_loop beforeContent [] = []"
| "describe_loop beforeContent (c # s) =
     (case match_describe (c # s) of
        None \<Rightarrow> describe_loop (beforeContent @ [c]) s
      | Some (context, rest) \<Rightarrow>
          (case all_jsdocs beforeContent of
             [] \<Rightarrow> []
           | jsDocMatches \<Rightarrow>
               [\<lparr>title = context, test_description = cleanJsDoc (last jsDocMatches),
                 test_context = context\<rparr>]) @
          describe_loop (beforeContent @ take (length (c # s) - length rest) (c # s)) rest)"
  by pat_completeness auto
termination
  by (relation "measure (\<lambda>(b, s). length s)") (auto dest: match_describe_length)

definition extractTestDescriptions :: "string \<Rightarrow> TestDescription list" where
  "extractTestDescriptions content = describe_loop [] content"

text \<open>The test-group declarations the search finds, from left to right, each as the text
  in front of it and its title.\<close>

function describe_declarations :: "string \<Rightarrow> string \<Rightarrow> (string \<times> string) list" where
  "describe_declarations beforeContent [] = []"
| "describe_declarations beforeContent (c # s) =
     (case match_describe (c # s) of
        None \<Rightarrow> describe_declarations (beforeContent @ [c]) s
      | Some (context, rest) \<Rightarrow>
          (beforeContent, context) #
          describe_declarations (beforeContent @ take (length (c # s) - length rest) (c # s)) rest)"
  by pat_completeness auto
termination
  by (relation "measure (\<lambda>(b, s). length s)") (auto dest: match_describe_length)

text \<open>
  \<^verbatim>\<open>contractContent.match(/\/\/\/\s*(.*?)\n/)\<close>: the first \<^verbatim>\<open>///\<close> from which a
  line can be read. \<open>to_newline\<close> is \<^verbatim>\<open>(.*?)\n\<close>: a run without line terminators
  that stops at a \<^verbatim>\<open>\n\<close>. The greedy \<^verbatim>\<open>\s*\<close> may run over line ends: \<open>doc_line\<close>
  first tries with one more white-space character taken, and reads the line from where
  it is only when that fails.
\<close>

fun to_newline :: "string \<Rightarrow> string \<Rightarrow> string option" where
  "to_newline acc [] = None"
| "to_newline acc (c # s) =
     (if c = CHR 0x0A then Some acc
      else if line_break (c # s) \<noteq> None then None
      else to_newline (acc @ [c]) s)"

function doc_line :: "string \<Rightarrow> string option" where
  "doc_line [] = None"
| "doc_line (c # s) =
     (case (case skip_space (c # s) of Some r \<Rightarrow> doc_line r | None \<Rightarrow> None) of
        Some line \<Rightarrow> Some line
      | None \<Rightarrow> to_newline [] (c # s))"
  by pat_completeness auto
termination
  by (relation "measure length") (auto dest: skip_space_length)

fun first_doc_line :: "string \<Rightarrow> string option" where
  "first_doc_line [] = None"
| "first_doc_line (c # s) =
     (case (case starts_with ''///'' (c # s) of
              None \<Rightarrow> None
            | Some r \<Rightarrow> doc_line r) of
        Some line \<Rightarrow> Some line
      | None \<Rightarrow> first_doc_line s)"

text \<open>
  \<^verbatim>\<open>/^\s*(public|private)?\s*(\w+)\s+(\w+)/gm\<close>: at a line start, white space, then
  two words with white space between them; a leading \<^verbatim>\<open>public\<close> or \<^verbatim>\<open>private\<close> is
  taken as the optional group when two words still follow it, and as the first word
  otherwise. A match returns the two words and the text behind the match.
\<close>

definition two_words :: "string \<Rightarrow> (string \<times> string \<times> string) option" where
  "two_words s =
     (let w1 = takeWhile is_word s;
          r1 = dropWhile is_word s;
          r2 = drop_spaces r1;
          w2 = takeWhile is_word r2
      in if w1 = [] \<or> r2 = r1 \<or> w2 = [] then None
         else Some (w1, w2, dropWhile is_word r2))"

definition match_var :: "string \<Rightarrow> (string \<times> string \<times> string) option" where
  "match_var s =
     (let r = drop_spaces s in
      case (case starts_with ''public'' r of
              Some r' \<Rightarrow> two_words (drop_spaces r')
            | None \<Rightarrow>
               (case starts_with ''private'' r of
                  Some r' \<Rightarrow> two_words (drop_spaces r')
                | None \<Rightarrow> None)) of
        Some m \<Rightarrow> Some m
      | None \<Rightarrow> two_words r)"

lemma two_words_length: "two_words s = Some (a, b, rest) \<Longrightarrow> length rest < length s"
proof -
  assume "two_words s = Some (a, b, rest)"
  then have rest: "rest = dropWhile is_word (drop_spaces (dropWhile is_word s))"
    and ne: "takeWhile is_word s \<noteq> []"
    by (auto simp: two_words_def Let_def split: if_splits)
  have "length rest \<le> length (drop_spaces (dropWhile is_word s))"
    unfolding rest by (rule length_dropWhile_le)
  also have "\<dots> \<le> length (dropWhile is_word s)" by (rule drop_spaces_length)
  also have "\<dots> < length s"
    using ne by (cases s) (auto simp: le_imp_less_Suc length_dropWhile_le split: if_splits)
  finally show ?thesis .
qed

lemma match_var_length: "match_var s = Some (a, b, rest) \<Longrightarrow> length rest < length s"
proof -
  assume m: "match_var s = Some (a, b, rest)"
  have le: "length (drop_spaces t) \<le> length t" for t by (rule drop_spaces_length)
  from m consider r' where "starts_with ''public'' (drop_spaces s) = Some r'"
      "two_words (drop_spaces r') = Some (a, b, rest)"
    | r' where "starts_with ''private'' (drop_spaces s) = Some r'"
      "two_words (drop_spaces r') = Some (a, b, rest)"
    | "two_words (drop_spaces s) = Some (a, b, rest)"
    by (auto simp: match_var_def Let_def split: option.splits)
  then show ?thesis
  proof cases
    case 1
    from two_words_length[OF 1(2)] starts_with_length[OF 1(1)] le[of r'] le[of s]
    show ?thesis by simp
  next
    case 2
    from two_words_length[OF 2(2)] starts_with_length[OF 2(1)] le[of r'] le[of s]
    show ?thesis by simp
  next
    case 3
    from two_words_length[OF 3] le[of s] show ?thesis by simp
  qed
qed

function scan_vars :: "string \<Rightarrow> string \<Rightarrow> (string \<times> string) list" where
  "scan_vars front [] = []"
| "scan_vars front (c # s) =
     (case (if line_start front then match_var (c # s) else None) of
        Some (w1, w2, rest) \<Rightarrow>
          (w1, w2) # scan_vars (front @ take (length (c # s) - length rest) (c # s)) rest
      | None \<Rightarrow> scan_vars (front @ [c]) s)"
  by pat_completeness auto
termination
  by (relation "measure (\<lambda>(f, s). length s)")
     (auto dest: match_var_length split: if_splits)

text \<open>
  \<^verbatim>\<open>/function\s+(\w+)\s*\([^)]*\)\s*(public|external|internal|private)?\s*(view|pure)?\s*(returns\s*\([^)]*\))?/g\<close>.
  Up to the closing parenthesis of the parameters everything is required; behind it
  everything is optional and taken greedily. A match returns the name, the visibility if
  one was read, and the text behind the match.
\<close>

definition parenthesised :: "string \<Rightarrow> string option" where
  "parenthesised s =
     (case starts_with ''('' s of
        None \<Rightarrow> None
      | Some r \<Rightarrow> starts_with '')'' (dropWhile (\<lambda>c. c \<noteq> CHR '')'') r))"

definition function_tail :: "string \<Rightarrow> string option \<times> string" where
  "function_tail s =
     (let r1 = drop_spaces s;
          (visibility, r2) =
             (case first_of [''public'', ''external'', ''internal'', ''private''] r1 of
                Some (w, r) \<Rightarrow> (Some w, r) | None \<Rightarrow> (None, r1));
          r3 = drop_spaces r2;
          r4 = (case first_of [''view'', ''pure''] r3 of Some (w, r) \<Rightarrow> r | None \<Rightarrow> r3);
          r5 = drop_spaces r4;
          r6 = (case starts_with ''returns'' r5 of
                  None \<Rightarrow> r5
                | Some r \<Rightarrow>
                   (case parenthesised (drop_spaces r) of
                      None \<Rightarrow> r5 | Some r' \<Rightarrow> r'))
      in (visibility, r6))"

definition match_function :: "string \<Rightarrow> (string \<times> string option \<times> string) option" where
  "match_function s =
     (case starts_with ''function'' s of
        None \<Rightarrow> None
      | Some r1 \<Rightarrow>
          let r2 = drop_spaces r1;
              funcName = takeWhile is_word r2
          in if r2 = r1 \<or> funcName = [] then None
             else (case parenthesised (drop_spaces (dropWhile is_word r2)) of
                     None \<Rightarrow> None
                   | Some r3 \<Rightarrow>
                       (case function_tail r3 of
                          (visibility, rest) \<Rightarrow> Some (funcName, visibility, rest))))"

lemma first_of_shorter: "first_of ws s = Some (w, r) \<Longrightarrow> length r \<le> length s"
  by (drule first_of_length) simp

lemma parenthesised_length: "parenthesised s = Some r \<Longrightarrow> length r < length s"
proof -
  assume "parenthesised s = Some r"
  then obtain r1 where r1: "starts_with ''('' s = Some r1"
    and r: "starts_with '')'' (dropWhile (\<lambda>c. c \<noteq> CHR '')'') r1) = Some r"
    by (auto simp: parenthesised_def split: option.splits)
  have "length r < length (dropWhile (\<lambda>c. c \<noteq> CHR '')'') r1)"
    using starts_with_length[OF r] by simp
  also have "\<dots> \<le> length r1" by (rule length_dropWhile_le)
  also have "\<dots> < length s" using starts_with_length[OF r1] by simp
  finally show ?thesis .
qed

lemma function_tail_length: "function_tail s = (v, rest) \<Longrightarrow> length rest \<le> length s"
proof -
  assume a: "function_tail s = (v, rest)"
  have le: "length (drop_spaces t) \<le> length t" for t by (rule drop_spaces_length)
  define r1 where "r1 = drop_spaces s"
  define r2 where "r2 = (case first_of [''public'', ''external'', ''internal'', ''private''] r1 of
                Some (w, r) \<Rightarrow> r | None \<Rightarrow> r1)"
  define r3 where "r3 = drop_spaces r2"
  define r4 where "r4 = (case first_of [''view'', ''pure''] r3 of Some (w, r) \<Rightarrow> r | None \<Rightarrow> r3)"
  define r5 where "r5 = drop_spaces r4"
  have rest: "rest = (case starts_with ''returns'' r5 of
                  None \<Rightarrow> r5
                | Some r \<Rightarrow>
                   (case parenthesised (drop_spaces r) of
                      None \<Rightarrow> r5 | Some r' \<Rightarrow> r'))"
    using a unfolding function_tail_def Let_def r1_def r2_def r3_def r4_def r5_def
    by (auto split: option.splits prod.splits simp del: first_of.simps)
  have "length rest \<le> length r5"
  proof (cases "starts_with ''returns'' r5")
    case None
    then show ?thesis by (simp add: rest)
  next
    case (Some r)
    show ?thesis
    proof (cases "parenthesised (drop_spaces r)")
      case None
      with Some show ?thesis by (simp add: rest)
    next
      case (Some r')
      have "length r' < length (drop_spaces r)" using Some by (rule parenthesised_length)
      also have "\<dots> \<le> length r" by (rule le)
      also have "\<dots> \<le> length r5" using starts_with_length[OF \<open>starts_with ''returns'' r5 = Some r\<close>] by simp
      finally show ?thesis using Some \<open>starts_with ''returns'' r5 = Some r\<close> by (simp add: rest)
    qed
  qed
  also have "\<dots> \<le> length r4" unfolding r5_def by (rule le)
  also have "\<dots> \<le> length r3"
    unfolding r4_def by (auto split: option.splits dest: first_of_shorter simp del: first_of.simps)
  also have "\<dots> \<le> length r2" unfolding r3_def by (rule le)
  also have "\<dots> \<le> length r1"
    unfolding r2_def by (auto split: option.splits dest: first_of_shorter simp del: first_of.simps)
  also have "\<dots> \<le> length s" unfolding r1_def by (rule le)
  finally show ?thesis .
qed

lemma match_function_length:
  "match_function s = Some (n, v, rest) \<Longrightarrow> length rest < length s"
proof -
  assume a: "match_function s = Some (n, v, rest)"
  then obtain r1 r3 where r1: "starts_with ''function'' s = Some r1"
    and r3: "parenthesised (drop_spaces (dropWhile is_word (drop_spaces r1))) = Some r3"
    and t: "function_tail r3 = (v, rest)"
    by (auto simp: match_function_def Let_def split: option.splits if_splits prod.splits)
  have "length rest \<le> length r3" using t by (rule function_tail_length)
  also have "\<dots> < length (drop_spaces (dropWhile is_word (drop_spaces r1)))"
    using r3 by (rule parenthesised_length)
  also have "\<dots> \<le> length (dropWhile is_word (drop_spaces r1))"
    by (rule drop_spaces_length)
  also have "\<dots> \<le> length (drop_spaces r1)" by (rule length_dropWhile_le)
  also have "\<dots> \<le> length r1" by (rule drop_spaces_length)
  also have "\<dots> \<le> length s" using starts_with_length[OF r1] by simp
  finally show ?thesis .
qed

function scan_functions :: "string \<Rightarrow> (string \<times> string option) list" where
  "scan_functions [] = []"
| "scan_functions (c # s) =
     (case match_function (c # s) of
        Some (funcName, visibility, rest) \<Rightarrow> (funcName, visibility) # scan_functions rest
      | None \<Rightarrow> scan_functions s)"
  by pat_completeness auto
termination
  by (relation "measure length") (auto dest: match_function_length)

text \<open>
  What the extraction is expected to read, in words. A test group is declared at the
  front of a text by \<^verbatim>\<open>describe(\<close>, a quote, the title, a quote, a comma,
  \<^verbatim>\<open>function\<close> and \<^verbatim>\<open>()\<close>, with white space allowed behind the comma and behind
  \<^verbatim>\<open>function\<close>; the title holds no line terminator and ends at the first quote that
  has the rest of the declaration behind it.
\<close>

definition group_tail :: "string \<Rightarrow> string \<Rightarrow> bool" where
  "group_tail s rest =
     (\<exists>ws ws'. spaces ws \<and> spaces ws' \<and> s = '','' @ ws @ ''function'' @ ws' @ ''()'' @ rest)"

definition test_group :: "string \<Rightarrow> string \<Rightarrow> string \<Rightarrow> bool" where
  "test_group s t rest =
     (\<exists>q q' r. is_quote q \<and> is_quote q' \<and> s = ''describe('' @ [q] @ t @ [q'] @ r \<and>
        group_tail r rest \<and>
        \<not> (\<exists>x tm y. tm \<in> set line_terminators \<and> t = x @ tm @ y) \<and>
        \<not> (\<exists>t1 c t2 r'. is_quote c \<and> t = t1 @ c # t2 \<and> group_tail (t2 @ [q'] @ r) r'))"

text \<open>
  A text holds a comment when a \<^verbatim>\<open>/**\<close> in it has a \<^verbatim>\<open>*/\<close> somewhere behind it. The
  comment that starts at a \<^verbatim>\<open>/**\<close> is \<^verbatim>\<open>/**\<close>, a body and \<^verbatim>\<open>*/\<close>, where this
  \<^verbatim>\<open>*/\<close> is the first behind the \<^verbatim>\<open>/**\<close>. A text lies outside the comments when it
  is made of whole comments and of characters that do not start a \<^verbatim>\<open>/**\<close>.
\<close>

definition holds_comment :: "string \<Rightarrow> bool" where
  "holds_comment s = (\<exists>x y z. s = x @ ''/**'' @ y @ ''*/'' @ z)"

definition closes_first :: "string \<Rightarrow> bool" where
  "closes_first body = (\<not> sublist ''*/'' (body @ ''*''))"

inductive outside_comments :: "string \<Rightarrow> bool" where
  empty: "outside_comments []"
| comment: "closes_first body \<Longrightarrow> outside_comments a \<Longrightarrow>
            outside_comments (''/**'' @ body @ ''*/'' @ a)"
| other: "\<not> prefix ''/**'' (c # a) \<Longrightarrow> outside_comments a \<Longrightarrow> outside_comments (c # a)"

text \<open>
  The body of a pair, from the comment \<^verbatim>\<open>/**\<close>, \<open>body\<close>, \<^verbatim>\<open>*/\<close>. First the delimiters
  go: when the \<^verbatim>\<open>*/\<close> has only white space between it and a line start, it goes with
  the white space back to the first such line start; otherwise it stays; and every
  \<^verbatim>\<open>/**\<close> goes. What is left is cut into lines at the newlines, the lines that are
  white space altogether are dropped, and each line that is left loses its marker: the
  white space in front of a \<^verbatim>\<open>*\<close>, the \<^verbatim>\<open>*\<close>, and one white-space character behind
  it. The lines are joined with newlines again.
\<close>

definition openers_removed :: "string \<Rightarrow> string \<Rightarrow> bool" where
  "openers_removed s r =
     (\<exists>ps. ps \<noteq> [] \<and> s = intercalate ''/**'' ps \<and> r = concat ps \<and>
           \<not> list_ex (sublist ''/**'') ps)"

definition delimiters_removed :: "string \<Rightarrow> string \<Rightarrow> bool" where
  "delimiters_removed body r =
     ((\<exists>x ws. body = x @ ws \<and> spaces ws \<and> line_start (''/**'' @ x) \<and>
          \<not> (\<exists>x' ws'. body = x' @ ws' \<and> spaces ws' \<and> line_start (''/**'' @ x') \<and>
                       length x' < length x) \<and>
          openers_removed x r) \<or>
      (\<not> (\<exists>x ws. body = x @ ws \<and> spaces ws \<and> line_start (''/**'' @ x)) \<and>
       openers_removed (body @ ''*/'') r))"

definition unmarked :: "string \<Rightarrow> string \<Rightarrow> bool" where
  "unmarked l r =
     ((\<exists>ws l'. spaces ws \<and> l = ws @ ''*'' @ l' \<and>
         ((\<exists>w. w \<in> set white_space \<and> l' = w @ r) \<or>
          (\<not> (\<exists>w r'. w \<in> set white_space \<and> l' = w @ r') \<and> r = l'))) \<or>
      (\<not> (\<exists>ws l'. spaces ws \<and> l = ws @ ''*'' @ l') \<and> r = l))"

definition cleaned :: "string \<Rightarrow> string \<Rightarrow> bool" where
  "cleaned body r =
     (\<exists>t ls out.
        delimiters_removed body t \<and>
        ls \<noteq> [] \<and> t = intercalate ''\<newline>'' ls \<and> \<not> list_ex (\<lambda>l. CHR 0x0A \<in> set l) ls \<and>
        list_all2 unmarked (filter (\<lambda>l. \<not> spaces l) ls) out \<and>
        r = intercalate ''\<newline>'' out)"

text \<open>The body for a declaration with the text \<open>front\<close> in front of it: the cleaned body of
  the last comment in \<open>front\<close>.\<close>

definition nearest_comment :: "string \<Rightarrow> string \<Rightarrow> bool" where
  "nearest_comment front body =
     (\<exists>a b. front = a @ ''/**'' @ body @ ''*/'' @ b \<and>
            outside_comments a \<and> closes_first body \<and> \<not> holds_comment b)"

text \<open>
  \<^verbatim>\<open>generateContractDoc\<close> on the texts of the two files; \<^verbatim>\<open>stateVarRegex\<close> is
  declared in the script and never used.
\<close>

definition contractDoc :: "string \<Rightarrow> string \<Rightarrow> TestDescription list \<Rightarrow> string" where
  "contractDoc contractName contractContent testDescriptions =
     ''# '' @ contractName @ ''\<newline>\<newline>'' @
     (case first_doc_line contractContent of
        Some line \<Rightarrow> line @ ''\<newline>\<newline>''
      | None \<Rightarrow> []) @
     ''## Overview\<newline>\<newline>'' @
     ''**File:** `contracts/'' @ contractName @ ''.sol`\<newline>\<newline>'' @
     (if testDescriptions \<noteq> []
      then ''## Functionality\<newline>\<newline>'' @
           concat (map (\<lambda>t. ''### '' @ title t @ ''\<newline>\<newline>'' @
                            test_description t @ ''\<newline>\<newline>'') testDescriptions)
      else []) @
     ''## Contract Structure\<newline>\<newline>'' @
     ''### State Variables\<newline>\<newline>'' @
     (case scan_vars [] contractContent of
        [] \<Rightarrow> ''No public state variables.\<newline>''
      | vars \<Rightarrow> concat (map (\<lambda>(w1, w2). ''- `'' @ w1 @ '' '' @ w2 @ ''`\<newline>'') vars)) @
     ''\<newline>### Functions\<newline>\<newline>'' @
     (case scan_functions contractContent of
        [] \<Rightarrow> ''No public functions.\<newline>''
      | funcs \<Rightarrow>
          concat (map (\<lambda>(funcName, visibility).
                         ''- `'' @ funcName @ ''` ('' @
                         (case visibility of Some v \<Rightarrow> v | None \<Rightarrow> ''internal'') @
                         '')\<newline>'') funcs)) @
     ''\<newline>## Testing\<newline>\<newline>'' @
     ''Run tests with:\<newline>\<newline>'' @
     ''```bash\<newline>npm run test\<newline>```\<newline>\<newline>''"

definition generateContractDoc :: "node \<Rightarrow> string \<Rightarrow> path \<Rightarrow> path \<Rightarrow> failure + string" where
  "generateContractDoc fs contractName contractPath testPath =
     (case readFileSync fs contractPath of
        Inl e \<Rightarrow> Inl e
      | Inr contractContent \<Rightarrow>
         (case readFileSync fs testPath of
            Inl e \<Rightarrow> Inl e
          | Inr content \<Rightarrow>
              Inr (contractDoc contractName contractContent (extractTestDescriptions content))))"

definition generateSummary :: string where
  "generateSummary =
     ''# Summary\<newline>\<newline>'' @
     ''## Introduction\<newline>\<newline>'' @
     ''* [Introduction](README.md)\<newline>\<newline>'' @
     ''## Examples\<newline>\<newline>'' @
     ''* [Artifact Auction](docs/artifact-auction.md)\<newline>\<newline>'' @
     ''## Development\<newline>\<newline>'' @
     ''* [Developer Guide](DEVELOPER_GUIDE.md)\<newline>'' @
     ''* [API Reference](docs/api.md)\<newline>''"

definition apiDoc :: string where
  "apiDoc =
     unlines
      [''# API Reference'',
       '''',
       ''## ArtifactAuction Contract'',
       '''',
       ''### Core Functions'',
       '''',
       ''#### createAuction'',
       ''Creates a new artifact auction.'',
       '''',
       ''```solidity'',
       ''function createAuction('',
       ''    string memory _name,'',
       ''    string memory _description,'',
       ''    string memory _category,'',
       ''    uint256 _minimumBid,'',
       ''    uint256 _auctionDuration,'',
       ''    uint256 _yearCreated,'',
       ''    string memory _provenance'',
       '') external returns (uint32)'',
       ''```'',
       '''',
       ''#### authenticateArtifact'',
       ''Authenticates an artifact in an auction.'',
       '''',
       ''```solidity'',
       ''function authenticateArtifact(uint32 auctionId)'',
       ''    external'',
       ''    onlyAuthenticator'',
       ''```'',
       '''',
       ''#### placeBid'',
       ''Places an encrypted bid on an auction.'',
       '''',
       ''```solidity'',
       ''function placeBid(uint32 auctionId, uint64 _bidAmount)'',
       ''    external'',
       ''    auctionExists(auctionId)'',
       ''    auctionActive(auctionId)'',
       ''```'',
       '''',
       ''#### endAuction'',
       ''Ends an auction and requests bid decryption.'',
       '''',
       ''```solidity'',
       ''function endAuction(uint32 auctionId) external'',
       ''```'',
       '''',
       ''### View Functions'',
       '''',
       ''- `getAuctionInfo(uint32 auctionId)` - Get auction details'',
       ''- `getArtifactDetails(uint32 auctionId)` - Get artifact information'',
       ''- `getBidStatus(uint32 auctionId, address bidder)` - Get bid status'',
       ''- `getAuctionResults(uint32 auctionId)` - Get auction results'',
       ''- `getActiveAuctions()` - Get all active auction IDs'',
       '''',
       ''### Events'',
       '''',
       ''- `AuctionCreated` - Emitted when auction is created'',
       ''- `ConfidentialBidPlaced` - Emitted when bid is placed'',
       ''- `AuctionEnded` - Emitted when auction ends'',
       ''- `ArtifactAuthenticated` - Emitted when artifact is authenticated'',
       ''- `EarningsWithdrawn` - Emitted when seller withdraws earnings'']"

definition bookConfig :: json where
  "bookConfig =
     JObject [(''root'', JString ''./''),
              (''structure'', JObject [(''readme'', JString ''README.md''),
                                       (''summary'', JString ''SUMMARY.md'')])]"

text \<open>
  \<^verbatim>\<open>generateDocumentation\<close>, run in the directory \<open>rootDir\<close>. The third component of
  the result is what the run printed, one entry per call of \<^verbatim>\<open>log\<close>, without the
  colour codes. An exception ends the run with the file system and the output as they
  are.
\<close>

definition closing_lines :: "string list" where
  "closing_lines =
     [''\<newline>'' @ replicate 60 CHR ''='',
      ''Success: Documentation generated successfully'',
      replicate 60 CHR ''='',
      ''\<newline>Generated files:'',
      ''  - docs/artifact-auction.md'',
      ''  - docs/api.md'',
      ''  - SUMMARY.md'',
      ''  - book.json'',
      ''\<newline>To serve documentation locally:'',
      ''  npm install -g gitbook-cli'',
      ''  gitbook serve'']"

definition writeContractDoc :: "node \<Rightarrow> path \<Rightarrow> failure + node \<times> string list" where
  "writeContractDoc fs rootDir =
     (let contractPath = rootDir @ [''contracts'', ''ArtifactAuction.sol''];
          testPath = rootDir @ [''test'', ''ArtifactAuction.ts'']
      in if existsSync fs contractPath \<and> existsSync fs testPath
         then (case generateContractDoc fs ''ArtifactAuction'' contractPath testPath of
                 Inl e \<Rightarrow> Inl e
               | Inr doc \<Rightarrow>
                  (case writeFileSync fs (rootDir @ [''docs'', ''artifact-auction.md'']) doc of
                     Inl e \<Rightarrow> Inl e
                   | Inr fs' \<Rightarrow> Inr (fs', [''Success: Generated artifact-auction.md''])))
         else Inr (fs, []))"

definition generateDocumentation ::
    "(json \<Rightarrow> string) \<Rightarrow> node \<Rightarrow> path \<Rightarrow> failure option \<times> node \<times> string list" where
  "generateDocumentation stringify fs rootDir =
     (let docsDir = rootDir @ [''docs''];
          out0 = [''Generating documentation...'']
      in case (if \<not> existsSync fs docsDir then mkdirSync fs docsDir else Inr fs) of
           Inl e \<Rightarrow> (Some e, fs, out0)
         | Inr fs1 \<Rightarrow>
            (case writeContractDoc fs1 rootDir of
               Inl e \<Rightarrow> (Some e, fs1, out0)
             | Inr (fs2, out1) \<Rightarrow>
                (case writeFileSync fs2 (docsDir @ [''api.md'']) apiDoc of
                   Inl e \<Rightarrow> (Some e, fs2, out0 @ out1)
                 | Inr fs3 \<Rightarrow>
                    (case writeFileSync fs3 (rootDir @ [''SUMMARY.md'']) generateSummary of
                       Inl e \<Rightarrow> (Some e, fs3, out0 @ out1 @ [''Success: Generated api.md''])
                     | Inr fs4 \<Rightarrow>
                        (case writeFileSync fs4 (rootDir @ [''book.json'']) (stringify bookConfig) of
                           Inl e \<Rightarrow>
                             (Some e, fs4,
                              out0 @ out1 @ [''Success: Generated api.md'',
                                             ''Success: Generated SUMMARY.md''])
                         | Inr fs5 \<Rightarrow>
                             (None, fs5,
                              out0 @ out1 @ [''Success: Generated api.md'',
                                             ''Success: Generated SUMMARY.md'',
                                             ''Success: Generated book.json''] @
                              closing_lines))))))"

text \<open>\<^verbatim>\<open>main\<close> of generate-docs, on the command-line arguments. Only the first
  argument is looked at; \<^verbatim>\<open>process.exit(0)\<close> and a run that comes to its end are
  both the result \<open>None\<close>.\<close>

definition usage_lines :: "string list" where
  "usage_lines =
     [''Documentation Generator\<newline>'',
      ''Usage: npx ts-node scripts/generate-docs.ts [options]\<newline>'',
      ''Options:'',
      ''  --help, -h     Show this help message'',
      ''  --all          Generate all documentation\<newline>'']"

definition docs_main ::
    "(json \<Rightarrow> string) \<Rightarrow> node \<Rightarrow> path \<Rightarrow> string list \<Rightarrow> failure option \<times> node \<times> string list" where
  "docs_main stringify fs cwd args =
     (case args of
        a # rest \<Rightarrow>
          if a = ''--help'' \<or> a = ''-h'' then (None, fs, usage_lines)
          else generateDocumentation stringify fs cwd
      | [] \<Rightarrow> generateDocumentation stringify fs cwd)"

section \<open>Stand-ins for the examples\<close>

text \<open>
  The text \<^verbatim>\<open>JSON.stringify(value, null, 2)\<close> returns: two spaces per level, one
  member per line, strings quoted with the escapes of JSON.
\<close>

definition hex_digit :: "nat \<Rightarrow> char" where
  "hex_digit n = ''0123456789abcdef'' ! (n mod 16)"

definition escape_char :: "char \<Rightarrow> string" where
  "escape_char c =
     (if c = CHR 0x22 then [CHR 0x5C, CHR 0x22]
      else if c = CHR 0x5C then [CHR 0x5C, CHR 0x5C]
      else if c = CHR 0x08 then [CHR 0x5C, CHR ''b'']
      else if c = CHR 0x0C then [CHR 0x5C, CHR ''f'']
      else if c = CHR 0x0A then [CHR 0x5C, CHR ''n'']
      else if c = CHR 0x0D then [CHR 0x5C, CHR ''r'']
      else if c = CHR 0x09 then [CHR 0x5C, CHR ''t'']
      else if (of_char c :: nat) < 32
        then [CHR 0x5C, CHR ''u'', CHR ''0'', CHR ''0'',
              hex_digit (of_char c div 16), hex_digit (of_char c)]
      else [c])"

definition quote :: "string \<Rightarrow> string" where
  "quote s = [CHR 0x22] @ concat (map escape_char s) @ [CHR 0x22]"

fun stringify_at :: "nat \<Rightarrow> json \<Rightarrow> string" where
  "stringify_at ind (JString s) = quote s"
| "stringify_at ind (JLiteral t) = t"
| "stringify_at ind (JArray xs) =
     (if xs = [] then ''[]''
      else ''[\<newline>'' @
           intercalate '',\<newline>''
             (map (\<lambda>x. replicate (ind + 2) CHR '' '' @ stringify_at (ind + 2) x) xs) @
           ''\<newline>'' @ replicate ind CHR '' '' @ '']'')"
| "stringify_at ind (JObject kv) =
     (if kv = [] then ''{}''
      else ''{\<newline>'' @
           intercalate '',\<newline>''
             (map (\<lambda>e. replicate (ind + 2) CHR '' '' @ quote (fst e) @ '': '' @
                        stringify_at (ind + 2) (snd e)) kv) @
           ''\<newline>'' @ replicate ind CHR '' '' @ ''}'')"

text \<open>A \<^verbatim>\<open>JSON.parse\<close> that knows one text, the empty object.\<close>

definition demo_parse :: "string \<Rightarrow> json option" where
  "demo_parse = map_of [(''{}'', JObject [])]"

text \<open>A small checkout of the repository under \<^verbatim>\<open>/repo\<close>, with the given contract
  source.\<close>

definition demo_repo :: "string \<Rightarrow> node" where
  "demo_repo source =
     Dir [(''repo'', Dir
       [(''contracts'', Dir [(''ArtifactAuction.sol'', File source)]),
        (''test'', Dir [(''ArtifactAuction.ts'', File ''describe'')]),
        (''scripts'', Dir [(''create-fhevm-example.ts'', File ''main();'')]),
        (''node_modules'', Dir [(''chai'', Dir [])]),
        (''package.json'', File ''{}''),
        (''README.md'', File ''# Hub'')])]"

section \<open>Facts about the file system\<close>

lemmas fs_defs = existsSync_def isDirectory_def diverge_def creatable_def

lemma diverge_sym: "diverge p q \<Longrightarrow> diverge q p"
  by (simp add: diverge_def)

lemma diverge_Cons: "diverge (c # p) (d # q) = (c \<noteq> d \<or> diverge p q)"
  by (auto simp: diverge_def)

lemma diverge_Nil [simp]: "\<not> diverge [] q" "\<not> diverge p []"
  by (simp_all add: diverge_def)

lemma diverge_append: "diverge p q \<Longrightarrow> diverge (p @ r) q"
  unfolding diverge_def
  by (metis prefix_append prefix_order.dual_order.trans prefix_same_cases prefixI)

lemma diverge_snoc: "c \<noteq> d \<Longrightarrow> diverge (p @ [c]) (p @ [d])"
  by (simp add: diverge_def)

lemma map_of_update: "map_of (AList.update k v al) k' = (if k' = k then Some v else map_of al k')"
  by (simp add: update_conv')

lemma lookup_mkdir_p_frame:
  "mkdir_p fs p = Some fs' \<Longrightarrow> diverge q p \<Longrightarrow> lookup fs' q = lookup fs q"
proof (induction fs p arbitrary: fs' q rule: mkdir_p.induct)
  case (3 es c p)
  then obtain d q' where q: "q = d # q'" by (cases q) auto
  from 3(2) obtain n' where n': "mkdir_p (case map_of es c of None \<Rightarrow> Dir [] | Some n \<Rightarrow> n) p = Some n'"
    and fs': "fs' = Dir (AList.update c n' es)"
    by (auto split: option.splits)
  show ?case
  proof (cases "d = c")
    case False
    then show ?thesis by (simp add: q fs' map_of_update)
  next
    case True
    with 3(3) q have dv: "diverge q' p" by (simp add: diverge_Cons)
    then obtain x q'' where q': "q' = x # q''" by (cases q') auto
    have "lookup n' q' = lookup (case map_of es c of None \<Rightarrow> Dir [] | Some n \<Rightarrow> n) q'"
      by (rule 3(1)[OF n' dv])
    then show ?thesis using True
      by (auto simp: q fs' map_of_update q' split: option.splits)
  qed
qed simp_all

lemma lookup_store_frame:
  "store fs p v = Some fs' \<Longrightarrow> diverge q p \<Longrightarrow> lookup fs' q = lookup fs q"
proof (induction fs p v arbitrary: fs' q rule: store.induct)
  case (3 es c p v)
  then obtain d q' where q: "q = d # q'" by (cases q) auto
  show ?case
  proof (cases "d = c")
    case False
    with 3(2) show ?thesis by (auto simp: q map_of_update split: if_splits option.splits)
  next
    case True
    with 3(3) q have dv: "diverge q' p" by (simp add: diverge_Cons)
    then have pne: "p \<noteq> []" by auto
    from 3(2) pne obtain n n' where n: "map_of es c = Some n" and n': "store n p v = Some n'"
      and fs': "fs' = Dir (AList.update c n' es)"
      by (auto split: option.splits)
    have "lookup n' q' = lookup n q'" by (rule 3(1)[OF pne n n' dv])
    then show ?thesis using True by (simp add: q fs' map_of_update n)
  qed
qed simp_all

lemma lookup_store_same:
  "store fs p v = Some fs' \<Longrightarrow> lookup fs' (p @ r) = lookup v r"
proof (induction fs p v arbitrary: fs' rule: store.induct)
  case (3 es c p v)
  then show ?case
    by (auto simp: map_of_update split: if_splits option.splits)
qed simp_all

lemma store_ok:
  "lookup fs p = Some (Dir es) \<Longrightarrow> \<exists>fs'. store fs (p @ [c]) v = Some fs'"
proof (induction fs p arbitrary: es rule: lookup.induct)
  case (3 ds d p)
  then obtain n where n: "map_of ds d = Some n" and l: "lookup n p = Some (Dir es)"
    by (auto split: option.splits)
  from 3(1)[OF n l] obtain n' where "store n (p @ [c]) v = Some n'" by blast
  then show ?case by (simp add: n)
qed simp_all

lemma mkdir_p_isDirectory: "mkdir_p fs p = Some fs' \<Longrightarrow> isDirectory fs' p"
proof (induction fs p arbitrary: fs' rule: mkdir_p.induct)
  case (3 es c p)
  then show ?case
    by (auto simp: isDirectory_def map_of_update split: option.splits)
qed (auto simp: isDirectory_def)

lemma mkdir_p_fresh:
  "mkdir_p fs p = Some fs' \<Longrightarrow> lookup fs p = None \<Longrightarrow> lookup fs' p = Some (Dir [])"
proof (induction fs p arbitrary: fs' rule: mkdir_p.induct)
  case (3 es c p)
  from 3(2) obtain n' where n': "mkdir_p (case map_of es c of None \<Rightarrow> Dir [] | Some n \<Rightarrow> n) p = Some n'"
    and fs': "fs' = Dir (AList.update c n' es)"
    by (auto split: option.splits)
  show ?case
  proof (cases "map_of es c")
    case None
    show ?thesis
    proof (cases p)
      case Nil
      with n' None show ?thesis by (simp add: fs' map_of_update)
    next
      case (Cons d p')
      then have "lookup (Dir []) p = None" by simp
      with 3(1)[OF n'] None show ?thesis by (simp add: fs' map_of_update)
    qed
  next
    case (Some n)
    with 3 n' show ?thesis by (simp add: fs' map_of_update)
  qed
qed simp_all

lemma mkdir_p_ok:
  "\<forall>q s. prefix q p \<longrightarrow> lookup fs q \<noteq> Some (File s) \<Longrightarrow> \<exists>fs'. mkdir_p fs p = Some fs'"
proof (induction fs p rule: mkdir_p.induct)
  case (1 s p)
  then have "prefix [] p \<longrightarrow> lookup (File s) [] \<noteq> Some (File s)" by blast
  then show ?case by simp
next
  case (2 es)
  then show ?case by simp
next
  case (3 es c p)
  let ?n = "case map_of es c of None \<Rightarrow> Dir [] | Some n \<Rightarrow> n"
  have "\<forall>q s. prefix q p \<longrightarrow> lookup ?n q \<noteq> Some (File s)"
  proof (intro allI impI)
    fix q s assume q: "prefix q p"
    then have pq: "prefix (c # q) (c # p)" by simp
    show "lookup ?n q \<noteq> Some (File s)"
    proof (cases "map_of es c")
      case None
      then show ?thesis by (cases q) auto
    next
      case (Some n)
      with 3(2) pq have "lookup (Dir es) (c # q) \<noteq> Some (File s)" by blast
      with Some show ?thesis by simp
    qed
  qed
  from 3(1)[OF this] show ?case by auto
qed

lemma lookup_append:
  "lookup fs (p @ r) = (case lookup fs p of None \<Rightarrow> None | Some n \<Rightarrow> lookup n r)"
  by (induction fs p rule: lookup.induct) (auto split: option.splits)

lemma mkdir_p_child_ok:
  assumes "lookup fs p = Some (Dir es)" and "lookup fs (p @ [c]) = None"
  shows "\<exists>fs'. mkdir_p fs (p @ [c]) = Some fs'"
proof (rule mkdir_p_ok, intro allI impI)
  fix q s assume "prefix q (p @ [c])"
  then consider "q = p @ [c]" | "prefix q p" by (auto simp: prefix_snoc)
  then show "lookup fs q \<noteq> Some (File s)"
  proof cases
    case 1 with assms show ?thesis by simp
  next
    case 2
    then obtain r where p: "p = q @ r" by (auto simp: prefix_def)
    show ?thesis
    proof
      assume "lookup fs q = Some (File s)"
      then have "lookup fs (q @ r) = (if r = [] then Some (File s) else None)"
        by (cases r) (simp_all add: lookup_append)
      then show False using assms p by (auto split: if_splits)
    qed
  qed
qed

lemma size_child: "(i, n) \<in> set es \<Longrightarrow> size n < size (Dir es)"
  by (induction es) auto

lemma store_store: "store fs p v = Some fs1 \<Longrightarrow> store fs1 p w = store fs p w"
proof (induction fs p v arbitrary: fs1 rule: store.induct)
  case (3 es c p v)
  show ?case
  proof (cases "p = []")
    case True
    with 3(2) show ?thesis by auto
  next
    case False
    with 3(2) obtain n n' where n: "map_of es c = Some n" and n': "store n p v = Some n'"
      and fs1: "fs1 = Dir (AList.update c n' es)"
      by (auto split: option.splits)
    have "store n' p w = store n p w" by (rule 3(1)[OF False n n'])
    then show ?thesis using False n
      by (cases "store n p w") (simp_all add: fs1 map_of_update)
  qed
qed simp_all

lemma store_existing: "lookup fs p = Some n \<Longrightarrow> \<exists>fs'. store fs p v = Some fs'"
proof (induction fs p arbitrary: n rule: lookup.induct)
  case (3 es c p)
  then obtain m where m: "map_of es c = Some m" and l: "lookup m p = Some n"
    by (auto split: option.splits)
  from 3(1)[OF m l] obtain m' where "store m p v = Some m'" by blast
  then show ?case by (simp add: m)
qed simp_all

lemma store_child:
  "lookup fs p = Some (Dir ds) \<Longrightarrow> store fs (p @ [i]) v = store fs p (Dir (AList.update i v ds))"
proof (induction fs p arbitrary: ds rule: lookup.induct)
  case (3 es c p)
  then obtain n where n: "map_of es c = Some n" and l: "lookup n p = Some (Dir ds)"
    by (auto split: option.splits)
  show ?case
  proof (cases p)
    case Nil
    with l have "n = Dir ds" by simp
    with Nil n show ?thesis by simp
  next
    case (Cons d p')
    with 3(1)[OF n l] n show ?thesis by simp
  qed
qed simp_all

lemma mkdir_child:
  "lookup fs p = Some (Dir ds) \<Longrightarrow> map_of ds i = None \<Longrightarrow>
   mkdir_p fs (p @ [i]) = store fs p (Dir (AList.update i (Dir []) ds))"
proof (induction fs p arbitrary: ds rule: lookup.induct)
  case (3 es c p)
  then obtain n where n: "map_of es c = Some n" and l: "lookup n p = Some (Dir ds)"
    by (auto split: option.splits)
  show ?case
  proof (cases p)
    case Nil
    with l have "n = Dir ds" by simp
    with Nil n 3(3) show ?thesis by simp
  next
    case (Cons d p')
    with 3(1)[OF n l 3(3)] n show ?thesis by simp
  qed
qed simp_all

lemma update_fresh: "i \<notin> fst ` set ds \<Longrightarrow> AList.update i v ds = ds @ [(i, v)]"
  by (induction ds) auto

lemma update_last: "i \<notin> fst ` set ds \<Longrightarrow> AList.update i v (ds @ [(i, w)]) = ds @ [(i, v)]"
  by (induction ds) auto

lemma map_of_fresh: "i \<notin> fst ` set ds \<Longrightarrow> map_of ds i = None"
  by (simp add: map_of_eq_None_iff)

lemma update_id: "map_of es c = Some n \<Longrightarrow> AList.update c n es = es"
  by (induction es) (auto split: if_splits)

lemma store_id: "lookup fs p = Some n \<Longrightarrow> store fs p n = Some fs"
proof (induction fs p arbitrary: n rule: lookup.induct)
  case (3 es c p)
  then obtain m where m: "map_of es c = Some m" and l: "lookup m p = Some n"
    by (auto split: option.splits)
  show ?case
  proof (cases "p = []")
    case True
    with l m show ?thesis by (simp add: update_id)
  next
    case False
    with 3(1)[OF m l] m show ?thesis by (simp add: update_id)
  qed
qed simp_all

lemma diverge_append2: "diverge p q \<Longrightarrow> diverge (p @ r) (q @ r')"
  by (metis diverge_append diverge_sym)

lemma lookup_child: "lookup fs p = Some (Dir ds) \<Longrightarrow> lookup fs (p @ [i]) = map_of ds i"
  by (simp add: lookup_append split: option.splits)

lemma copyItems_spec:
  assumes S: "\<And>fs src dst es fs1.
      lookup fs src = Some (Dir es) \<Longrightarrow> size (Dir es) < k \<Longrightarrow> diverge src dst \<Longrightarrow>
      lookup fs dst = None \<Longrightarrow> mkdir_p fs dst = Some fs1 \<Longrightarrow>
      \<exists>fs2. store fs1 dst (template_copy skip (Dir es)) = Some fs2 \<and>
            copyDirectoryRecursive k skip fs src dst = Some (None, fs2)"
  shows "lookup fs dst = Some (Dir ds) \<Longrightarrow> diverge src dst \<Longrightarrow> distinct (map fst ps) \<Longrightarrow>
     \<forall>e\<in>set ps. lookup fs (src @ [fst e]) = Some (snd e) \<and> size (snd e) < k \<and> fst e \<notin> fst ` set ds \<Longrightarrow>
     \<exists>fs2. store fs dst (Dir (ds @ map (\<lambda>e. (fst e, template_copy skip (snd e)))
                                   (filter (kept skip) ps))) = Some fs2 \<and>
           copyItems k skip fs src dst (map fst ps) = Some (None, fs2)"
proof (induction ps arbitrary: fs ds)
  case Nil
  then show ?case by (simp add: store_id)
next
  case (Cons e ps)
  obtain i n where e: "e = (i, n)" by (cases e)
  from Cons.prems e have src_i: "lookup fs (src @ [i]) = Some n" and sz: "size n < k"
    and fresh: "i \<notin> fst ` set ds" by auto
  from Cons.prems e have dist: "distinct (map fst ps)" and inew: "i \<notin> fst ` set ps" by auto
  have dst_i: "lookup fs (dst @ [i]) = None"
    using Cons.prems(1) fresh by (simp add: lookup_child map_of_fresh)
  let ?tc = "\<lambda>e. (fst e, template_copy skip (snd e))"
  \<comment> \<open>what remains once the entry for \<open>i\<close> is in place\<close>
  have rest: "\<exists>fs2. store fs dst (Dir (ds @ (i, v) # map ?tc (filter (kept skip) ps))) = Some fs2 \<and>
                   copyItems k skip fs' src dst (map fst ps) = Some (None, fs2)"
    if st: "store fs dst (Dir (ds @ [(i, v)])) = Some fs'" for v fs'
  proof -
    have d': "lookup fs' dst = Some (Dir (ds @ [(i, v)]))"
      using lookup_store_same[OF st, of "[]"] by simp
    have pre: "\<forall>e\<in>set ps. lookup fs' (src @ [fst e]) = Some (snd e) \<and> size (snd e) < k \<and>
                 fst e \<notin> fst ` set (ds @ [(i, v)])"
    proof
      fix e' assume e': "e' \<in> set ps"
      have "diverge (src @ [fst e']) dst"
        using Cons.prems(2) by (rule diverge_append)
      then have "lookup fs' (src @ [fst e']) = lookup fs (src @ [fst e'])"
        by (rule lookup_store_frame[OF st])
      moreover have "fst e' \<noteq> i" using e' inew by auto
      ultimately show "lookup fs' (src @ [fst e']) = Some (snd e') \<and> size (snd e') < k \<and>
                 fst e' \<notin> fst ` set (ds @ [(i, v)])"
        using Cons.prems(4) e' by auto
    qed
    from Cons.IH[OF d' Cons.prems(2) dist pre] obtain fs2 where
      a: "store fs' dst (Dir ((ds @ [(i, v)]) @ map ?tc (filter (kept skip) ps))) = Some fs2"
      and b: "copyItems k skip fs' src dst (map fst ps) = Some (None, fs2)" by blast
    from a have "store fs dst (Dir (ds @ (i, v) # map ?tc (filter (kept skip) ps))) = Some fs2"
      by (simp add: store_store[OF st])
    with b show ?thesis by blast
  qed
  have pre0: "\<forall>e\<in>set ps. lookup fs (src @ [fst e]) = Some (snd e) \<and> size (snd e) < k \<and>
                 fst e \<notin> fst ` set ds"
    using Cons.prems(4) by simp
  show ?case
  proof (cases "kept skip e")
    case False
    then have "copyItems k skip fs src dst (map fst (e # ps)) = copyItems k skip fs src dst (map fst ps)"
      using src_i by (auto simp: e kept_def split: node.splits)
    with Cons.IH[OF Cons.prems(1,2) dist pre0] False show ?thesis by simp
  next
    case True
    then have nskip: "i \<notin> set skip" by (simp add: kept_def e)
    show ?thesis
    proof (cases n)
      case (File s)
      obtain fs' where st: "store fs dst (Dir (ds @ [(i, File s)])) = Some fs'"
        using store_existing[OF Cons.prems(1)] by blast
      have "store fs (dst @ [i]) (File s) = Some fs'"
        using st by (simp add: store_child[OF Cons.prems(1)] update_fresh[OF fresh])
      then have "copyFileSync fs (src @ [i]) (dst @ [i]) = Inr fs'"
        using src_i dst_i File
        by (simp add: copyFileSync_def readFileSync_def writeFileSync_def isDirectory_def)
      then have "copyItems k skip fs src dst (map fst (e # ps)) = copyItems k skip fs' src dst (map fst ps)"
        using nskip src_i File by (simp add: e)
      with rest[OF st] True File show ?thesis by (simp add: e)
    next
      case (Dir es')
      from True Dir have nex: "i \<notin> set excluded_dirs" by (simp add: kept_def e)
      obtain fs1 where st1: "store fs dst (Dir (ds @ [(i, Dir [])])) = Some fs1"
        using store_existing[OF Cons.prems(1)] by blast
      have mk: "mkdir_p fs (dst @ [i]) = Some fs1"
        using st1 by (simp add: mkdir_child[OF Cons.prems(1) map_of_fresh[OF fresh]] update_fresh[OF fresh])
      have dv: "diverge (src @ [i]) (dst @ [i])"
        using Cons.prems(2) by (rule diverge_append2)
      from S[OF src_i[unfolded Dir] sz[unfolded Dir] dv dst_i mk] obtain fs2' where
        a: "store fs1 (dst @ [i]) (template_copy skip (Dir es')) = Some fs2'" and
        b: "copyDirectoryRecursive k skip fs (src @ [i]) (dst @ [i]) = Some (None, fs2')" by blast
      have d1: "lookup fs1 dst = Some (Dir (ds @ [(i, Dir [])]))"
        using lookup_store_same[OF st1, of "[]"] by simp
      have st: "store fs dst (Dir (ds @ [(i, template_copy skip (Dir es'))])) = Some fs2'"
        using a by (simp add: store_child[OF d1] update_last[OF fresh] store_store[OF st1])
      have "copyItems k skip fs src dst (map fst (e # ps)) = copyItems k skip fs2' src dst (map fst ps)"
        using nskip nex src_i Dir b by (simp add: e)
      with rest[OF st] True Dir show ?thesis by (simp add: e)
    qed
  qed
qed

lemma copyDirectoryRecursive_spec:
  "lookup fs src = Some (Dir es) \<Longrightarrow> size (Dir es) < k \<Longrightarrow> diverge src dst \<Longrightarrow>
   lookup fs dst = None \<Longrightarrow> mkdir_p fs dst = Some fs1 \<Longrightarrow>
   \<exists>fs2. store fs1 dst (template_copy skip (Dir es)) = Some fs2 \<and>
         copyDirectoryRecursive k skip fs src dst = Some (None, fs2)"
proof (induction k arbitrary: fs src dst es fs1)
  case 0
  then show ?case by simp
next
  case (Suc k)
  have d1: "lookup fs1 dst = Some (Dir [])"
    using Suc.prems(4,5) by (rule mkdir_p_fresh[rotated])
  have s1: "lookup fs1 src = Some (Dir es)"
    using lookup_mkdir_p_frame[OF Suc.prems(5) Suc.prems(3)] Suc.prems(1) by simp
  have pre: "\<forall>e\<in>set (AList.clearjunk es).
       lookup fs1 (src @ [fst e]) = Some (snd e) \<and> size (snd e) < k \<and> fst e \<notin> fst ` set []"
  proof
    fix e assume e: "e \<in> set (AList.clearjunk es)"
    then have "(fst e, snd e) \<in> Map.graph (map_of es)" by (simp add: graph_map_of)
    then have m: "map_of es (fst e) = Some (snd e)" by (rule in_graphD)
    then have "(fst e, snd e) \<in> set es" by (rule map_of_SomeD)
    then have "size (snd e) < size (Dir es)" by (rule size_child)
    with Suc.prems(2) m s1
    show "lookup fs1 (src @ [fst e]) = Some (snd e) \<and> size (snd e) < k \<and> fst e \<notin> fst ` set []"
      by (simp add: lookup_child)
  qed
  have "\<exists>fs2. store fs1 dst (Dir ([] @ map (\<lambda>e. (fst e, template_copy skip (snd e)))
                                   (filter (kept skip) (AList.clearjunk es)))) = Some fs2 \<and>
           copyItems k skip fs1 src dst (map fst (AList.clearjunk es)) = Some (None, fs2)"
    by (rule copyItems_spec[OF Suc.IH d1 Suc.prems(3) distinct_clearjunk pre])
  then show ?case
    using Suc.prems(4,5) s1
    by (simp add: existsSync_def mkdirSync_def readdirSync_def)
qed

lemma creatable_mkdir_p: "creatable fs p \<Longrightarrow> \<exists>fs'. mkdir_p fs p = Some fs'"
  by (rule mkdir_p_ok) (simp add: creatable_def in_set_prefixes)

lemma map_of_map_filter:
  "distinct (map fst ps) \<Longrightarrow>
   map_of (map (\<lambda>e. (fst e, f (snd e))) (filter P ps)) c =
     (case map_of ps c of None \<Rightarrow> None | Some n \<Rightarrow> if P (c, n) then Some (f n) else None)"
proof (induction ps)
  case (Cons e ps)
  obtain i n where e: "e = (i, n)" by (cases e)
  from Cons.prems e have "map_of ps i = None" by (simp add: map_of_eq_None_iff)
  with Cons show ?case by (auto simp: e split: option.splits)
qed simp

lemma lookup_template_copy_child:
  "lookup (template_copy skip (Dir es)) [c] =
     (case map_of es c of None \<Rightarrow> None
      | Some n \<Rightarrow> if kept skip (c, n) then Some (template_copy skip n) else None)"
  by (simp add: map_of_map_filter map_of_clearjunk split: option.splits)

lemma copy_fresh:
  assumes "lookup fs src = Some (Dir es)" and "size (Dir es) < k" and "diverge src dst"
    and "lookup fs dst = None" and "creatable fs dst"
  shows "\<exists>fs'. copyDirectoryRecursive k skip fs src dst = Some (None, fs') \<and>
               lookup fs' dst = Some (template_copy skip (Dir es)) \<and>
               (\<forall>q. diverge q dst \<longrightarrow> lookup fs' q = lookup fs q)"
proof -
  from creatable_mkdir_p[OF assms(5)] obtain fs1 where mk: "mkdir_p fs dst = Some fs1" by blast
  from copyDirectoryRecursive_spec[OF assms(1-4) mk] obtain fs2 where
    st: "store fs1 dst (template_copy skip (Dir es)) = Some fs2" and
    cp: "copyDirectoryRecursive k skip fs src dst = Some (None, fs2)" by blast
  have "lookup fs2 dst = Some (template_copy skip (Dir es))"
    using lookup_store_same[OF st, of "[]"] by simp
  moreover have "lookup fs2 q = lookup fs q" if "diverge q dst" for q
    using lookup_store_frame[OF st that] lookup_mkdir_p_frame[OF mk that] by simp
  ultimately show ?thesis using cp by blast
qed

lemma lookup_prefix_Dir:
  "lookup fs (p @ r) = Some n \<Longrightarrow> r \<noteq> [] \<Longrightarrow> \<exists>es. lookup fs p = Some (Dir es)"
  by (cases "lookup fs p"; cases r) (auto simp: lookup_append split: node.splits elim: lookup.elims)

section \<open>Facts about white space\<close>

lemma starts_with_append: "starts_with a s = Some r \<Longrightarrow> s = a @ r"
  by (induction a s rule: starts_with.induct) (auto split: if_splits)

lemma starts_with_self [simp]: "starts_with a (a @ r) = Some r"
  by (induction a) auto

lemma starts_with_iff: "starts_with a s = Some r \<longleftrightarrow> s = a @ r"
  using starts_with_append by auto

lemma first_of_append: "first_of ws s = Some (w, r) \<Longrightarrow> s = w @ r"
  by (induction ws s rule: first_of.induct) (auto split: option.splits dest: starts_with_append)

lemma skip_space_white: "w \<in> set white_space \<Longrightarrow> skip_space (w @ r) = Some r"
  by (auto simp: white_space_def skip_space_def)

lemma skip_space_Some: "skip_space s = Some r \<Longrightarrow> \<exists>w\<in>set white_space. s = w @ r"
  by (auto simp: skip_space_def dest: first_of_append first_of_member)

lemma line_break_Some: "line_break s = Some r \<Longrightarrow> \<exists>w\<in>set line_terminators. s = w @ r"
  by (auto simp: line_break_def dest: first_of_append first_of_member)

lemma line_break_terminator: "w \<in> set line_terminators \<Longrightarrow> line_break (w @ r) = Some r"
  by (auto simp: line_terminators_def line_break_def)

lemma white_space_lead: "w \<in> set white_space \<Longrightarrow> w \<noteq> [] \<and> space_lead (hd w)"
  by (auto simp: white_space_def space_lead_def)

lemma skip_space_lead: "skip_space (c # s) = Some r \<Longrightarrow> space_lead c"
  by (auto dest!: skip_space_Some white_space_lead simp: Cons_eq_append_conv)

lemma skip_space_no_lead: "\<not> space_lead c \<Longrightarrow> skip_space (c # s) = None"
  using skip_space_lead by (cases "skip_space (c # s)") auto

lemma skip_space_Nil [simp]: "skip_space [] = None"
  by (simp add: skip_space_def white_space_def)

lemma drop_spaces_None: "skip_space s = None \<Longrightarrow> drop_spaces s = s"
  by (cases s) auto

lemma drop_spaces_white: "w \<in> set white_space \<Longrightarrow> drop_spaces (w @ r) = drop_spaces r"
proof -
  assume w: "w \<in> set white_space"
  from white_space_lead[OF w] obtain c w' where "w = c # w'" by (cases w) auto
  with skip_space_white[OF w, of r] show ?thesis by simp
qed

lemma drop_spaces_spaces: "spaces ws \<Longrightarrow> drop_spaces (ws @ r) = drop_spaces r"
  by (induction rule: spaces.induct) (simp_all add: drop_spaces_white)

lemma drop_spaces_shape:
  "\<exists>ws. spaces ws \<and> s = ws @ drop_spaces s \<and> skip_space (drop_spaces s) = None"
proof (induction s rule: drop_spaces.induct)
  case 1
  show ?case using spaces.none by simp
next
  case (2 c s)
  show ?case
  proof (cases "skip_space (c # s)")
    case None
    then show ?thesis using spaces.none by auto
  next
    case (Some r)
    from "2.IH"[OF Some] obtain ws where ws: "spaces ws" "r = ws @ drop_spaces r"
      "skip_space (drop_spaces r) = None" by blast
    from skip_space_Some[OF Some] obtain w where w: "w \<in> set white_space" "c # s = w @ r" by blast
    have "spaces (w @ ws)" using w(1) ws(1) by (rule spaces.more)
    moreover have d: "drop_spaces (c # s) = drop_spaces r" using Some by simp
    have "c # s = (w @ ws) @ drop_spaces (c # s)" unfolding d using w(2) ws(2) by simp
    moreover have "skip_space (drop_spaces (c # s)) = None" unfolding d using ws(3) .
    ultimately show ?thesis by blast
  qed
qed

lemma spaces_append: "spaces a \<Longrightarrow> spaces b \<Longrightarrow> spaces (a @ b)"
  by (induction rule: spaces.induct) (auto intro: spaces.more)

lemma spaces_iff: "spaces s \<longleftrightarrow> drop_spaces s = []"
proof
  assume "spaces s"
  from drop_spaces_spaces[OF this, of "[]"] show "drop_spaces s = []" by simp
next
  assume "drop_spaces s = []"
  with drop_spaces_shape[of s] show "spaces s" by auto
qed

lemma spaces_skip: "spaces ws \<Longrightarrow> ws \<noteq> [] \<Longrightarrow> skip_space (ws @ r) \<noteq> None"
proof (induction rule: spaces.induct)
  case (more w r')
  then show ?case by (simp add: skip_space_white)
qed simp

lemma spaces_lead: "spaces ws \<Longrightarrow> ws \<noteq> [] \<Longrightarrow> space_lead (hd ws)"
proof (induction rule: spaces.induct)
  case (more w r')
  then show ?case using white_space_lead[OF more(1)] by simp
qed simp

lemma drop_spaces_eq:
  "spaces ws \<Longrightarrow> skip_space r = None \<Longrightarrow> drop_spaces (ws @ r) = r"
  by (simp add: drop_spaces_spaces drop_spaces_None)

lemma drop_spaces_same: "drop_spaces s = s \<longleftrightarrow> skip_space s = None"
proof
  assume a: "drop_spaces s = s"
  from drop_spaces_shape[of s] show "skip_space s = None" by (simp add: a)
qed (rule drop_spaces_None)

lemma word_no_lead: "is_word c \<Longrightarrow> \<not> space_lead c"
  by (auto simp: is_word_def space_lead_def)

lemmas text_defs = skip_space_def line_break_def white_space_def line_terminators_def
  line_start_def line_end_def suffix_to_prefix

section \<open>The contract pattern\<close>

lemma takeWhile_word:
  "list_all is_word name \<Longrightarrow> r = [] \<or> \<not> is_word (hd r) \<Longrightarrow>
   takeWhile is_word (name @ r) = name \<and> dropWhile is_word (name @ r) = r"
  by (induction name) (cases r; auto)+

lemma spaces_star: "spaces ws \<Longrightarrow> ws \<noteq> [] \<Longrightarrow> hd ws \<noteq> c \<or> space_lead c"
  using spaces_lead by auto

lemma match_contract_declares:
  assumes "match_contract s = Some name"
  shows "declares s name"
proof -
  from assms obtain r1 where r1: "starts_with ''contract'' (drop_spaces s) = Some r1"
    by (auto simp: match_contract_def split: option.splits)
  define r2 where "r2 = drop_spaces r1"
  define r3 where "r3 = dropWhile is_word r2"
  define r4 where "r4 = drop_spaces r3"
  from assms r1 have nm: "name = takeWhile is_word r2" and ne: "r2 \<noteq> r1" "name \<noteq> []"
    and tail: "(r4 \<noteq> r3 \<and> (\<exists>r5. starts_with ''is'' r4 = Some r5 \<and> skip_space r5 \<noteq> None)) \<or>
               starts_with ''{'' r4 \<noteq> None"
    by (auto simp: match_contract_def Let_def r2_def r3_def r4_def split: option.splits if_splits)
  obtain ws1 where ws1: "spaces ws1" "s = ws1 @ drop_spaces s"
    using drop_spaces_shape[of s] by blast
  obtain ws2 where ws2: "spaces ws2" "r1 = ws2 @ r2"
    using drop_spaces_shape[of r1] unfolding r2_def by blast
  obtain ws3 where ws3: "spaces ws3" "r3 = ws3 @ r4" "skip_space r4 = None"
    using drop_spaces_shape[of r3] unfolding r4_def by blast
  have r2: "r2 = name @ r3" by (simp add: nm r3_def)
  have s: "s = ws1 @ ''contract'' @ ws2 @ name @ r3"
    using ws1(2) starts_with_append[OF r1] ws2(2) r2 by simp
  have w2: "ws2 \<noteq> []" using ne(1) ws2(2) by auto
  have words: "list_all is_word name" unfolding nm list_all_iff by (auto dest: set_takeWhileD)
  from tail show ?thesis
  proof
    assume a: "r4 \<noteq> r3 \<and> (\<exists>r5. starts_with ''is'' r4 = Some r5 \<and> skip_space r5 \<noteq> None)"
    then obtain r5 r6 where r5: "r4 = ''is'' @ r5" "skip_space r5 = Some r6"
      by (auto dest: starts_with_append)
    obtain w where w: "w \<in> set white_space" "r5 = w @ r6" using skip_space_Some[OF r5(2)] by blast
    have "spaces w" using spaces.more[OF w(1) spaces.none] by simp
    moreover have "w \<noteq> []" using white_space_lead[OF w(1)] by simp
    moreover have "ws3 \<noteq> []" using a ws3(2) by auto
    moreover have "r3 = ws3 @ ''is'' @ w @ r6" using ws3(2) r5(1) w(2) by simp
    ultimately show ?thesis
      unfolding declares_def using s ws1(1) ws2(1) w2 ne(2) words ws3(1) by blast
  next
    assume "starts_with ''{'' r4 \<noteq> None"
    then obtain r5 where "r4 = ''{'' @ r5" by (auto dest: starts_with_append)
    then have "r3 = ws3 @ ''{'' @ r5" using ws3(2) by simp
    then show ?thesis
      unfolding declares_def using s ws1(1) ws2(1) w2 ne(2) words ws3(1) by blast
  qed
qed

lemma declares_match_contract:
  assumes "declares s name"
  shows "match_contract s = Some name"
proof -
  from assms obtain ws1 ws2 r where s: "s = ws1 @ ''contract'' @ ws2 @ name @ r"
    and sp: "spaces ws1" "spaces ws2" "ws2 \<noteq> []" and nm: "name \<noteq> []" "list_all is_word name"
    and tail: "(\<exists>ws3 ws4 r'. r = ws3 @ ''is'' @ ws4 @ r' \<and>
            spaces ws3 \<and> ws3 \<noteq> [] \<and> spaces ws4 \<and> ws4 \<noteq> []) \<or>
         (\<exists>ws3 r'. r = ws3 @ ''{'' @ r' \<and> spaces ws3)"
    unfolding declares_def by blast
  have d1: "drop_spaces s = ''contract'' @ ws2 @ name @ r"
    unfolding s by (rule drop_spaces_eq[OF sp(1)]) (simp add: skip_space_no_lead space_lead_def)
  then have r1: "starts_with ''contract'' (drop_spaces s) = Some (ws2 @ name @ r)"
    by (simp only: starts_with_self)
  have w0: "is_word (hd name)" using nm by (cases name) auto
  have "skip_space (name @ r) = None"
    using nm(1) w0 skip_space_no_lead[OF word_no_lead] by (cases name) auto
  then have d2: "drop_spaces (ws2 @ name @ r) = name @ r"
    by (rule drop_spaces_eq[OF sp(2)])
  have ne: "name @ r \<noteq> ws2 @ name @ r" using sp(3) by auto
  have nw: "r = [] \<or> \<not> is_word (hd r)"
    using tail
  proof
    assume "\<exists>ws3 ws4 r'. r = ws3 @ ''is'' @ ws4 @ r' \<and>
            spaces ws3 \<and> ws3 \<noteq> [] \<and> spaces ws4 \<and> ws4 \<noteq> []"
    then obtain ws3 x where "r = ws3 @ x" "spaces ws3" "ws3 \<noteq> []" by blast
    then have "space_lead (hd r)" using spaces_lead[of ws3] by simp
    then show ?thesis using word_no_lead by blast
  next
    assume "\<exists>ws3 r'. r = ws3 @ ''{'' @ r' \<and> spaces ws3"
    then obtain ws3 r' where r: "r = ws3 @ ''{'' @ r'" "spaces ws3" by blast
    show ?thesis
    proof (cases "ws3 = []")
      case True
      with r show ?thesis by (simp add: is_word_def)
    next
      case False
      then have "space_lead (hd r)" using spaces_lead[OF r(2)] r(1) by simp
      then show ?thesis using word_no_lead by blast
    qed
  qed
  note tw = takeWhile_word[OF nm(2) nw]
  have res: "match_contract s =
     (let r4 = drop_spaces r
      in if r4 \<noteq> r \<and> (case starts_with ''is'' r4 of None \<Rightarrow> False
                      | Some r5 \<Rightarrow> skip_space r5 \<noteq> None)
         then Some name
         else if starts_with ''{'' r4 \<noteq> None then Some name else None)"
    unfolding match_contract_def r1 using ne nm(1)
    by (simp add: d2 tw Let_def)
  from tail show ?thesis
  proof
    assume "\<exists>ws3 ws4 r'. r = ws3 @ ''is'' @ ws4 @ r' \<and>
            spaces ws3 \<and> ws3 \<noteq> [] \<and> spaces ws4 \<and> ws4 \<noteq> []"
    then obtain ws3 ws4 r' where r: "r = ws3 @ ''is'' @ ws4 @ r'"
      and sp3: "spaces ws3" "ws3 \<noteq> []" "spaces ws4" "ws4 \<noteq> []" by blast
    have d4: "drop_spaces r = ''is'' @ ws4 @ r'"
      unfolding r by (rule drop_spaces_eq[OF sp3(1)]) (simp add: skip_space_no_lead space_lead_def)
    have "drop_spaces r \<noteq> r" unfolding d4 using r sp3(2) by auto
    moreover have "starts_with ''is'' (drop_spaces r) = Some (ws4 @ r')"
      unfolding d4 by (simp only: starts_with_self)
    moreover have "skip_space (ws4 @ r') \<noteq> None" by (rule spaces_skip[OF sp3(3,4)])
    ultimately show ?thesis unfolding res by (simp add: Let_def)
  next
    assume "\<exists>ws3 r'. r = ws3 @ ''{'' @ r' \<and> spaces ws3"
    then obtain ws3 r' where r: "r = ws3 @ ''{'' @ r'" and sp3: "spaces ws3" by blast
    have d4: "drop_spaces r = ''{'' @ r'"
      unfolding r by (rule drop_spaces_eq[OF sp3]) (simp add: skip_space_no_lead space_lead_def)
    have "starts_with ''{'' (drop_spaces r) \<noteq> None" unfolding d4 by simp
    then show ?thesis unfolding res by (simp add: Let_def)
  qed
qed

lemma match_contract_iff: "match_contract s = Some name \<longleftrightarrow> declares s name"
  using match_contract_declares declares_match_contract by blast

lemma match_contract_Nil [simp]: "match_contract [] = None"
  by (simp add: match_contract_def)

text \<open>The search finds the first line start at which the pattern matches.\<close>

lemma search_contract_None:
  "search_contract front s = None \<longleftrightarrow>
   (\<forall>u v. s = u @ v \<longrightarrow> line_start (front @ u) \<longrightarrow> match_contract v = None)"
proof (induction front s rule: search_contract.induct)
  case (1 front)
  show ?case by simp
next
  case (2 front c s)
  have "(\<forall>u v. c # s = u @ v \<longrightarrow> line_start (front @ u) \<longrightarrow> match_contract v = None) \<longleftrightarrow>
        (line_start front \<longrightarrow> match_contract (c # s) = None) \<and>
        (\<forall>u v. s = u @ v \<longrightarrow> line_start ((front @ [c]) @ u) \<longrightarrow> match_contract v = None)"
    (is "?L \<longleftrightarrow> ?A \<and> ?B")
  proof
    assume l: ?L
    have ?A using l[rule_format, of "[]" "c # s"] by simp
    moreover have ?B
    proof (intro allI impI)
      fix u v assume "s = u @ v" "line_start ((front @ [c]) @ u)"
      then show "match_contract v = None" using l[rule_format, of "c # u" v] by simp
    qed
    ultimately show "?A \<and> ?B" ..
  next
    assume ab: "?A \<and> ?B"
    show ?L
    proof (intro allI impI)
      fix u v assume uv: "c # s = u @ v" and ls: "line_start (front @ u)"
      show "match_contract v = None"
      proof (cases u)
        case Nil
        with uv ls ab show ?thesis by simp
      next
        case (Cons a u')
        with uv have "a = c" "s = u' @ v" by auto
        with ls Cons ab show ?thesis by simp
      qed
    qed
  qed
  moreover have "search_contract front (c # s) = None \<longleftrightarrow>
      (line_start front \<longrightarrow> match_contract (c # s) = None) \<and> search_contract (front @ [c]) s = None"
    by (auto split: option.splits)
  moreover have "(line_start front \<longrightarrow> match_contract (c # s) = None) \<Longrightarrow>
      search_contract (front @ [c]) s = None \<longleftrightarrow> ?B"
    using 2 by auto
  ultimately show ?case by blast
qed

lemma search_contract_Some:
  "search_contract front s = Some name \<longleftrightarrow>
   (\<exists>u v. s = u @ v \<and> line_start (front @ u) \<and> match_contract v = Some name \<and>
          (\<forall>u' v'. s = u' @ v' \<longrightarrow> length u' < length u \<longrightarrow> line_start (front @ u') \<longrightarrow>
                   match_contract v' = None))"
proof (induction front s arbitrary: name rule: search_contract.induct)
  case (1 front)
  show ?case by simp
next
  case (2 front c s)
  show ?case
  proof (cases "line_start front \<and> match_contract (c # s) \<noteq> None")
    case True
    then obtain n where n: "match_contract (c # s) = Some n" and ls: "line_start front" by auto
    have l: "search_contract front (c # s) = Some n" using n ls by simp
    show ?thesis
    proof
      assume "search_contract front (c # s) = Some name"
      with l have "n = name" by simp
      with n ls show "\<exists>u v. c # s = u @ v \<and> line_start (front @ u) \<and> match_contract v = Some name \<and>
          (\<forall>u' v'. c # s = u' @ v' \<longrightarrow> length u' < length u \<longrightarrow> line_start (front @ u') \<longrightarrow>
                   match_contract v' = None)"
        by (intro exI[of _ "[]"] exI[of _ "c # s"]) simp
    next
      assume "\<exists>u v. c # s = u @ v \<and> line_start (front @ u) \<and> match_contract v = Some name \<and>
          (\<forall>u' v'. c # s = u' @ v' \<longrightarrow> length u' < length u \<longrightarrow> line_start (front @ u') \<longrightarrow>
                   match_contract v' = None)"
      then obtain u v where uv: "c # s = u @ v" "match_contract v = Some name"
        and least: "\<forall>u' v'. c # s = u' @ v' \<longrightarrow> length u' < length u \<longrightarrow> line_start (front @ u') \<longrightarrow>
                   match_contract v' = None" by blast
      have "u = []"
      proof (rule ccontr)
        assume "u \<noteq> []"
        then have "match_contract (c # s) = None"
          using least[rule_format, of "[]" "c # s"] ls by simp
        with n show False by simp
      qed
      with uv n l show "search_contract front (c # s) = Some name" by simp
    qed
  next
    case False
    then have none: "(if line_start front then match_contract (c # s) else None) = None"
      by auto
    then have step: "search_contract front (c # s) = search_contract (front @ [c]) s"
      by simp
    note IH = "2.IH"[OF none]
    have here: "line_start front \<longrightarrow> match_contract (c # s) = None" using False by auto
    show ?thesis
    proof
      assume "search_contract front (c # s) = Some name"
      then have "search_contract (front @ [c]) s = Some name" using step by simp
      then obtain u v where uv: "s = u @ v" "line_start ((front @ [c]) @ u)"
        "match_contract v = Some name"
        and least: "\<forall>u' v'. s = u' @ v' \<longrightarrow> length u' < length u \<longrightarrow>
                      line_start ((front @ [c]) @ u') \<longrightarrow> match_contract v' = None"
        using IH[of name] by auto
      have "\<forall>u' v'. c # s = u' @ v' \<longrightarrow> length u' < length (c # u) \<longrightarrow> line_start (front @ u') \<longrightarrow>
                   match_contract v' = None"
      proof (intro allI impI)
        fix u' v' assume a: "c # s = u' @ v'" "length u' < length (c # u)" "line_start (front @ u')"
        show "match_contract v' = None"
        proof (cases u')
          case Nil
          with a here show ?thesis by simp
        next
          case (Cons x u'')
          with a have "x = c" "s = u'' @ v'" "length u'' < length u" by auto
          with a(3) Cons least show ?thesis by simp
        qed
      qed
      with uv show "\<exists>u v. c # s = u @ v \<and> line_start (front @ u) \<and> match_contract v = Some name \<and>
          (\<forall>u' v'. c # s = u' @ v' \<longrightarrow> length u' < length u \<longrightarrow> line_start (front @ u') \<longrightarrow>
                   match_contract v' = None)"
        by (intro exI[of _ "c # u"] exI[of _ v]) simp
    next
      assume "\<exists>u v. c # s = u @ v \<and> line_start (front @ u) \<and> match_contract v = Some name \<and>
          (\<forall>u' v'. c # s = u' @ v' \<longrightarrow> length u' < length u \<longrightarrow> line_start (front @ u') \<longrightarrow>
                   match_contract v' = None)"
      then obtain u v where uv: "c # s = u @ v" "line_start (front @ u)" "match_contract v = Some name"
        and least: "\<forall>u' v'. c # s = u' @ v' \<longrightarrow> length u' < length u \<longrightarrow> line_start (front @ u') \<longrightarrow>
                   match_contract v' = None" by blast
      have "u \<noteq> []" using uv here by auto
      then obtain u1 where u: "u = c # u1" "s = u1 @ v" using uv(1) by (cases u) auto
      have "\<forall>u' v'. s = u' @ v' \<longrightarrow> length u' < length u1 \<longrightarrow>
                      line_start ((front @ [c]) @ u') \<longrightarrow> match_contract v' = None"
      proof (intro allI impI)
        fix u' v' assume a: "s = u' @ v'" "length u' < length u1" "line_start ((front @ [c]) @ u')"
        then show "match_contract v' = None"
          using least[rule_format, of "c # u'" v'] u by simp
      qed
      with u uv have "search_contract (front @ [c]) s = Some name"
        unfolding IH[of name] by auto
      with step show "search_contract front (c # s) = Some name" by simp
    qed
  qed
qed

section \<open>create-fhevm-example: what a run leaves\<close>

lemma writeFileSync_child:
  assumes d: "lookup fs p = Some (Dir ds)" and nd: "\<not> isDirectory fs (p @ [c])"
  shows "\<exists>fs'. writeFileSync fs (p @ [c]) s = Inr fs' \<and>
               lookup fs' p = Some (Dir (AList.update c (File s) ds)) \<and>
               (\<forall>q. diverge q (p @ [c]) \<longrightarrow> lookup fs' q = lookup fs q)"
proof -
  obtain fs' where st: "store fs p (Dir (AList.update c (File s) ds)) = Some fs'"
    using store_existing[OF d] by blast
  then have st': "store fs (p @ [c]) (File s) = Some fs'"
    by (simp add: store_child[OF d])
  have "lookup fs' p = Some (Dir (AList.update c (File s) ds))"
    using lookup_store_same[OF st, of "[]"] by simp
  moreover have "lookup fs' q = lookup fs q" if "diverge q (p @ [c])" for q
    using lookup_store_frame[OF st' that] .
  ultimately show ?thesis using st' nd by (simp add: writeFileSync_def)
qed

lemma lookup_EXAMPLES_MAP:
  "map_of EXAMPLES_MAP k = Some ex \<Longrightarrow>
   k = ''artifact-auction'' \<and> contract ex = [''contracts'', ''ArtifactAuction.sol''] \<and>
   test ex = [''test'', ''ArtifactAuction.ts'']"
  by (auto simp: EXAMPLES_MAP_def split: if_splits)

text \<open>The run up to the end of the copy.\<close>

lemma createExample_copied:
  assumes key: "map_of EXAMPLES_MAP exampleName = Some example"
    and contract: "lookup fs (rootDir @ contract example) = Some (File source)"
    and test: "existsSync fs (rootDir @ test example)"
    and fresh: "\<not> existsSync fs outputDir"
    and outside: "diverge rootDir outputDir"
    and creatable: "creatable fs outputDir"
    and template: "lookup fs rootDir = Some (Dir es)"
    and fuel: "size (Dir es) < fuel"
  shows "\<exists>fs1. copyDirectoryRecursive fuel [''scripts''] fs rootDir outputDir = Some (None, fs1) \<and>
           lookup fs1 outputDir = Some (template_copy [''scripts''] (Dir es)) \<and>
           (\<forall>q. diverge q outputDir \<longrightarrow> lookup fs1 q = lookup fs q) \<and>
           createExample fuel parse stringify fs rootDir exampleName outputDir =
             (case search_contract [] source of
                None \<Rightarrow> Some (Some ParseError, fs1)
              | Some contractName \<Rightarrow>
                 (case updatePackageJson parse stringify fs1 outputDir exampleName (description example) of
                    (Some e, fs2) \<Rightarrow> Some (Some e, fs2)
                  | (None, fs2) \<Rightarrow>
                     (case writeFileSync fs2 (outputDir @ [''README.md''])
                             (generateReadme exampleName (description example) contractName) of
                        Inl e \<Rightarrow> Some (Some e, fs2)
                      | Inr fs3 \<Rightarrow> Some (None, fs3))))"
proof -
  from fresh have none: "lookup fs outputDir = None" by (simp add: existsSync_def)
  from copy_fresh[OF template fuel outside none creatable] obtain fs1 where
    cp: "copyDirectoryRecursive fuel [''scripts''] fs rootDir outputDir = Some (None, fs1)" and
    out: "lookup fs1 outputDir = Some (template_copy [''scripts''] (Dir es))" and
    frame: "\<forall>q. diverge q outputDir \<longrightarrow> lookup fs1 q = lookup fs q" by blast
  have "diverge (rootDir @ contract example) outputDir"
    using outside by (rule diverge_append)
  with frame contract have "lookup fs1 (rootDir @ contract example) = Some (File source)" by simp
  then have name: "getContractName fs1 (rootDir @ contract example) = Inr (search_contract [] source)"
    by (simp add: getContractName_def readFileSync_def)
  have "get_property EXAMPLES_MAP exampleName = Own example"
    using key by (simp add: get_property_def)
  then have "createExample fuel parse stringify fs rootDir exampleName outputDir =
             (case search_contract [] source of
                None \<Rightarrow> Some (Some ParseError, fs1)
              | Some contractName \<Rightarrow>
                 (case updatePackageJson parse stringify fs1 outputDir exampleName (description example) of
                    (Some e, fs2) \<Rightarrow> Some (Some e, fs2)
                  | (None, fs2) \<Rightarrow>
                     (case writeFileSync fs2 (outputDir @ [''README.md''])
                             (generateReadme exampleName (description example) contractName) of
                        Inl e \<Rightarrow> Some (Some e, fs2)
                      | Inr fs3 \<Rightarrow> Some (None, fs3))))"
    using contract test fresh cp name
    by (simp add: createExample_def existsSync_def)
  with cp out frame show ?thesis by blast
qed

lemma template_copy_keeps_file:
  assumes "lookup fs1 outputDir = Some (template_copy skip (Dir es))"
    and "lookup fs rootDir = Some (Dir es)"
    and "lookup fs (rootDir @ [c]) = Some (File s)" and "c \<notin> set skip"
  shows "lookup fs1 (outputDir @ [c]) = Some (File s)"
proof -
  from assms(2,3) have "map_of es c = Some (File s)" by (simp add: lookup_child)
  then have "lookup (template_copy skip (Dir es)) [c] = Some (File s)"
    using assms(4) by (simp only: lookup_template_copy_child) (simp add: kept_def)
  with assms(1) show ?thesis by (simp add: lookup_append)
qed

lemma template_copy_Dir: "template_copy skip n = Dir ds \<Longrightarrow> \<exists>es. n = Dir es"
  by (cases n) simp_all

lemma template_copy_no_new_dir:
  assumes "lookup fs1 outputDir = Some (template_copy skip (Dir es))"
    and "lookup fs rootDir = Some (Dir es)"
    and "\<not> isDirectory fs (rootDir @ [c])"
  shows "\<not> isDirectory fs1 (outputDir @ [c])"
proof -
  from assms(2,3) have "\<forall>ds. map_of es c \<noteq> Some (Dir ds)"
    by (auto simp: lookup_child isDirectory_def)
  then have "\<forall>ds. lookup (template_copy skip (Dir es)) [c] \<noteq> Some (Dir ds)"
    by (simp only: lookup_template_copy_child)
       (auto split: option.splits dest: template_copy_Dir)
  with assms(1) show ?thesis
    by (auto simp: lookup_append isDirectory_def split: option.splits node.splits)
qed

lemma template_copy_absent:
  assumes "lookup fs1 outputDir = Some (template_copy skip (Dir es))"
    and "lookup fs rootDir = Some (Dir es)"
    and "lookup fs (rootDir @ [c]) = None"
  shows "lookup fs1 (outputDir @ [c]) = None"
proof -
  from assms(2,3) have "map_of es c = None" by (simp add: lookup_child)
  then have "lookup (template_copy skip (Dir es)) [c] = None"
    by (simp only: lookup_template_copy_child) simp
  with assms(1) show ?thesis by (simp add: lookup_append)
qed

text \<open>The rest of a run whose copy went well and whose contract declares a name.\<close>

lemma createExample_finish:
  assumes out: "lookup fs1 outputDir = Some (Dir ds)"
    and manifest: "lookup fs1 (outputDir @ [''package.json'']) = Some (File pkg)"
    and parsed: "parse pkg = Some (JObject kv)"
    and readme: "\<not> isDirectory fs1 (outputDir @ [''README.md''])"
  shows "\<exists>fs2 fs3.
           updatePackageJson parse stringify fs1 outputDir exampleName descr = (None, fs2) \<and>
           writeFileSync fs2 (outputDir @ [''README.md'']) r = Inr fs3 \<and>
           isDirectory fs3 outputDir \<and>
           lookup fs3 (outputDir @ [''README.md'']) = Some (File r) \<and>
           lookup fs3 (outputDir @ [''package.json'']) =
             Some (File (stringify (JObject
                (AList.update ''description'' (JString descr)
                   (AList.update ''name'' (JString (''fhevm-'' @ exampleName)) kv)))))"
proof -
  let ?text = "stringify (JObject (AList.update ''description'' (JString descr)
                   (AList.update ''name'' (JString (''fhevm-'' @ exampleName)) kv)))"
  have nd: "\<not> isDirectory fs1 (outputDir @ [''package.json''])"
    using manifest by (simp add: isDirectory_def)
  from writeFileSync_child[OF out nd, of ?text] obtain fs2 where
    w2: "writeFileSync fs1 (outputDir @ [''package.json'']) ?text = Inr fs2" and
    out2: "lookup fs2 outputDir = Some (Dir (AList.update ''package.json'' (File ?text) ds))" and
    frame2: "\<forall>q. diverge q (outputDir @ [''package.json'']) \<longrightarrow> lookup fs2 q = lookup fs1 q"
    by blast
  have upd: "updatePackageJson parse stringify fs1 outputDir exampleName descr = (None, fs2)"
    using manifest parsed w2 by (simp add: updatePackageJson_def readFileSync_def)
  have dv: "diverge (outputDir @ [''README.md'']) (outputDir @ [''package.json''])"
    by (rule diverge_snoc) simp
  with frame2 readme have nd2: "\<not> isDirectory fs2 (outputDir @ [''README.md''])"
    by (simp add: isDirectory_def)
  from writeFileSync_child[OF out2 nd2, of r] obtain fs3 where
    w3: "writeFileSync fs2 (outputDir @ [''README.md'']) r = Inr fs3" and
    out3: "lookup fs3 outputDir = Some (Dir (AList.update ''README.md'' (File r)
              (AList.update ''package.json'' (File ?text) ds)))" and
    frame3: "\<forall>q. diverge q (outputDir @ [''README.md'']) \<longrightarrow> lookup fs3 q = lookup fs2 q"
    by blast
  have "lookup fs3 (outputDir @ [''package.json'']) = lookup fs2 (outputDir @ [''package.json''])"
    using frame3 diverge_sym[OF dv] by simp
  also have "\<dots> = Some (File ?text)"
    using out2 by (simp add: lookup_child map_of_update)
  finally have m3: "lookup fs3 (outputDir @ [''package.json'']) = Some (File ?text)" .
  have r3: "lookup fs3 (outputDir @ [''README.md'']) = Some (File r)"
    using out3 by (simp add: lookup_child map_of_update)
  have "isDirectory fs3 outputDir" using out3 by (simp add: isDirectory_def)
  with upd w3 m3 r3 show ?thesis by blast
qed

lemma createExample_unknown_key:
  "map_of EXAMPLES_MAP exampleName = None \<Longrightarrow> exampleName \<notin> set object_prototype_keys \<Longrightarrow>
   createExample fuel parse stringify fs rootDir exampleName outputDir = Some (Some NotFound, fs)"
  by (simp add: createExample_def get_property_def)

text \<open>
  Claim C4 at the key \<^verbatim>\<open>constructor\<close>, which the registry does not hold: the lookup
  finds the inherited property, the check for an unknown example passes, and the run ends
  with the \<^verbatim>\<open>TypeError\<close> of \<^verbatim>\<open>path.join\<close>, not with NotFound. Nothing is written.
\<close>

theorem createExample_inherited_key:
  "map_of EXAMPLES_MAP ''constructor'' = None \<and>
   createExample fuel parse stringify fs rootDir ''constructor'' outputDir = Some (Some TypeError, fs)"
  by (simp add: createExample_def get_property_def EXAMPLES_MAP_def object_prototype_keys_def)

text \<open>
  A run whose destination lies beside the template root. For a key of the example registry
  whose contract is a regular file that declares a contract and whose test file exists, a
  destination that does not exist and can be created, a template manifest that parses to
  an object and a template \<^verbatim>\<open>README.md\<close> that is not a directory: with more fuel than
  the size of the template tree, the run ends well, the destination is a directory, and
  its \<^verbatim>\<open>package.json\<close> is the serialisation of an object whose \<^verbatim>\<open>name\<close> is
  \<^verbatim>\<open>fhevm-\<close> followed by the key and whose \<^verbatim>\<open>description\<close> is the registry's.
\<close>

theorem createExample_manifest:
  assumes key: "map_of EXAMPLES_MAP exampleName = Some example"
    and contract: "lookup fs (rootDir @ contract example) = Some (File source)"
    and declared: "search_contract [] source = Some contractName"
    and test: "existsSync fs (rootDir @ test example)"
    and fresh: "\<not> existsSync fs outputDir"
    and outside: "diverge rootDir outputDir"
    and creatable: "creatable fs outputDir"
    and template: "lookup fs rootDir = Some (Dir es)"
    and fuel: "size (Dir es) < fuel"
    and manifest: "lookup fs (rootDir @ [''package.json'']) = Some (File pkg)"
    and parsed: "parse pkg = Some (JObject kv)"
    and readme: "\<not> isDirectory fs (rootDir @ [''README.md''])"
  shows "\<exists>fs' kv'.
           createExample fuel parse stringify fs rootDir exampleName outputDir = Some (None, fs') \<and>
           isDirectory fs' outputDir \<and>
           readFileSync fs' (outputDir @ [''package.json'']) = Inr (stringify (JObject kv')) \<and>
           map_of kv' ''name'' = Some (JString (''fhevm-'' @ exampleName)) \<and>
           map_of kv' ''description'' = Some (JString (description example))"
proof -
  from createExample_copied[OF key contract test fresh outside creatable template fuel,
      of parse stringify]
  obtain fs1 where
    out: "lookup fs1 outputDir = Some (template_copy [''scripts''] (Dir es))" and
    run: "createExample fuel parse stringify fs rootDir exampleName outputDir =
           (case updatePackageJson parse stringify fs1 outputDir exampleName (description example) of
              (Some e, fs2) \<Rightarrow> Some (Some e, fs2)
            | (None, fs2) \<Rightarrow>
               (case writeFileSync fs2 (outputDir @ [''README.md''])
                       (generateReadme exampleName (description example) contractName) of
                  Inl e \<Rightarrow> Some (Some e, fs2)
                | Inr fs3 \<Rightarrow> Some (None, fs3)))"
    using declared by auto
  obtain ds where out': "lookup fs1 outputDir = Some (Dir ds)"
    using out by simp
  have m1: "lookup fs1 (outputDir @ [''package.json'']) = Some (File pkg)"
    by (rule template_copy_keeps_file[OF out template manifest]) simp
  have r1: "\<not> isDirectory fs1 (outputDir @ [''README.md''])"
    by (rule template_copy_no_new_dir[OF out template readme])
  let ?kv = "AList.update ''description'' (JString (description example))
               (AList.update ''name'' (JString (''fhevm-'' @ exampleName)) kv)"
  from createExample_finish[where parse = parse and stringify = stringify
      and exampleName = exampleName and descr = "description example"
      and r = "generateReadme exampleName (description example) contractName",
      OF out' m1 parsed r1]
  obtain fs2 fs3 where
    "updatePackageJson parse stringify fs1 outputDir exampleName (description example) = (None, fs2)"
    "writeFileSync fs2 (outputDir @ [''README.md''])
        (generateReadme exampleName (description example) contractName) = Inr fs3"
    "isDirectory fs3 outputDir"
    "lookup fs3 (outputDir @ [''package.json'']) = Some (File (stringify (JObject ?kv)))"
    by blast
  moreover have "map_of ?kv ''name'' = Some (JString (''fhevm-'' @ exampleName))"
    "map_of ?kv ''description'' = Some (JString (description example))"
    by (simp_all add: map_of_update)
  ultimately show ?thesis using run
    by (auto simp: readFileSync_def)
qed

theorem createExample_manifest_witness:
  "\<exists>fs' kv'.
     createExample 100 demo_parse (stringify_at 0) (demo_repo ''contract ArtifactAuction is SepoliaConfig {'')
        [''repo''] ''artifact-auction'' [''out''] = Some (None, fs') \<and>
     isDirectory fs' [''out''] \<and>
     readFileSync fs' ([''out''] @ [''package.json'']) = Inr (stringify_at 0 (JObject kv')) \<and>
     map_of kv' ''name'' = Some (JString (''fhevm-'' @ ''artifact-auction'')) \<and>
     map_of kv' ''description'' =
       Some (JString ''Confidential artifact auction with encrypted bids and authentication'')"
proof -
  let ?ex = "\<lparr>contract = [''contracts'', ''ArtifactAuction.sol''],
        test = [''test'', ''ArtifactAuction.ts''],
        description = ''Confidential artifact auction with encrypted bids and authentication'',
        category = ''advanced''\<rparr>"
  have "\<exists>fs' kv'.
     createExample 100 demo_parse (stringify_at 0) (demo_repo ''contract ArtifactAuction is SepoliaConfig {'')
        [''repo''] ''artifact-auction'' [''out''] = Some (None, fs') \<and>
     isDirectory fs' [''out''] \<and>
     readFileSync fs' ([''out''] @ [''package.json'']) = Inr (stringify_at 0 (JObject kv')) \<and>
     map_of kv' ''name'' = Some (JString (''fhevm-'' @ ''artifact-auction'')) \<and>
     map_of kv' ''description'' = Some (JString (description ?ex))"
  proof (rule createExample_manifest[where example = "?ex"
        and source = "''contract ArtifactAuction is SepoliaConfig {''"
        and contractName = "''ArtifactAuction''" and pkg = "''{}''" and kv = "[]"
        and es = "[(''contracts'', Dir [(''ArtifactAuction.sol'', File ''contract ArtifactAuction is SepoliaConfig {'')]),
        (''test'', Dir [(''ArtifactAuction.ts'', File ''describe'')]),
        (''scripts'', Dir [(''create-fhevm-example.ts'', File ''main();'')]),
        (''node_modules'', Dir [(''chai'', Dir [])]),
        (''package.json'', File ''{}''),
        (''README.md'', File ''# Hub'')]"])
    show "search_contract [] ''contract ArtifactAuction is SepoliaConfig {'' = Some ''ArtifactAuction''"
      by (simp add: match_contract_def text_defs is_word_def Let_def)
  qed (simp_all add: EXAMPLES_MAP_def demo_repo_def demo_parse_def fs_defs)
  then show ?thesis by simp
qed

lemma sublist_concat: "x \<in> set xs \<Longrightarrow> sublist x (concat xs)"
proof (induction xs)
  case (Cons y ys)
  show ?case
  proof (cases "x = y")
    case True
    have "sublist y ([] @ y @ concat ys)" by (rule sublist_appendI)
    with True show ?thesis by simp
  next
    case False
    with Cons obtain ps ss where "concat ys = ps @ x @ ss" by (auto simp: sublist_def)
    then have "concat (y # ys) = (y @ ps) @ x @ ss" by simp
    then show ?thesis unfolding sublist_def by blast
  qed
qed simp

lemma generateReadme_contains: "sublist contractName (generateReadme exampleName descr contractName)"
proof -
  let ?l = "''Main contract: `'' @ contractName @ ''` in `contracts/'' @ contractName @ ''.sol`'' @ ''\<newline>''"
  have "sublist contractName ?l" by (rule sublist_appendI)
  moreover have "sublist ?l (generateReadme exampleName descr contractName)"
    unfolding generateReadme_def unlines_def by (rule sublist_concat) simp
  ultimately show ?thesis by (rule sublist_order.order_trans)
qed

text \<open>The search in the words of the pattern.\<close>

lemma no_declaration:
  "search_contract [] source = None \<longleftrightarrow>
   \<not> (\<exists>u v name. source = u @ v \<and> line_start u \<and> declares v name)"
proof -
  have "match_contract v = None \<longleftrightarrow> \<not> (\<exists>name. declares v name)" for v
    using match_contract_iff[of v] by (cases "match_contract v") auto
  then show ?thesis unfolding search_contract_None by auto
qed

lemma first_declaration:
  "search_contract [] source = Some name \<longleftrightarrow>
   (\<exists>u v. source = u @ v \<and> line_start u \<and> declares v name \<and>
      \<not> (\<exists>u' v' name'. source = u' @ v' \<and> length u' < length u \<and> line_start u' \<and>
                        declares v' name'))"
proof -
  have n: "match_contract v = None \<longleftrightarrow> \<not> (\<exists>name. declares v name)" for v
    using match_contract_iff[of v] by (cases "match_contract v") auto
  have least: "(\<forall>u' v'. source = u' @ v' \<longrightarrow> length u' < length u \<longrightarrow> line_start ([] @ u') \<longrightarrow>
                   match_contract v' = None) \<longleftrightarrow>
      \<not> (\<exists>u' v' name'. source = u' @ v' \<and> length u' < length u \<and> line_start u' \<and>
                        declares v' name')" for u
    unfolding n by auto
  show ?thesis unfolding search_contract_Some least match_contract_iff by simp
qed

lemma updatePackageJson_error:
  "updatePackageJson parse stringify fs outputDir exampleName descr = (Some e, fs') \<Longrightarrow>
   e \<noteq> ParseError"
  by (auto simp: updatePackageJson_def readFileSync_def writeFileSync_def Let_def
        split: sum.splits option.splits json.splits node.splits if_splits)

lemma writeFileSync_error: "writeFileSync fs p s = Inl e \<Longrightarrow> e = FsError"
  by (auto simp: writeFileSync_def split: if_splits option.splits)

lemmas contract_regex_defs = match_contract_def text_defs is_word_def Let_def

text \<open>
  Claim C7. The name the README step uses is read from the contract source by the pattern
  for a contract declaration: a line start, white space, \<^verbatim>\<open>contract\<close>, white space, a
  name, and then white space, \<^verbatim>\<open>is\<close> and white space, or an opening brace. For a run
  that gets as far as the check (a registered key, both sources there, a fresh
  destination outside the template root, fuel for the copy): it ends with ParseError
  exactly when no line start of the source has a declaration behind it; and when one has,
  and the manifest step can go through, it ends well, and the README at the destination
  is the template text for the name declared at the first such line start, which
  contains that name.
\<close>

theorem createExample_contract_name:
  assumes key: "map_of EXAMPLES_MAP exampleName = Some example"
    and contract: "lookup fs (rootDir @ contract example) = Some (File source)"
    and test: "existsSync fs (rootDir @ test example)"
    and fresh: "\<not> existsSync fs outputDir"
    and outside: "diverge rootDir outputDir"
    and creatable: "creatable fs outputDir"
    and template: "lookup fs rootDir = Some (Dir es)"
    and fuel: "size (Dir es) < fuel"
  shows "((\<exists>fs1. createExample fuel parse stringify fs rootDir exampleName outputDir =
                   Some (Some ParseError, fs1)) \<longleftrightarrow>
          \<not> (\<exists>u v name. source = u @ v \<and> line_start u \<and> declares v name)) \<and>
         (\<forall>u v name pkg kv.
            source = u @ v \<longrightarrow> line_start u \<longrightarrow> declares v name \<longrightarrow>
            \<not> (\<exists>u' v' name'. source = u' @ v' \<and> length u' < length u \<and> line_start u' \<and>
                              declares v' name') \<longrightarrow>
            lookup fs (rootDir @ [''package.json'']) = Some (File pkg) \<longrightarrow>
            parse pkg = Some (JObject kv) \<longrightarrow>
            \<not> isDirectory fs (rootDir @ [''README.md'']) \<longrightarrow>
            (\<exists>fs'. createExample fuel parse stringify fs rootDir exampleName outputDir = Some (None, fs') \<and>
                   readFileSync fs' (outputDir @ [''README.md'']) =
                     Inr (generateReadme exampleName (description example) name) \<and>
                   sublist name (generateReadme exampleName (description example) name)))"
proof -
  from createExample_copied[OF key contract test fresh outside creatable template fuel,
      of parse stringify]
  obtain fs1 where
    out: "lookup fs1 outputDir = Some (template_copy [''scripts''] (Dir es))" and
    run: "createExample fuel parse stringify fs rootDir exampleName outputDir =
             (case search_contract [] source of
                None \<Rightarrow> Some (Some ParseError, fs1)
              | Some contractName \<Rightarrow>
                 (case updatePackageJson parse stringify fs1 outputDir exampleName (description example) of
                    (Some e, fs2) \<Rightarrow> Some (Some e, fs2)
                  | (None, fs2) \<Rightarrow>
                     (case writeFileSync fs2 (outputDir @ [''README.md''])
                             (generateReadme exampleName (description example) contractName) of
                        Inl e \<Rightarrow> Some (Some e, fs2)
                      | Inr fs3 \<Rightarrow> Some (None, fs3))))"
    by blast
  have "(\<exists>fs1. createExample fuel parse stringify fs rootDir exampleName outputDir =
                   Some (Some ParseError, fs1)) \<longleftrightarrow> search_contract [] source = None"
  proof (cases "search_contract [] source")
    case None
    with run show ?thesis by simp
  next
    case (Some contractName)
    have "createExample fuel parse stringify fs rootDir exampleName outputDir \<noteq>
            Some (Some ParseError, fs')" for fs'
      unfolding run Some
      by (auto split: prod.splits option.splits sum.splits
            dest: updatePackageJson_error writeFileSync_error)
    with Some show ?thesis by simp
  qed
  then have none: "(\<exists>fs1. createExample fuel parse stringify fs rootDir exampleName outputDir =
                   Some (Some ParseError, fs1)) \<longleftrightarrow>
          \<not> (\<exists>u v name. source = u @ v \<and> line_start u \<and> declares v name)"
    unfolding no_declaration .
  have some: "\<exists>fs'. createExample fuel parse stringify fs rootDir exampleName outputDir = Some (None, fs') \<and>
                   readFileSync fs' (outputDir @ [''README.md'']) =
                     Inr (generateReadme exampleName (description example) name) \<and>
                   sublist name (generateReadme exampleName (description example) name)"
    if decl: "source = u @ v" "line_start u" "declares v name"
      "\<not> (\<exists>u' v' name'. source = u' @ v' \<and> length u' < length u \<and> line_start u' \<and>
                              declares v' name')"
      and manifest: "lookup fs (rootDir @ [''package.json'']) = Some (File pkg)"
      and parsed: "parse pkg = Some (JObject kv)"
      and readme: "\<not> isDirectory fs (rootDir @ [''README.md''])"
    for u v name pkg kv
  proof -
    have declared: "search_contract [] source = Some name"
      unfolding first_declaration using decl by blast
    obtain ds where out': "lookup fs1 outputDir = Some (Dir ds)"
      using out by simp
    have m1: "lookup fs1 (outputDir @ [''package.json'']) = Some (File pkg)"
      by (rule template_copy_keeps_file[OF out template manifest]) simp
    have r1: "\<not> isDirectory fs1 (outputDir @ [''README.md''])"
      by (rule template_copy_no_new_dir[OF out template readme])
    from createExample_finish[where parse = parse and stringify = stringify
        and exampleName = exampleName and descr = "description example"
        and r = "generateReadme exampleName (description example) name",
        OF out' m1 parsed r1]
    obtain fs2 fs3 where
      "updatePackageJson parse stringify fs1 outputDir exampleName (description example) = (None, fs2)"
      "writeFileSync fs2 (outputDir @ [''README.md''])
          (generateReadme exampleName (description example) name) = Inr fs3"
      "lookup fs3 (outputDir @ [''README.md'']) =
          Some (File (generateReadme exampleName (description example) name))"
      by blast
    then show ?thesis
      using run declared generateReadme_contains by (auto simp: readFileSync_def)
  qed
  from none some show ?thesis by blast
qed

theorem createExample_contract_name_witness:
  "(\<exists>fs1. createExample 100 demo_parse (stringify_at 0)
             (demo_repo ''// SPDX-License-Identifier: MIT\<newline>abstract contract Base {'')
             [''repo''] ''artifact-auction'' [''out''] = Some (Some ParseError, fs1)) \<and>
   (\<exists>fs'. createExample 100 demo_parse (stringify_at 0)
             (demo_repo ([CHR 0xEF, CHR 0xBB, CHR 0xBF] @
                ''// SPDX-License-Identifier: MIT\<newline>pragma solidity ^0.8.24;\<newline>\<newline>contract ArtifactAuction is SepoliaConfig {''))
             [''repo''] ''artifact-auction'' [''out''] = Some (None, fs') \<and>
          readFileSync fs' [''out'', ''README.md''] =
            Inr (generateReadme ''artifact-auction''
                  ''Confidential artifact auction with encrypted bids and authentication''
                  ''ArtifactAuction''))"
proof -
  let ?ex = "\<lparr>contract = [''contracts'', ''ArtifactAuction.sol''],
        test = [''test'', ''ArtifactAuction.ts''],
        description = ''Confidential artifact auction with encrypted bids and authentication'',
        category = ''advanced''\<rparr>"
  let ?es = "\<lambda>source. [(''contracts'', Dir [(''ArtifactAuction.sol'', File source)]),
        (''test'', Dir [(''ArtifactAuction.ts'', File ''describe'')]),
        (''scripts'', Dir [(''create-fhevm-example.ts'', File ''main();'')]),
        (''node_modules'', Dir [(''chai'', Dir [])]),
        (''package.json'', File ''{}''),
        (''README.md'', File ''# Hub'')]"
  let ?none = "''// SPDX-License-Identifier: MIT\<newline>abstract contract Base {''"
  let ?some = "[CHR 0xEF, CHR 0xBB, CHR 0xBF] @
                ''// SPDX-License-Identifier: MIT\<newline>pragma solidity ^0.8.24;\<newline>\<newline>contract ArtifactAuction is SepoliaConfig {''"
  have "search_contract [] ?none = None"
    by (simp add: contract_regex_defs)
  then have no: "\<not> (\<exists>u v name. ?none = u @ v \<and> line_start u \<and> declares v name)"
    unfolding no_declaration .
  have "search_contract [] ?some = Some ''ArtifactAuction''"
    by (simp add: contract_regex_defs)
  then obtain u v where yes: "?some = u @ v" "line_start u" "declares v ''ArtifactAuction''"
      "\<not> (\<exists>u' v' name'. ?some = u' @ v' \<and> length u' < length u \<and> line_start u' \<and>
                        declares v' name')"
    unfolding first_declaration by blast
  have T1: "lookup (demo_repo source) ([''repo''] @ contract ?ex) = Some (File source)"
    "existsSync (demo_repo source) ([''repo''] @ test ?ex)"
    "\<not> existsSync (demo_repo source) [''out'']"
    "creatable (demo_repo source) [''out'']"
    "lookup (demo_repo source) [''repo''] = Some (Dir (?es source))"
    "lookup (demo_repo source) ([''repo''] @ [''package.json'']) = Some (File ''{}'')"
    "\<not> isDirectory (demo_repo source) ([''repo''] @ [''README.md''])" for source
    by (simp_all add: demo_repo_def fs_defs)
  have T2: "map_of EXAMPLES_MAP ''artifact-auction'' = Some ?ex" "diverge [''repo''] [''out'']"
    "size (Dir (?es source)) < 100" "demo_parse ''{}'' = Some (JObject [])" for source
    by (simp_all add: EXAMPLES_MAP_def demo_parse_def fs_defs)
  note T = createExample_contract_name[where parse = demo_parse and stringify = "stringify_at 0",
      OF T2(1) T1(1) T1(2) T1(3) T2(2) T1(4) T1(5) T2(3)]
  have a: "\<exists>fs1. createExample 100 demo_parse (stringify_at 0) (demo_repo ?none)
             [''repo''] ''artifact-auction'' [''out''] = Some (Some ParseError, fs1)"
    using T[of ?none, THEN conjunct1] no by blast
  have b: "\<exists>fs'. createExample 100 demo_parse (stringify_at 0) (demo_repo ?some)
             [''repo''] ''artifact-auction'' [''out''] = Some (None, fs') \<and>
          readFileSync fs' [''out'', ''README.md''] =
            Inr (generateReadme ''artifact-auction''
                  ''Confidential artifact auction with encrypted bids and authentication''
                  ''ArtifactAuction'')"
    using T[of ?some, THEN conjunct2, rule_format, OF yes T1(6) T2(4) T1(7)] by auto
  from a b show ?thesis by blast
qed

text \<open>
  Claim C8. When the run gets as far as the contract-name check and no line start of the
  contract source has a contract declaration behind it, the run ends with ParseError and
  leaves the file system as it was right after the copy: the destination holds the whole
  copy of the template tree, everything beside the destination is as before, the
  destination's manifest is the template's text, and its \<^verbatim>\<open>README.md\<close> is the
  template's, if the template has one.
\<close>

theorem createExample_parse_error_after_copy:
  assumes key: "map_of EXAMPLES_MAP exampleName = Some example"
    and contract: "lookup fs (rootDir @ contract example) = Some (File source)"
    and undeclared: "\<not> (\<exists>u v name. source = u @ v \<and> line_start u \<and> declares v name)"
    and test: "existsSync fs (rootDir @ test example)"
    and fresh: "\<not> existsSync fs outputDir"
    and outside: "diverge rootDir outputDir"
    and creatable: "creatable fs outputDir"
    and template: "lookup fs rootDir = Some (Dir es)"
    and fuel: "size (Dir es) < fuel"
  shows "\<exists>fs1. createExample fuel parse stringify fs rootDir exampleName outputDir =
                 Some (Some ParseError, fs1) \<and>
               copyDirectoryRecursive fuel [''scripts''] fs rootDir outputDir = Some (None, fs1) \<and>
               lookup fs1 outputDir = Some (template_copy [''scripts''] (Dir es)) \<and>
               (\<forall>q. diverge q outputDir \<longrightarrow> lookup fs1 q = lookup fs q) \<and>
               (\<forall>pkg. lookup fs (rootDir @ [''package.json'']) = Some (File pkg) \<longrightarrow>
                      lookup fs1 (outputDir @ [''package.json'']) = Some (File pkg)) \<and>
               (\<forall>r. lookup fs (rootDir @ [''README.md'']) = Some (File r) \<longrightarrow>
                    lookup fs1 (outputDir @ [''README.md'']) = Some (File r)) \<and>
               (lookup fs (rootDir @ [''README.md'']) = None \<longrightarrow>
                    lookup fs1 (outputDir @ [''README.md'']) = None)"
proof -
  have none: "search_contract [] source = None" using undeclared unfolding no_declaration .
  from createExample_copied[OF key contract test fresh outside creatable template fuel,
      of parse stringify]
  obtain fs1 where
    cp: "copyDirectoryRecursive fuel [''scripts''] fs rootDir outputDir = Some (None, fs1)" and
    out: "lookup fs1 outputDir = Some (template_copy [''scripts''] (Dir es))" and
    frame: "\<forall>q. diverge q outputDir \<longrightarrow> lookup fs1 q = lookup fs q" and
    run: "createExample fuel parse stringify fs rootDir exampleName outputDir =
            Some (Some ParseError, fs1)"
    using none by auto
  have a: "\<forall>pkg. lookup fs (rootDir @ [''package.json'']) = Some (File pkg) \<longrightarrow>
                      lookup fs1 (outputDir @ [''package.json'']) = Some (File pkg)"
    using template_copy_keeps_file[OF out template, of "''package.json''"] by simp
  have b: "\<forall>r. lookup fs (rootDir @ [''README.md'']) = Some (File r) \<longrightarrow>
                    lookup fs1 (outputDir @ [''README.md'']) = Some (File r)"
    using template_copy_keeps_file[OF out template, of "''README.md''"] by simp
  have c: "lookup fs (rootDir @ [''README.md'']) = None \<longrightarrow>
                    lookup fs1 (outputDir @ [''README.md'']) = None"
    using template_copy_absent[OF out template] by simp
  show ?thesis
    by (rule exI[of _ fs1]) (intro conjI run cp out frame a b c)
qed

theorem createExample_parse_error_after_copy_witness:
  "\<exists>fs1. createExample 100 demo_parse (stringify_at 0)
           (demo_repo ''// SPDX-License-Identifier: MIT\<newline>abstract contract Base {'')
           [''repo''] ''artifact-auction'' [''out''] = Some (Some ParseError, fs1) \<and>
         lookup fs1 [''out''] =
           Some (Dir [(''contracts'', Dir [(''ArtifactAuction.sol'',
                         File ''// SPDX-License-Identifier: MIT\<newline>abstract contract Base {'')]),
                      (''test'', Dir [(''ArtifactAuction.ts'', File ''describe'')]),
                      (''package.json'', File ''{}''),
                      (''README.md'', File ''# Hub'')]) \<and>
         lookup fs1 [''out'', ''package.json''] = Some (File ''{}'') \<and>
         lookup fs1 [''out'', ''README.md''] = Some (File ''# Hub'')"
proof -
  let ?ex = "\<lparr>contract = [''contracts'', ''ArtifactAuction.sol''],
        test = [''test'', ''ArtifactAuction.ts''],
        description = ''Confidential artifact auction with encrypted bids and authentication'',
        category = ''advanced''\<rparr>"
  let ?src = "''// SPDX-License-Identifier: MIT\<newline>abstract contract Base {''"
  let ?es = "[(''contracts'', Dir [(''ArtifactAuction.sol'', File ?src)]),
        (''test'', Dir [(''ArtifactAuction.ts'', File ''describe'')]),
        (''scripts'', Dir [(''create-fhevm-example.ts'', File ''main();'')]),
        (''node_modules'', Dir [(''chai'', Dir [])]),
        (''package.json'', File ''{}''),
        (''README.md'', File ''# Hub'')]"
  have "search_contract [] ?src = None"
    by (simp add: contract_regex_defs)
  then have no: "\<not> (\<exists>u v name. ?src = u @ v \<and> line_start u \<and> declares v name)"
    unfolding no_declaration .
  have T1: "lookup (demo_repo ?src) ([''repo''] @ contract ?ex) = Some (File ?src)"
    "existsSync (demo_repo ?src) ([''repo''] @ test ?ex)"
    "\<not> existsSync (demo_repo ?src) [''out'']"
    "creatable (demo_repo ?src) [''out'']"
    "lookup (demo_repo ?src) [''repo''] = Some (Dir ?es)"
    by (simp_all add: demo_repo_def fs_defs)
  have T2: "map_of EXAMPLES_MAP ''artifact-auction'' = Some ?ex" "diverge [''repo''] [''out'']"
    "size (Dir ?es) < 100"
    by (simp_all add: EXAMPLES_MAP_def fs_defs)
  have T3: "lookup (demo_repo ?src) ([''repo''] @ [''package.json'']) = Some (File ''{}'')"
    "lookup (demo_repo ?src) ([''repo''] @ [''README.md'']) = Some (File ''# Hub'')"
    by (simp_all add: demo_repo_def)
  from createExample_parse_error_after_copy[where parse = demo_parse and stringify = "stringify_at 0",
      OF T2(1) T1(1) no T1(2) T1(3) T2(2) T1(4) T1(5) T2(3)]
  obtain fs1 where
    "createExample 100 demo_parse (stringify_at 0) (demo_repo ?src)
           [''repo''] ''artifact-auction'' [''out''] = Some (Some ParseError, fs1)"
    "lookup fs1 [''out''] = Some (template_copy [''scripts''] (Dir ?es))"
    "lookup fs1 ([''out''] @ [''package.json'']) = Some (File ''{}'')"
    "lookup fs1 ([''out''] @ [''README.md'']) = Some (File ''# Hub'')"
    using T3 by blast
  moreover have "template_copy [''scripts''] (Dir ?es) =
     Dir [(''contracts'', Dir [(''ArtifactAuction.sol'', File ?src)]),
                      (''test'', Dir [(''ArtifactAuction.ts'', File ''describe'')]),
                      (''package.json'', File ''{}''),
                      (''README.md'', File ''# Hub'')]"
    by (simp add: kept_def excluded_dirs_def)
  ultimately show ?thesis by auto
qed

section \<open>Both generators: a destination that exists\<close>

text \<open>
  Claim C3 as stated fails for a key that is not in the registry: the key is looked up
  before the destination, so with an existing destination the run ends with NotFound, not
  with AlreadyExists.
\<close>

theorem createExample_existing_destination_counterexample:
  "existsSync (demo_repo ''contract A {'') [''repo''] \<and>
   createExample 100 demo_parse (stringify_at 0) (demo_repo ''contract A {'')
     [''repo''] ''nonexistent'' [''repo''] = Some (Some NotFound, demo_repo ''contract A {'')"
  by (simp add: createExample_def get_property_def EXAMPLES_MAP_def object_prototype_keys_def
        existsSync_def demo_repo_def)

text \<open>
  Claim C3, as the code has it. With a destination that exists, both generators end in a
  failure and leave the file system as it was, so a second run on the same destination
  fails too and overwrites nothing. The failure is that of the first check that fails,
  and the destination is checked last. The project generator: NotFound for a key that is
  no property of the registry object, MissingSource for a registered key whose contract
  or test file is missing, AlreadyExists for a registered key whose sources are there; a
  name that the registry object only inherits ends with the \<^verbatim>\<open>TypeError\<close> of
  \<^verbatim>\<open>path.join\<close>.
  The category generator: NotFound for a key that is no property of the registry object,
  AlreadyExists for every other.
\<close>

theorem generators_refuse_existing_destination:
  assumes "existsSync fs outputDir"
  shows "createExample fuel parse stringify fs rootDir exampleName outputDir =
           Some (Some (case get_property EXAMPLES_MAP exampleName of
                         Undefined \<Rightarrow> NotFound
                       | Inherited \<Rightarrow> TypeError
                       | Own example \<Rightarrow>
                           if existsSync fs (rootDir @ contract example) \<and>
                              existsSync fs (rootDir @ test example)
                           then AlreadyExists else MissingSource), fs) \<and>
         createCategoryIn categories registry parse stringify fs rootDir categoryName outputDir =
           (Some (if get_property categories categoryName = Undefined then NotFound
                  else AlreadyExists), fs, [])"
proof
  show "createExample fuel parse stringify fs rootDir exampleName outputDir =
           Some (Some (case get_property EXAMPLES_MAP exampleName of
                         Undefined \<Rightarrow> NotFound
                       | Inherited \<Rightarrow> TypeError
                       | Own example \<Rightarrow>
                           if existsSync fs (rootDir @ contract example) \<and>
                              existsSync fs (rootDir @ test example)
                           then AlreadyExists else MissingSource), fs)"
    using assms
    by (cases "get_property EXAMPLES_MAP exampleName") (simp_all add: createExample_def Let_def)
  show "createCategoryIn categories registry parse stringify fs rootDir categoryName outputDir =
           (Some (if get_property categories categoryName = Undefined then NotFound
                  else AlreadyExists), fs, [])"
    using assms
    by (cases "get_property categories categoryName") (simp_all add: createCategoryIn_def)
qed

theorem generators_refuse_existing_destination_witness:
  "createExample 100 demo_parse (stringify_at 0) (demo_repo ''contract A {'')
     [''repo''] ''artifact-auction'' [''repo'', ''test''] =
     Some (Some AlreadyExists, demo_repo ''contract A {'') \<and>
   createExample 100 demo_parse (stringify_at 0) (demo_repo ''contract A {'')
     [''repo''] ''nonexistent'' [''repo'', ''test''] =
     Some (Some NotFound, demo_repo ''contract A {'') \<and>
   createExample 100 demo_parse (stringify_at 0) (demo_repo ''contract A {'')
     [''elsewhere''] ''artifact-auction'' [''repo'', ''test''] =
     Some (Some MissingSource, demo_repo ''contract A {'') \<and>
   createCategory demo_parse (stringify_at 0) (demo_repo ''contract A {'')
     [''repo''] ''basic'' [''repo'', ''test''] =
     (Some AlreadyExists, demo_repo ''contract A {'', []) \<and>
   createCategory demo_parse (stringify_at 0) (demo_repo ''contract A {'')
     [''repo''] ''nonexistent'' [''repo'', ''test''] =
     (Some NotFound, demo_repo ''contract A {'', [])"
proof -
  have ex: "existsSync (demo_repo ''contract A {'') [''repo'', ''test'']"
    by (simp add: demo_repo_def existsSync_def)
  note T = generators_refuse_existing_destination[OF ex, where fuel = 100 and parse = demo_parse
      and stringify = "stringify_at 0" and categories = CATEGORIES and registry = EXAMPLES]
  have p: "get_property EXAMPLES_MAP ''artifact-auction'' =
          Own \<lparr>contract = [''contracts'', ''ArtifactAuction.sol''],
                test = [''test'', ''ArtifactAuction.ts''],
                description = ''Confidential artifact auction with encrypted bids and authentication'',
                category = ''advanced''\<rparr>"
    "get_property EXAMPLES_MAP ''nonexistent'' = Undefined"
    by (simp_all add: EXAMPLES_MAP_def get_property_def object_prototype_keys_def)
  have s: "existsSync (demo_repo ''contract A {'') ([''repo''] @ [''contracts'', ''ArtifactAuction.sol''])"
    "existsSync (demo_repo ''contract A {'') ([''repo''] @ [''test'', ''ArtifactAuction.ts''])"
    "\<not> existsSync (demo_repo ''contract A {'') ([''elsewhere''] @ [''contracts'', ''ArtifactAuction.sol''])"
    by (simp_all add: demo_repo_def existsSync_def)
  have c: "get_property CATEGORIES ''basic'' \<noteq> Undefined"
    "get_property CATEGORIES ''nonexistent'' = Undefined"
    by (simp_all add: get_property_def CATEGORIES_def object_prototype_keys_def)
  have 1: "createExample 100 demo_parse (stringify_at 0) (demo_repo ''contract A {'')
     [''repo''] ''artifact-auction'' [''repo'', ''test''] =
     Some (Some AlreadyExists, demo_repo ''contract A {'')"
    using T[where rootDir = "[''repo'']" and exampleName = "''artifact-auction''", THEN conjunct1] p(1) s(1,2) by simp
  have 2: "createExample 100 demo_parse (stringify_at 0) (demo_repo ''contract A {'')
     [''repo''] ''nonexistent'' [''repo'', ''test''] =
     Some (Some NotFound, demo_repo ''contract A {'')"
    using T[where rootDir = "[''repo'']" and exampleName = "''nonexistent''", THEN conjunct1] p(2) by simp
  have 3: "createExample 100 demo_parse (stringify_at 0) (demo_repo ''contract A {'')
     [''elsewhere''] ''artifact-auction'' [''repo'', ''test''] =
     Some (Some MissingSource, demo_repo ''contract A {'')"
    using T[where rootDir = "[''elsewhere'']" and exampleName = "''artifact-auction''", THEN conjunct1] p(1) s(3) by simp
  have 4: "createCategory demo_parse (stringify_at 0) (demo_repo ''contract A {'')
     [''repo''] ''basic'' [''repo'', ''test''] =
     (Some AlreadyExists, demo_repo ''contract A {'', [])"
    using T[where rootDir = "[''repo'']" and categoryName = "''basic''", THEN conjunct2] c(1)
    by (simp add: createCategory_def)
  have 5: "createCategory demo_parse (stringify_at 0) (demo_repo ''contract A {'')
     [''repo''] ''nonexistent'' [''repo'', ''test''] =
     (Some NotFound, demo_repo ''contract A {'', [])"
    using T[where rootDir = "[''repo'']" and categoryName = "''nonexistent''", THEN conjunct2] c(2)
    by (simp add: createCategory_def)
  from 1 2 3 4 5 show ?thesis by blast
qed

section \<open>generate-docs: the command line\<close>

text \<open>
  Claim C9. Whatever the arguments, unless the first of them is \<^verbatim>\<open>--help\<close> or
  \<^verbatim>\<open>-h\<close>, the command does what it does without arguments: the same outcome, the same
  files, the same output; \<^verbatim>\<open>--all\<close> is one such argument. With \<^verbatim>\<open>--help\<close> or
  \<^verbatim>\<open>-h\<close> in front it prints the usage, ends with status zero and writes nothing.
\<close>

theorem docs_main_ignores_all_flag:
  "(args = [] \<or> (hd args \<noteq> ''--help'' \<and> hd args \<noteq> ''-h'') \<longrightarrow>
      docs_main stringify fs cwd args = docs_main stringify fs cwd [] \<and>
      docs_main stringify fs cwd args = docs_main stringify fs cwd [''--all''] \<and>
      docs_main stringify fs cwd args = generateDocumentation stringify fs cwd) \<and>
   (args \<noteq> [] \<and> (hd args = ''--help'' \<or> hd args = ''-h'') \<longrightarrow>
      docs_main stringify fs cwd args = (None, fs, usage_lines))"
  by (cases args) (simp_all add: docs_main_def)

theorem docs_main_ignores_all_flag_witness:
  "docs_main (stringify_at 0) (Dir [(''w'', Dir [])]) [''w''] [''--verbose'', ''--help''] =
     docs_main (stringify_at 0) (Dir [(''w'', Dir [])]) [''w''] [''--all''] \<and>
   docs_main (stringify_at 0) (Dir [(''w'', Dir [])]) [''w''] [''--verbose'', ''--help''] =
     generateDocumentation (stringify_at 0) (Dir [(''w'', Dir [])]) [''w''] \<and>
   docs_main (stringify_at 0) (Dir [(''w'', Dir [])]) [''w''] [''-h''] =
     (None, Dir [(''w'', Dir [])], usage_lines)"
proof -
  have p1: "[''--verbose'', ''--help''] = [] \<or>
            (hd [''--verbose'', ''--help''] \<noteq> ''--help'' \<and> hd [''--verbose'', ''--help''] \<noteq> ''-h'')"
    by simp
  have p2: "[''-h''] \<noteq> [] \<and> (hd [''-h''] = ''--help'' \<or> hd [''-h''] = ''-h'')"
    by simp
  note A = docs_main_ignores_all_flag[of "[''--verbose'', ''--help'']" "stringify_at 0"
          "Dir [(''w'', Dir [])]" "[''w'']", THEN conjunct1, rule_format, OF p1]
  note B = docs_main_ignores_all_flag[of "[''-h'']" "stringify_at 0"
          "Dir [(''w'', Dir [])]" "[''w'']", THEN conjunct2, rule_format, OF p2]
  show ?thesis
    by (intro conjI A[THEN conjunct2, THEN conjunct1] A[THEN conjunct2, THEN conjunct2] B)
qed

section \<open>generate-docs: a missing contract or test file\<close>

lemma diverge_branches: "a \<noteq> b \<Longrightarrow> diverge (p @ a # r) (p @ b # r')"
  by (simp add: diverge_def)

lemma writeFileSync_Inr:
  assumes "writeFileSync fs p s = Inr fs'"
  shows "lookup fs' p = Some (File s)" and "\<forall>q. diverge q p \<longrightarrow> lookup fs' q = lookup fs q"
proof -
  from assms have st: "store fs p (File s) = Some fs'"
    by (auto simp: writeFileSync_def split: if_splits option.splits)
  show "lookup fs' p = Some (File s)"
    using lookup_store_same[OF st, of "[]"] by simp
  show "\<forall>q. diverge q p \<longrightarrow> lookup fs' q = lookup fs q"
    using lookup_store_frame[OF st] by blast
qed

lemma writeFileSync_again:
  "lookup fs p = Some (File s) \<Longrightarrow> p \<noteq> [] \<Longrightarrow> writeFileSync fs p s = Inr fs"
  by (simp add: writeFileSync_def isDirectory_def store_id)

text \<open>The first step of \<^verbatim>\<open>generateDocumentation\<close>: afterwards \<^verbatim>\<open>docs\<close> is a
  directory.\<close>

lemma docs_dir_ready:
  assumes root: "lookup fs rootDir = Some (Dir es)"
    and docs: "\<forall>s. lookup fs (rootDir @ [''docs'']) \<noteq> Some (File s)"
  shows "\<exists>fs1 ds. (if \<not> existsSync fs (rootDir @ [''docs'']) then mkdirSync fs (rootDir @ [''docs''])
                   else Inr fs) = Inr fs1 \<and>
           lookup fs1 (rootDir @ [''docs'']) = Some (Dir ds) \<and>
           (\<forall>q. diverge q (rootDir @ [''docs'']) \<longrightarrow> lookup fs1 q = lookup fs q) \<and>
           (\<forall>c. lookup fs1 (rootDir @ [''docs'', c]) = lookup fs (rootDir @ [''docs'', c]))"
proof (cases "lookup fs (rootDir @ [''docs''])")
  case None
  from mkdir_p_child_ok[OF root None] obtain fs1 where mk: "mkdir_p fs (rootDir @ [''docs'']) = Some fs1"
    by blast
  have d: "lookup fs1 (rootDir @ [''docs'']) = Some (Dir [])"
    by (rule mkdir_p_fresh[OF mk None])
  have "lookup fs1 (rootDir @ [''docs'', c]) = lookup fs (rootDir @ [''docs'', c])" for c
  proof -
    have "lookup fs1 ((rootDir @ [''docs'']) @ [c]) = None"
      using d by (simp only: lookup_child) simp
    moreover have "lookup fs ((rootDir @ [''docs'']) @ [c]) = None"
      using None by (simp only: lookup_append) simp
    ultimately show ?thesis by simp
  qed
  then show ?thesis
    using None mk d lookup_mkdir_p_frame[OF mk]
    by (auto simp: existsSync_def mkdirSync_def)
next
  case (Some n)
  with docs obtain ds where "n = Dir ds" by (cases n) auto
  with Some show ?thesis by (auto simp: existsSync_def)
qed


text \<open>The three writes that do not depend on the contract.\<close>

lemma static_writes:
  assumes docs: "lookup fs2 (rootDir @ [''docs'']) = Some (Dir ds)"
    and api: "\<not> isDirectory fs2 (rootDir @ [''docs'', ''api.md''])"
    and summary: "\<not> isDirectory fs2 (rootDir @ [''SUMMARY.md''])"
    and book: "\<not> isDirectory fs2 (rootDir @ [''book.json''])"
  shows "\<exists>fs3 fs4 fs5.
           writeFileSync fs2 (rootDir @ [''docs'', ''api.md'']) apiDoc = Inr fs3 \<and>
           writeFileSync fs3 (rootDir @ [''SUMMARY.md'']) generateSummary = Inr fs4 \<and>
           writeFileSync fs4 (rootDir @ [''book.json'']) b = Inr fs5 \<and>
           lookup fs5 (rootDir @ [''docs'', ''api.md'']) = Some (File apiDoc) \<and>
           lookup fs5 (rootDir @ [''SUMMARY.md'']) = Some (File generateSummary) \<and>
           lookup fs5 (rootDir @ [''book.json'']) = Some (File b) \<and>
           (\<forall>q. diverge q (rootDir @ [''docs'', ''api.md'']) \<and> diverge q (rootDir @ [''SUMMARY.md'']) \<and>
                diverge q (rootDir @ [''book.json'']) \<longrightarrow> lookup fs5 q = lookup fs2 q)"
proof -
  have api': "\<not> isDirectory fs2 ((rootDir @ [''docs'']) @ [''api.md''])" using api by simp
  from writeFileSync_child[OF docs api', of apiDoc] obtain fs3 where
    w3: "writeFileSync fs2 (rootDir @ [''docs'', ''api.md'']) apiDoc = Inr fs3" by auto
  note f3 = writeFileSync_Inr[OF w3]
  obtain es3 where root3: "lookup fs3 rootDir = Some (Dir es3)"
    using lookup_prefix_Dir[of fs3 rootDir "[''docs'', ''api.md'']"] f3(1) by auto
  have d34: "diverge (rootDir @ [''SUMMARY.md'']) (rootDir @ [''docs'', ''api.md''])"
    by (rule diverge_branches) simp
  have d35: "diverge (rootDir @ [''book.json'']) (rootDir @ [''docs'', ''api.md''])"
    by (rule diverge_branches) simp
  have d45: "diverge (rootDir @ [''book.json'']) (rootDir @ [''SUMMARY.md''])"
    by (rule diverge_branches) simp
  have s3: "\<not> isDirectory fs3 (rootDir @ [''SUMMARY.md''])"
    using summary f3(2) d34 by (simp add: isDirectory_def)
  from writeFileSync_child[OF root3 s3, of generateSummary] obtain fs4 where
    w4: "writeFileSync fs3 (rootDir @ [''SUMMARY.md'']) generateSummary = Inr fs4" by auto
  note f4 = writeFileSync_Inr[OF w4]
  obtain es4 where root4: "lookup fs4 rootDir = Some (Dir es4)"
    using lookup_prefix_Dir[of fs4 rootDir "[''SUMMARY.md'']"] f4(1) by auto
  have b4: "\<not> isDirectory fs4 (rootDir @ [''book.json''])"
    using book f3(2) f4(2) d35 d45 by (simp add: isDirectory_def)
  from writeFileSync_child[OF root4 b4, of b] obtain fs5 where
    w5: "writeFileSync fs4 (rootDir @ [''book.json'']) b = Inr fs5" by auto
  note f5 = writeFileSync_Inr[OF w5]
  have a5: "lookup fs5 (rootDir @ [''docs'', ''api.md'']) = Some (File apiDoc)"
    using f3(1) f4(2) f5(2) diverge_sym[OF d34] diverge_sym[OF d35] by simp
  have s5: "lookup fs5 (rootDir @ [''SUMMARY.md'']) = Some (File generateSummary)"
    using f4(1) f5(2) diverge_sym[OF d45] by simp
  have fr: "\<forall>q. diverge q (rootDir @ [''docs'', ''api.md'']) \<and> diverge q (rootDir @ [''SUMMARY.md'']) \<and>
                diverge q (rootDir @ [''book.json'']) \<longrightarrow> lookup fs5 q = lookup fs2 q"
    using f3(2) f4(2) f5(2) by simp
  show ?thesis
    by (intro exI conjI) (rule w3 w4 w5 a5 s5 f5(1) fr)+
qed

text \<open>
  Claim C5 as stated fails on the logged message. In an empty working directory the
  contract document is skipped, and these lines are all that the run prints; a run that
  writes the document prints every one of them too.
\<close>

theorem generateDocumentation_silent_skip_counterexample:
  "snd (snd (generateDocumentation (stringify_at 0) (Dir [(''w'', Dir [])]) [''w''])) =
     [''Generating documentation...'', ''Success: Generated api.md'',
      ''Success: Generated SUMMARY.md'', ''Success: Generated book.json''] @ closing_lines \<and>
   set (snd (snd (generateDocumentation (stringify_at 0) (Dir [(''w'', Dir [])]) [''w'']))) \<subseteq>
   set (snd (snd (generateDocumentation (stringify_at 0)
          (Dir [(''w'', Dir [(''contracts'', Dir [(''ArtifactAuction.sol'', File ''contract A {}'')]),
                            (''test'', Dir [(''ArtifactAuction.ts'', File ''describe'')])])])
          [''w''])))"
proof -
  have a: "snd (snd (generateDocumentation (stringify_at 0) (Dir [(''w'', Dir [])]) [''w''])) =
     [''Generating documentation...'', ''Success: Generated api.md'',
      ''Success: Generated SUMMARY.md'', ''Success: Generated book.json''] @ closing_lines"
    by (simp add: generateDocumentation_def writeContractDoc_def existsSync_def mkdirSync_def
          writeFileSync_def isDirectory_def Let_def)
  have b: "snd (snd (generateDocumentation (stringify_at 0)
          (Dir [(''w'', Dir [(''contracts'', Dir [(''ArtifactAuction.sol'', File ''contract A {}'')]),
                            (''test'', Dir [(''ArtifactAuction.ts'', File ''describe'')])])])
          [''w''])) =
     [''Generating documentation...'', ''Success: Generated artifact-auction.md'',
      ''Success: Generated api.md'',
      ''Success: Generated SUMMARY.md'', ''Success: Generated book.json''] @ closing_lines"
    by (simp add: generateDocumentation_def writeContractDoc_def generateContractDoc_def
          readFileSync_def existsSync_def mkdirSync_def
          writeFileSync_def isDirectory_def Let_def)
  show ?thesis unfolding a b by auto
qed

text \<open>
  Claim C5, as the code has it. When the contract file or the test file is missing, in a
  working directory where the other files can be written (\<^verbatim>\<open>docs\<close> is not a regular
  file, and none of \<^verbatim>\<open>docs/api.md\<close>, \<^verbatim>\<open>SUMMARY.md\<close>, \<^verbatim>\<open>book.json\<close> is a directory),
  the run comes to its normal end: the API reference, the table of contents and the
  renderer configuration are written, \<^verbatim>\<open>docs/artifact-auction.md\<close> is left as it was,
  and the output is the output of a full run without the line
  \<^verbatim>\<open>Success: Generated artifact-auction.md\<close>: nothing is printed about the skip.
\<close>

theorem generateDocumentation_skips_contract_doc:
  assumes root: "lookup fs rootDir = Some (Dir es)"
    and missing: "\<not> existsSync fs (rootDir @ [''contracts'', ''ArtifactAuction.sol'']) \<or>
                  \<not> existsSync fs (rootDir @ [''test'', ''ArtifactAuction.ts''])"
    and docs: "\<forall>s. lookup fs (rootDir @ [''docs'']) \<noteq> Some (File s)"
    and api: "\<not> isDirectory fs (rootDir @ [''docs'', ''api.md''])"
    and summary: "\<not> isDirectory fs (rootDir @ [''SUMMARY.md''])"
    and book: "\<not> isDirectory fs (rootDir @ [''book.json''])"
  shows "\<exists>fs'. generateDocumentation stringify fs rootDir =
                 (None, fs',
                  [''Generating documentation...'', ''Success: Generated api.md'',
                   ''Success: Generated SUMMARY.md'', ''Success: Generated book.json''] @
                  closing_lines) \<and>
               lookup fs' (rootDir @ [''docs'', ''api.md'']) = Some (File apiDoc) \<and>
               lookup fs' (rootDir @ [''SUMMARY.md'']) = Some (File generateSummary) \<and>
               lookup fs' (rootDir @ [''book.json'']) = Some (File (stringify bookConfig)) \<and>
               lookup fs' (rootDir @ [''docs'', ''artifact-auction.md'']) =
                 lookup fs (rootDir @ [''docs'', ''artifact-auction.md''])"
proof -
  from docs_dir_ready[OF root docs] obtain fs1 ds where
    step1: "(if \<not> existsSync fs (rootDir @ [''docs'']) then mkdirSync fs (rootDir @ [''docs''])
             else Inr fs) = Inr fs1" and
    d1: "lookup fs1 (rootDir @ [''docs'']) = Some (Dir ds)" and
    f1: "\<forall>q. diverge q (rootDir @ [''docs'']) \<longrightarrow> lookup fs1 q = lookup fs q" and
    c1: "\<forall>c. lookup fs1 (rootDir @ [''docs'', c]) = lookup fs (rootDir @ [''docs'', c])"
    by blast
  have dc: "diverge (rootDir @ [''contracts'', ''ArtifactAuction.sol'']) (rootDir @ [''docs''])"
    and dt: "diverge (rootDir @ [''test'', ''ArtifactAuction.ts'']) (rootDir @ [''docs''])"
    and ds: "diverge (rootDir @ [''SUMMARY.md'']) (rootDir @ [''docs''])"
    and db: "diverge (rootDir @ [''book.json'']) (rootDir @ [''docs''])"
    by (rule diverge_branches, simp)+
  have "\<not> existsSync fs1 (rootDir @ [''contracts'', ''ArtifactAuction.sol'']) \<or>
        \<not> existsSync fs1 (rootDir @ [''test'', ''ArtifactAuction.ts''])"
    using missing f1 dc dt by (simp add: existsSync_def)
  then have step2: "writeContractDoc fs1 rootDir = Inr (fs1, [])"
    by (auto simp: writeContractDoc_def)
  have api1: "\<not> isDirectory fs1 (rootDir @ [''docs'', ''api.md''])"
    using api c1 by (simp add: isDirectory_def)
  have summary1: "\<not> isDirectory fs1 (rootDir @ [''SUMMARY.md''])"
    using summary f1 ds by (simp add: isDirectory_def)
  have book1: "\<not> isDirectory fs1 (rootDir @ [''book.json''])"
    using book f1 db by (simp add: isDirectory_def)
  from static_writes[OF d1 api1 summary1 book1, of "stringify bookConfig"]
  obtain fs3 fs4 fs5 where
    w: "writeFileSync fs1 (rootDir @ [''docs'', ''api.md'']) apiDoc = Inr fs3"
       "writeFileSync fs3 (rootDir @ [''SUMMARY.md'']) generateSummary = Inr fs4"
       "writeFileSync fs4 (rootDir @ [''book.json'']) (stringify bookConfig) = Inr fs5" and
    l: "lookup fs5 (rootDir @ [''docs'', ''api.md'']) = Some (File apiDoc)"
       "lookup fs5 (rootDir @ [''SUMMARY.md'']) = Some (File generateSummary)"
       "lookup fs5 (rootDir @ [''book.json'']) = Some (File (stringify bookConfig))" and
    fr: "\<forall>q. diverge q (rootDir @ [''docs'', ''api.md'']) \<and> diverge q (rootDir @ [''SUMMARY.md'']) \<and>
                diverge q (rootDir @ [''book.json'']) \<longrightarrow> lookup fs5 q = lookup fs1 q"
    by blast
  have "diverge (rootDir @ [''docs'', ''artifact-auction.md'']) (rootDir @ [''docs'', ''api.md''])"
    using diverge_branches[of "''artifact-auction.md''" "''api.md''" "rootDir @ [''docs'']" "[]" "[]"]
    by simp
  moreover have "diverge (rootDir @ [''docs'', ''artifact-auction.md'']) (rootDir @ [''SUMMARY.md''])"
    "diverge (rootDir @ [''docs'', ''artifact-auction.md'']) (rootDir @ [''book.json''])"
    by (rule diverge_branches, simp)+
  ultimately have keep: "lookup fs5 (rootDir @ [''docs'', ''artifact-auction.md'']) =
                 lookup fs (rootDir @ [''docs'', ''artifact-auction.md''])"
    using fr c1 by simp
  have run: "generateDocumentation stringify fs rootDir =
                 (None, fs5,
                  [''Generating documentation...'', ''Success: Generated api.md'',
                   ''Success: Generated SUMMARY.md'', ''Success: Generated book.json''] @
                  closing_lines)"
    using step1 step2 w by (simp add: generateDocumentation_def Let_def)
  show ?thesis
    by (intro exI conjI) (rule run l keep)+
qed


theorem generateDocumentation_skips_contract_doc_witness:
  "\<exists>fs'. generateDocumentation (stringify_at 0)
            (Dir [(''w'', Dir [(''contracts'', Dir [(''ArtifactAuction.sol'', File ''contract A {}'')])])])
            [''w''] =
          (None, fs',
           [''Generating documentation...'', ''Success: Generated api.md'',
            ''Success: Generated SUMMARY.md'', ''Success: Generated book.json''] @
           closing_lines) \<and>
         lookup fs' [''w'', ''docs'', ''api.md''] = Some (File apiDoc) \<and>
         lookup fs' [''w'', ''SUMMARY.md''] = Some (File generateSummary) \<and>
         lookup fs' [''w'', ''book.json''] = Some (File (stringify_at 0 bookConfig)) \<and>
         lookup fs' [''w'', ''docs'', ''artifact-auction.md''] = None"
  using generateDocumentation_skips_contract_doc[of
      "Dir [(''w'', Dir [(''contracts'', Dir [(''ArtifactAuction.sol'', File ''contract A {}'')])])]"
      "[''w'']" "[(''contracts'', Dir [(''ArtifactAuction.sol'', File ''contract A {}'')])]"
      "stringify_at 0"]
  by (simp add: existsSync_def isDirectory_def)

section \<open>generate-docs: running it twice\<close>

lemma writeFileSync_keeps_existing:
  assumes w: "writeFileSync fs p s = Inr fs'" and q: "existsSync fs q"
  shows "existsSync fs' q"
proof -
  from w have nd: "\<not> isDirectory fs p" by (auto simp: writeFileSync_def split: if_splits)
  note f = writeFileSync_Inr[OF w]
  consider "diverge q p" | "prefix q p" | "prefix p q" by (auto simp: diverge_def)
  then show ?thesis
  proof cases
    case 1
    with f(2) q show ?thesis by (simp add: existsSync_def)
  next
    case 2
    then obtain r where p: "p = q @ r" by (auto simp: prefix_def)
    show ?thesis
    proof (cases "r = []")
      case True
      with p f(1) show ?thesis by (simp add: existsSync_def)
    next
      case False
      with lookup_prefix_Dir[of fs' q r] f(1) p show ?thesis by (auto simp: existsSync_def)
    qed
  next
    case 3
    then obtain r where qp: "q = p @ r" by (auto simp: prefix_def)
    show ?thesis
    proof (cases "r = []")
      case True
      with qp f(1) show ?thesis by (simp add: existsSync_def)
    next
      case False
      from q obtain n where "lookup fs (p @ r) = Some n" by (auto simp: existsSync_def qp)
      from lookup_prefix_Dir[OF this False] nd show ?thesis by (auto simp: isDirectory_def)
    qed
  qed
qed

lemma writeContractDoc_Inr:
  assumes "writeContractDoc fs rootDir = Inr (fs2, out1)"
  shows "\<forall>q. diverge q (rootDir @ [''docs'', ''artifact-auction.md'']) \<longrightarrow> lookup fs2 q = lookup fs q"
    and "\<forall>q. existsSync fs q \<longrightarrow> existsSync fs2 q"
  using assms writeFileSync_Inr(2) writeFileSync_keeps_existing
  by (fastforce simp: writeContractDoc_def Let_def split: if_splits sum.splits)+

text \<open>Running the second step again, in a state that agrees with the first run on the two
  sources and on the document.\<close>

lemma writeContractDoc_replay:
  assumes run: "writeContractDoc fs rootDir = Inr (fs2, out1)"
    and c: "lookup fs' (rootDir @ [''contracts'', ''ArtifactAuction.sol'']) =
            lookup fs (rootDir @ [''contracts'', ''ArtifactAuction.sol''])"
    and t: "lookup fs' (rootDir @ [''test'', ''ArtifactAuction.ts'']) =
            lookup fs (rootDir @ [''test'', ''ArtifactAuction.ts''])"
    and d: "lookup fs' (rootDir @ [''docs'', ''artifact-auction.md'']) =
            lookup fs2 (rootDir @ [''docs'', ''artifact-auction.md''])"
  shows "writeContractDoc fs' rootDir = Inr (fs', out1)"
proof (cases "existsSync fs (rootDir @ [''contracts'', ''ArtifactAuction.sol'']) \<and>
              existsSync fs (rootDir @ [''test'', ''ArtifactAuction.ts''])")
  case False
  with run have "out1 = []" by (auto simp: writeContractDoc_def Let_def)
  with False c t show ?thesis by (auto simp: writeContractDoc_def Let_def existsSync_def)
next
  case True
  with run obtain doc where
    g: "generateContractDoc fs ''ArtifactAuction'' (rootDir @ [''contracts'', ''ArtifactAuction.sol''])
          (rootDir @ [''test'', ''ArtifactAuction.ts'']) = Inr doc" and
    w: "writeFileSync fs (rootDir @ [''docs'', ''artifact-auction.md'']) doc = Inr fs2" and
    o: "out1 = [''Success: Generated artifact-auction.md'']"
    by (auto simp: writeContractDoc_def Let_def split: sum.splits)
  have g': "generateContractDoc fs' ''ArtifactAuction'' (rootDir @ [''contracts'', ''ArtifactAuction.sol''])
          (rootDir @ [''test'', ''ArtifactAuction.ts'']) = Inr doc"
  proof -
    have "readFileSync fs' (rootDir @ [''contracts'', ''ArtifactAuction.sol'']) =
          readFileSync fs (rootDir @ [''contracts'', ''ArtifactAuction.sol''])"
      "readFileSync fs' (rootDir @ [''test'', ''ArtifactAuction.ts'']) =
          readFileSync fs (rootDir @ [''test'', ''ArtifactAuction.ts''])"
      using c t by (simp_all add: readFileSync_def)
    then show ?thesis using g by (auto simp: generateContractDoc_def split: sum.splits)
  qed
  have "lookup fs' (rootDir @ [''docs'', ''artifact-auction.md'']) = Some (File doc)"
    using d writeFileSync_Inr(1)[OF w] by simp
  then have "writeFileSync fs' (rootDir @ [''docs'', ''artifact-auction.md'']) doc = Inr fs'"
    by (rule writeFileSync_again) simp
  with True c t g' o show ?thesis
    by (simp add: writeContractDoc_def Let_def existsSync_def)
qed


text \<open>
  Claim C6. A second run of the generator, on the file system the first run left, ends as
  the first run ended, prints what it printed and leaves every file as the first run left
  it. (That one run from one file system has one result is what it means for the model to
  be a function.)
\<close>

theorem generateDocumentation_idempotent:
  "generateDocumentation stringify (fst (snd (generateDocumentation stringify fs rootDir))) rootDir =
   generateDocumentation stringify fs rootDir"
proof -
  let ?D = "rootDir @ [''docs'']"
  let ?C = "rootDir @ [''contracts'', ''ArtifactAuction.sol'']"
  let ?T = "rootDir @ [''test'', ''ArtifactAuction.ts'']"
  let ?A = "rootDir @ [''docs'', ''artifact-auction.md'']"
  let ?P = "rootDir @ [''docs'', ''api.md'']"
  let ?S = "rootDir @ [''SUMMARY.md'']"
  let ?B = "rootDir @ [''book.json'']"
  have dCA: "diverge ?C ?A" and dTA: "diverge ?T ?A" and dCP: "diverge ?C ?P" and dTP: "diverge ?T ?P"
    and dCS: "diverge ?C ?S" and dTS: "diverge ?T ?S" and dCB: "diverge ?C ?B" and dTB: "diverge ?T ?B"
    and dAS: "diverge ?A ?S" and dAB: "diverge ?A ?B" and dPS: "diverge ?P ?S" and dPB: "diverge ?P ?B"
    and dSB: "diverge ?S ?B"
    by (rule diverge_branches, simp)+
  have dAP: "diverge ?A ?P"
    using diverge_branches[of "''artifact-auction.md''" "''api.md''" ?D "[]" "[]"] by simp
  show ?thesis
  proof (cases "if \<not> existsSync fs ?D then mkdirSync fs ?D else Inr fs")
    case (Inl e)
    then have "generateDocumentation stringify fs rootDir = (Some e, fs, [''Generating documentation...''])"
      by (simp add: generateDocumentation_def Let_def)
    then show ?thesis by simp
  next
    case (Inr fs1)
    note s1 = this
    have ex1: "existsSync fs1 ?D"
    proof (cases "existsSync fs ?D")
      case True
      with s1 show ?thesis by simp
    next
      case False
      with s1 have "mkdir_p fs ?D = Some fs1"
        by (auto simp: mkdirSync_def split: option.splits)
      from mkdir_p_isDirectory[OF this] show ?thesis
        by (auto simp: isDirectory_def existsSync_def split: option.splits)
    qed
    show ?thesis
    proof (cases "writeContractDoc fs1 rootDir")
      case (Inl e)
      with s1 have r: "generateDocumentation stringify fs rootDir =
                        (Some e, fs1, [''Generating documentation...''])"
        by (simp add: generateDocumentation_def Let_def)
      have "generateDocumentation stringify fs1 rootDir = (Some e, fs1, [''Generating documentation...''])"
        using ex1 Inl by (simp add: generateDocumentation_def Let_def)
      with r show ?thesis by simp
    next
      case (Inr p)
      then obtain fs2 out1 where s2: "writeContractDoc fs1 rootDir = Inr (fs2, out1)"
        by (cases p) auto
      note f2 = writeContractDoc_Inr[OF s2]
      have ex2: "existsSync fs2 ?D" using f2(2) ex1 by blast
      have rp: "writeContractDoc fs' rootDir = Inr (fs', out1)"
        if "lookup fs' ?C = lookup fs2 ?C" "lookup fs' ?T = lookup fs2 ?T" "lookup fs' ?A = lookup fs2 ?A"
        for fs'
        using writeContractDoc_replay[OF s2, of fs'] that f2(1) dCA dTA by simp
      show ?thesis
      proof (cases "writeFileSync fs2 ?P apiDoc")
        case (Inl e)
        with s1 s2 have r: "generateDocumentation stringify fs rootDir =
                        (Some e, fs2, [''Generating documentation...''] @ out1)"
          by (simp add: generateDocumentation_def Let_def)
        have "generateDocumentation stringify fs2 rootDir =
                        (Some e, fs2, [''Generating documentation...''] @ out1)"
          using ex2 rp[of fs2] Inl by (simp add: generateDocumentation_def Let_def)
        with r show ?thesis by simp
      next
        case (Inr fs3)
        note s3 = this
        note f3 = writeFileSync_Inr[OF s3]
        have ex3: "existsSync fs3 ?D" using writeFileSync_keeps_existing[OF s3 ex2] .
        have k3: "lookup fs3 ?C = lookup fs2 ?C" "lookup fs3 ?T = lookup fs2 ?T"
          "lookup fs3 ?A = lookup fs2 ?A"
          using f3(2) dCP dTP dAP by simp_all
        show ?thesis
        proof (cases "writeFileSync fs3 ?S generateSummary")
          case (Inl e)
          with s1 s2 s3 have r: "generateDocumentation stringify fs rootDir =
              (Some e, fs3, [''Generating documentation...''] @ out1 @ [''Success: Generated api.md''])"
            by (simp add: generateDocumentation_def Let_def)
          have "writeFileSync fs3 ?P apiDoc = Inr fs3"
            by (rule writeFileSync_again[OF f3(1)]) simp
          then have "generateDocumentation stringify fs3 rootDir =
              (Some e, fs3, [''Generating documentation...''] @ out1 @ [''Success: Generated api.md''])"
            using ex3 rp[OF k3] Inl by (simp add: generateDocumentation_def Let_def)
          with r show ?thesis by simp
        next
          case (Inr fs4)
          note s4 = this
          note f4 = writeFileSync_Inr[OF s4]
          have ex4: "existsSync fs4 ?D" using writeFileSync_keeps_existing[OF s4 ex3] .
          have k4: "lookup fs4 ?C = lookup fs2 ?C" "lookup fs4 ?T = lookup fs2 ?T"
            "lookup fs4 ?A = lookup fs2 ?A" "lookup fs4 ?P = Some (File apiDoc)"
            using f4(2) k3 f3(1) dCS dTS dAS dPS by simp_all
          show ?thesis
          proof (cases "writeFileSync fs4 ?B (stringify bookConfig)")
            case (Inl e)
            with s1 s2 s3 s4 have r: "generateDocumentation stringify fs rootDir =
                (Some e, fs4, [''Generating documentation...''] @ out1 @
                   [''Success: Generated api.md'', ''Success: Generated SUMMARY.md''])"
              by (simp add: generateDocumentation_def Let_def)
            have "writeFileSync fs4 ?P apiDoc = Inr fs4"
              by (rule writeFileSync_again[OF k4(4)]) simp
            moreover have "writeFileSync fs4 ?S generateSummary = Inr fs4"
              by (rule writeFileSync_again[OF f4(1)]) simp
            ultimately have "generateDocumentation stringify fs4 rootDir =
                (Some e, fs4, [''Generating documentation...''] @ out1 @
                   [''Success: Generated api.md'', ''Success: Generated SUMMARY.md''])"
              using ex4 rp[OF k4(1-3)] Inl by (simp add: generateDocumentation_def Let_def)
            with r show ?thesis by simp
          next
            case (Inr fs5)
            note s5 = this
            note f5 = writeFileSync_Inr[OF s5]
            have ex5: "existsSync fs5 ?D" using writeFileSync_keeps_existing[OF s5 ex4] .
            have k5: "lookup fs5 ?C = lookup fs2 ?C" "lookup fs5 ?T = lookup fs2 ?T"
              "lookup fs5 ?A = lookup fs2 ?A" "lookup fs5 ?P = Some (File apiDoc)"
              "lookup fs5 ?S = Some (File generateSummary)"
              using f5(2) k4 f4(1) dCB dTB dAB dPB dSB by simp_all
            from s1 s2 s3 s4 s5 have r: "generateDocumentation stringify fs rootDir =
                (None, fs5, [''Generating documentation...''] @ out1 @
                   [''Success: Generated api.md'', ''Success: Generated SUMMARY.md'',
                    ''Success: Generated book.json''] @ closing_lines)"
              by (simp add: generateDocumentation_def Let_def)
            have "writeFileSync fs5 ?P apiDoc = Inr fs5"
              by (rule writeFileSync_again[OF k5(4)]) simp
            moreover have "writeFileSync fs5 ?S generateSummary = Inr fs5"
              by (rule writeFileSync_again[OF k5(5)]) simp
            moreover have "writeFileSync fs5 ?B (stringify bookConfig) = Inr fs5"
              by (rule writeFileSync_again[OF f5(1)]) simp
            ultimately have "generateDocumentation stringify fs5 rootDir =
                (None, fs5, [''Generating documentation...''] @ out1 @
                   [''Success: Generated api.md'', ''Success: Generated SUMMARY.md'',
                    ''Success: Generated book.json''] @ closing_lines)"
              using ex5 rp[OF k5(1-3)] by (simp add: generateDocumentation_def Let_def)
            with r show ?thesis by simp
          qed
        qed
      qed
    qed
  qed
qed

section \<open>generate-docs: the comments of the test groups\<close>

subsection \<open>The declaration of a test group\<close>

lemma starts_with_prefix: "starts_with a s \<noteq> None \<longleftrightarrow> prefix a s"
  by (induction a s rule: starts_with.induct) auto

lemma starts_with_None: "starts_with a s = None \<longleftrightarrow> \<not> prefix a s"
  using starts_with_prefix by blast

lemma describe_tail_iff: "describe_tail s = Some rest \<longleftrightarrow> group_tail s rest"
proof
  assume a: "describe_tail s = Some rest"
  then obtain r r2 where r: "starts_with '','' s = Some r"
    and r2: "starts_with ''function'' (drop_spaces r) = Some r2"
    and r3: "starts_with ''()'' (drop_spaces r2) = Some rest"
    by (auto simp: describe_tail_def split: option.splits)
  obtain ws where ws: "spaces ws" "r = ws @ drop_spaces r" using drop_spaces_shape[of r] by blast
  obtain ws' where ws': "spaces ws'" "r2 = ws' @ drop_spaces r2"
    using drop_spaces_shape[of r2] by blast
  have e2: "r2 = ws' @ ''()'' @ rest"
    using ws'(2) starts_with_append[OF r3] by simp
  have e1: "r = ws @ ''function'' @ r2"
    using ws(2) starts_with_append[OF r2] by simp
  have "s = '','' @ ws @ ''function'' @ ws' @ ''()'' @ rest"
    using starts_with_append[OF r] unfolding e1 e2 .
  with ws(1) ws'(1) show "group_tail s rest" unfolding group_tail_def by blast
next
  assume "group_tail s rest"
  then obtain ws ws' where sp: "spaces ws" "spaces ws'"
    and s: "s = '','' @ ws @ ''function'' @ ws' @ ''()'' @ rest"
    unfolding group_tail_def by blast
  have 1: "starts_with '','' s = Some (ws @ ''function'' @ ws' @ ''()'' @ rest)"
    unfolding s by (simp only: starts_with_self)
  have 2: "drop_spaces (ws @ ''function'' @ ws' @ ''()'' @ rest) = ''function'' @ ws' @ ''()'' @ rest"
    by (rule drop_spaces_eq[OF sp(1)]) (simp add: skip_space_no_lead space_lead_def)
  have 3: "drop_spaces (ws' @ ''()'' @ rest) = ''()'' @ rest"
    by (rule drop_spaces_eq[OF sp(2)]) (simp add: skip_space_no_lead space_lead_def)
  have 4: "starts_with ''function'' (''function'' @ ws' @ ''()'' @ rest) = Some (ws' @ ''()'' @ rest)"
    by (simp only: starts_with_self)
  have 5: "starts_with ''()'' (''()'' @ rest) = Some rest"
    by (simp only: starts_with_self)
  show "describe_tail s = Some rest"
    unfolding describe_tail_def 1 by (simp only: option.case 2 3 4 5)
qed

lemma lazy_title_shape:
  "lazy_title acc s = Some (t, rest) \<Longrightarrow>
   \<exists>u q' r. t = acc @ u \<and> s = u @ [q'] @ r \<and> is_quote q' \<and> group_tail r rest \<and>
     (\<forall>x y. u = x @ y \<longrightarrow> y \<noteq> [] \<longrightarrow> line_break (y @ [q'] @ r) = None) \<and>
     (\<forall>u1 c u2. u = u1 @ c # u2 \<longrightarrow> is_quote c \<longrightarrow> describe_tail (u2 @ [q'] @ r) = None)"
proof (induction acc s rule: lazy_title.induct)
  case (2 acc c s)
  show ?case
  proof (cases "if is_quote c then describe_tail s else None")
    case (Some r0)
    with 2(2) have eq: "t = acc" "r0 = rest" by auto
    from Some have q: "is_quote c" "describe_tail s = Some r0" by (auto split: if_splits)
    have "group_tail s rest" using q(2) eq(2) by (simp add: describe_tail_iff)
    then show ?thesis using eq(1) q(1)
      by (intro exI[of _ "[]"] exI[of _ c] exI[of _ s]) simp
  next
    case None
    with 2(2) have lb: "line_break (c # s) = None" and rec: "lazy_title (acc @ [c]) s = Some (t, rest)"
      by (auto split: if_splits)
    from "2.IH"[OF None _ rec] lb obtain u q' r where
      u: "t = (acc @ [c]) @ u" "s = u @ [q'] @ r" "is_quote q'" "group_tail r rest"
      and nb: "\<forall>x y. u = x @ y \<longrightarrow> y \<noteq> [] \<longrightarrow> line_break (y @ [q'] @ r) = None"
      and lz: "\<forall>u1 c u2. u = u1 @ c # u2 \<longrightarrow> is_quote c \<longrightarrow> describe_tail (u2 @ [q'] @ r) = None"
      by auto
    have nb': "\<forall>x y. c # u = x @ y \<longrightarrow> y \<noteq> [] \<longrightarrow> line_break (y @ [q'] @ r) = None"
    proof (intro allI impI)
      fix x y assume a: "c # u = x @ y" "y \<noteq> []"
      show "line_break (y @ [q'] @ r) = None"
      proof (cases x)
        case Nil
        with a have "y = c # u" by simp
        then show ?thesis using lb u(2) by simp
      next
        case (Cons a' x')
        with a have "u = x' @ y" by simp
        with nb a(2) show ?thesis by blast
      qed
    qed
    have lz': "\<forall>u1 d u2. c # u = u1 @ d # u2 \<longrightarrow> is_quote d \<longrightarrow> describe_tail (u2 @ [q'] @ r) = None"
    proof (intro allI impI)
      fix u1 d u2 assume a: "c # u = u1 @ d # u2" "is_quote d"
      show "describe_tail (u2 @ [q'] @ r) = None"
      proof (cases u1)
        case Nil
        with a have "d = c" "u2 = u" by auto
        with a(2) None u(2) show ?thesis by simp
      next
        case (Cons a' u1')
        with a have "u = u1' @ d # u2" by simp
        with lz a(2) show ?thesis by blast
      qed
    qed
    show ?thesis using u nb' lz'
      by (intro exI[of _ "c # u"] exI[of _ q'] exI[of _ r]) simp
  qed
qed simp

lemma terminator_no_quote: "tm \<in> set line_terminators \<Longrightarrow> c \<in> set tm \<Longrightarrow> \<not> is_quote c"
  by (auto simp: line_terminators_def is_quote_def)

lemma match_describe_test_group:
  assumes "match_describe s = Some (t, rest)"
  shows "test_group s t rest"
proof -
  from assms obtain q r0 where a: "starts_with ''describe('' s = Some (q # r0)" and q: "is_quote q"
    and b: "lazy_title [] r0 = Some (t, rest)"
    by (auto simp: match_describe_def split: option.splits list.splits if_splits)
  from lazy_title_shape[OF b] obtain q' r where
    u: "r0 = t @ [q'] @ r" "is_quote q'" "group_tail r rest"
    and nb: "\<forall>x y. t = x @ y \<longrightarrow> y \<noteq> [] \<longrightarrow> line_break (y @ [q'] @ r) = None"
    and lz: "\<forall>u1 c u2. t = u1 @ c # u2 \<longrightarrow> is_quote c \<longrightarrow> describe_tail (u2 @ [q'] @ r) = None"
    by auto
  have s: "s = ''describe('' @ [q] @ t @ [q'] @ r"
    using starts_with_append[OF a] u(1) by simp
  have no_tm: "\<not> (\<exists>x tm y. tm \<in> set line_terminators \<and> t = x @ tm @ y)"
  proof
    assume "\<exists>x tm y. tm \<in> set line_terminators \<and> t = x @ tm @ y"
    then obtain x tm y where tm: "tm \<in> set line_terminators" "t = x @ tm @ y" by blast
    have "tm \<noteq> []" using tm(1) by (auto simp: line_terminators_def)
    then have "line_break ((tm @ y) @ [q'] @ r) = None" using nb tm(2) by blast
    moreover have "line_break (tm @ (y @ [q'] @ r)) = Some (y @ [q'] @ r)"
      by (rule line_break_terminator[OF tm(1)])
    ultimately show False by simp
  qed
  have lazy: "\<not> (\<exists>t1 c t2 r'. is_quote c \<and> t = t1 @ c # t2 \<and> group_tail (t2 @ [q'] @ r) r')"
    using lz by (auto simp: describe_tail_iff[symmetric])
  show ?thesis unfolding test_group_def using q u(2,3) s no_tm lazy by blast
qed

lemma lazy_title_complete:
  assumes "is_quote q'" "describe_tail r = Some rest"
    and "\<forall>x y. u = x @ y \<longrightarrow> y \<noteq> [] \<longrightarrow> line_break (y @ [q'] @ r) = None"
    and "\<forall>u1 c u2. u = u1 @ c # u2 \<longrightarrow> is_quote c \<longrightarrow> describe_tail (u2 @ [q'] @ r) = None"
  shows "lazy_title acc (u @ [q'] @ r) = Some (acc @ u, rest)"
  using assms(3,4)
proof (induction u arbitrary: acc)
  case Nil
  show ?case using assms(1,2) by simp
next
  case (Cons c u)
  have 1: "(if is_quote c then describe_tail (u @ [q'] @ r) else None) = None"
    using Cons.prems(2)[rule_format, of "[]" c u] by simp
  have 2: "line_break (c # u @ [q'] @ r) = None"
    using Cons.prems(1)[rule_format, of "[]" "c # u"] by simp
  have 3: "\<forall>x y. u = x @ y \<longrightarrow> y \<noteq> [] \<longrightarrow> line_break (y @ [q'] @ r) = None"
  proof (intro allI impI)
    fix x y assume "u = x @ y" "y \<noteq> []"
    then show "line_break (y @ [q'] @ r) = None"
      using Cons.prems(1)[rule_format, of "c # x" y] by simp
  qed
  have 4: "\<forall>u1 d u2. u = u1 @ d # u2 \<longrightarrow> is_quote d \<longrightarrow> describe_tail (u2 @ [q'] @ r) = None"
  proof (intro allI impI)
    fix u1 d u2 assume "u = u1 @ d # u2" "is_quote d"
    then show "describe_tail (u2 @ [q'] @ r) = None"
      using Cons.prems(2)[rule_format, of "c # u1" d u2] by simp
  qed
  have "lazy_title acc ((c # u) @ [q'] @ r) = lazy_title (acc @ [c]) (u @ [q'] @ r)"
  proof (cases "is_quote c")
    case True
    with 1 have "describe_tail (u @ [q'] @ r) = None" by simp
    with 2 True show ?thesis by simp
  next
    case False
    with 2 show ?thesis by simp
  qed
  also have "\<dots> = Some ((acc @ [c]) @ u, rest)" by (rule Cons.IH[OF 3 4])
  finally show ?case by simp
qed

lemma test_group_match_describe:
  assumes "test_group s t rest"
  shows "match_describe s = Some (t, rest)"
proof -
  from assms obtain q q' r where q: "is_quote q" "is_quote q'"
    and s: "s = ''describe('' @ [q] @ t @ [q'] @ r" and tail: "group_tail r rest"
    and no_tm: "\<not> (\<exists>x tm y. tm \<in> set line_terminators \<and> t = x @ tm @ y)"
    and lazy: "\<not> (\<exists>t1 c t2 r'. is_quote c \<and> t = t1 @ c # t2 \<and> group_tail (t2 @ [q'] @ r) r')"
    unfolding test_group_def by blast
  have nb: "\<forall>x y. t = x @ y \<longrightarrow> y \<noteq> [] \<longrightarrow> line_break (y @ [q'] @ r) = None"
  proof (intro allI impI, rule ccontr)
    fix x y assume t: "t = x @ y" and y: "y \<noteq> []" and "line_break (y @ [q'] @ r) \<noteq> None"
    then obtain r' where "line_break (y @ [q'] @ r) = Some r'" by auto
    from line_break_Some[OF this] obtain tm where tm: "tm \<in> set line_terminators"
      "y @ [q'] @ r = tm @ r'" by blast
    from tm(2) consider us where "y = tm @ us" | us where "y @ us = tm" "q' # r = us @ r'" "us \<noteq> []"
      by (auto simp: append_eq_append_conv2) (metis append_Nil2)
    then show False
    proof cases
      case 1
      with t tm(1) no_tm show False by auto
    next
      case 2
      then have "q' \<in> set tm" by (cases us) auto
      with terminator_no_quote[OF tm(1)] q(2) show False by blast
    qed
  qed
  have lz: "\<forall>u1 c u2. t = u1 @ c # u2 \<longrightarrow> is_quote c \<longrightarrow> describe_tail (u2 @ [q'] @ r) = None"
  proof (intro allI impI, rule ccontr)
    fix u1 c u2 assume "t = u1 @ c # u2" "is_quote c" "describe_tail (u2 @ [q'] @ r) \<noteq> None"
    then show False using lazy by (auto simp: describe_tail_iff)
  qed
  have dt: "describe_tail r = Some rest" using tail by (simp add: describe_tail_iff)
  have "starts_with ''describe('' s = Some (q # t @ [q'] @ r)"
    unfolding s by (simp only: starts_with_self) simp
  moreover have "lazy_title [] (t @ [q'] @ r) = Some ([] @ t, rest)"
    by (rule lazy_title_complete[OF q(2) dt nb lz])
  ultimately show ?thesis using q(1) by (simp add: match_describe_def)
qed

lemma match_describe_iff: "match_describe s = Some (t, rest) \<longleftrightarrow> test_group s t rest"
  using match_describe_test_group test_group_match_describe by blast

subsection \<open>The comments in front of a declaration\<close>

lemma sublist_closer_Cons:
  "sublist ''*/'' (c # s) \<longleftrightarrow> prefix ''*/'' (c # s) \<or> sublist ''*/'' s"
  by (rule sublist_Cons_right)

lemma closes_first_Nil [simp]: "closes_first []"
  by (simp add: closes_first_def sublist_Cons_right)

lemma closes_first_Cons:
  "closes_first (c # body) \<longleftrightarrow> \<not> prefix ''*/'' (c # body @ ''*'') \<and> closes_first body"
  by (simp add: closes_first_def sublist_Cons_right del: Cons_prefix_Cons)

lemma prefix_closer: "prefix ''*/'' (c # body @ ''*'') \<longleftrightarrow> prefix ''*/'' (c # body @ ''*/'' @ rest)"
  by (cases body) auto

lemma closes_first_step:
  "closes_first (c # body) \<longleftrightarrow>
   starts_with ''*/'' (c # body @ ''*/'' @ rest) = None \<and> closes_first body"
  unfolding closes_first_Cons prefix_closer[of c body rest] starts_with_None ..

lemma until_close_shape:
  "until_close acc s = Some (b, rest) \<Longrightarrow>
   \<exists>body. b = acc @ body @ ''*/'' \<and> s = body @ ''*/'' @ rest \<and> closes_first body"
proof (induction acc s rule: until_close.induct)
  case (2 acc c s)
  show ?case
  proof (cases "starts_with ''*/'' (c # s)")
    case (Some r)
    with 2(2) have "b = acc @ ''*/''" "r = rest" by auto
    with starts_with_append[OF Some] show ?thesis
      by (intro exI[of _ "[]"]) simp
  next
    case None
    with 2 obtain body where body: "b = (acc @ [c]) @ body @ ''*/''" "s = body @ ''*/'' @ rest"
      "closes_first body" by auto
    have "closes_first (c # body)"
      unfolding closes_first_step[of c body rest] using None body(2,3) by simp
    with body(1,2) show ?thesis by (intro exI[of _ "c # body"]) simp
  qed
qed simp

lemma until_close_complete:
  "closes_first body \<Longrightarrow> until_close acc (body @ ''*/'' @ rest) = Some (acc @ body @ ''*/'', rest)"
proof (induction body arbitrary: acc)
  case Nil
  show ?case by simp
next
  case (Cons c body)
  from Cons.prems have "starts_with ''*/'' (c # body @ ''*/'' @ rest) = None"
    and cf: "closes_first body"
    unfolding closes_first_step[of c body rest] by blast+
  then have "until_close acc ((c # body) @ ''*/'' @ rest) = until_close (acc @ [c]) (body @ ''*/'' @ rest)"
    by simp
  also have "\<dots> = Some ((acc @ [c]) @ body @ ''*/'', rest)" by (rule Cons.IH[OF cf])
  finally show ?case by simp
qed

lemma match_jsdoc_iff:
  "match_jsdoc s = Some (m, rest) \<longleftrightarrow>
   (\<exists>body. m = ''/**'' @ body @ ''*/'' \<and> s = m @ rest \<and> closes_first body)"
proof
  assume "match_jsdoc s = Some (m, rest)"
  then obtain r b where a: "starts_with ''/**'' s = Some r"
    and b: "until_close [] r = Some (b, rest)" and m: "m = ''/**'' @ b"
    by (auto simp: match_jsdoc_def split: option.splits)
  from until_close_shape[OF b] obtain body where "b = body @ ''*/''" "r = body @ ''*/'' @ rest"
    "closes_first body" by auto
  with starts_with_append[OF a] m
  show "\<exists>body. m = ''/**'' @ body @ ''*/'' \<and> s = m @ rest \<and> closes_first body"
    by (intro exI[of _ body]) simp
next
  assume "\<exists>body. m = ''/**'' @ body @ ''*/'' \<and> s = m @ rest \<and> closes_first body"
  then obtain body where m: "m = ''/**'' @ body @ ''*/''" and s: "s = m @ rest"
    and cf: "closes_first body" by blast
  have "starts_with ''/**'' s = Some (body @ ''*/'' @ rest)"
    unfolding s m by (simp only: append.assoc starts_with_self)
  moreover note until_close_complete[OF cf, of "[]" rest]
  ultimately show "match_jsdoc s = Some (m, rest)"
    by (simp add: match_jsdoc_def m)
qed

text \<open>Every text with a \<^verbatim>\<open>*/\<close> in it has a first one.\<close>

lemma first_closer: "sublist ''*/'' s \<Longrightarrow> \<exists>body rest. s = body @ ''*/'' @ rest \<and> closes_first body"
proof (induction s)
  case Nil
  then show ?case by simp
next
  case (Cons c s)
  show ?case
  proof (cases "prefix ''*/'' (c # s)")
    case True
    then obtain rest where "c # s = ''*/'' @ rest" by (auto simp: prefix_def)
    then show ?thesis by (intro exI[of _ "[]"] exI[of _ rest]) simp
  next
    case False
    with Cons.prems have "sublist ''*/'' s" by (simp add: sublist_Cons_right del: Cons_prefix_Cons)
    from Cons.IH[OF this] obtain body rest where b: "s = body @ ''*/'' @ rest" "closes_first body"
      by blast
    have "starts_with ''*/'' (c # body @ ''*/'' @ rest) = None"
      using False b(1) unfolding starts_with_None by simp
    then have "closes_first (c # body)"
      unfolding closes_first_step[of c body rest] using b(2) by simp
    with b(1) show ?thesis by (intro exI[of _ "c # body"] exI[of _ rest]) simp
  qed
qed

lemma match_jsdoc_Some:
  "match_jsdoc s \<noteq> None \<longleftrightarrow> (\<exists>y z. s = ''/**'' @ y @ ''*/'' @ z)"
proof
  assume "match_jsdoc s \<noteq> None"
  then obtain m rest where "match_jsdoc s = Some (m, rest)" by auto
  then obtain body where "m = ''/**'' @ body @ ''*/''" "s = m @ rest"
    unfolding match_jsdoc_iff by blast
  then have "s = ''/**'' @ body @ ''*/'' @ rest" by simp
  then show "\<exists>y z. s = ''/**'' @ y @ ''*/'' @ z" by blast
next
  assume "\<exists>y z. s = ''/**'' @ y @ ''*/'' @ z"
  then obtain y z where s: "s = ''/**'' @ y @ ''*/'' @ z" by blast
  have "sublist ''*/'' (y @ ''*/'' @ z)" by (rule sublist_appendI)
  from first_closer[OF this] obtain body rest where b: "y @ ''*/'' @ z = body @ ''*/'' @ rest"
    "closes_first body" by blast
  have "match_jsdoc s = Some (''/**'' @ body @ ''*/'', rest)"
    unfolding match_jsdoc_iff using s b by (intro exI[of _ body]) simp
  then show "match_jsdoc s \<noteq> None" by simp
qed

lemma holds_comment_Cons:
  "holds_comment (c # s) \<longleftrightarrow> (\<exists>y z. c # s = ''/**'' @ y @ ''*/'' @ z) \<or> holds_comment s"
proof
  assume "holds_comment (c # s)"
  then obtain x y z where a: "c # s = x @ ''/**'' @ y @ ''*/'' @ z" unfolding holds_comment_def by blast
  show "(\<exists>y z. c # s = ''/**'' @ y @ ''*/'' @ z) \<or> holds_comment s"
  proof (cases x)
    case Nil
    with a show ?thesis by auto
  next
    case (Cons d x')
    with a have "s = x' @ ''/**'' @ y @ ''*/'' @ z" by simp
    then show ?thesis unfolding holds_comment_def by blast
  qed
next
  assume "(\<exists>y z. c # s = ''/**'' @ y @ ''*/'' @ z) \<or> holds_comment s"
  then show "holds_comment (c # s)"
  proof
    assume "\<exists>y z. c # s = ''/**'' @ y @ ''*/'' @ z"
    then obtain y z where "c # s = [] @ ''/**'' @ y @ ''*/'' @ z" by auto
    then show ?thesis unfolding holds_comment_def by blast
  next
    assume "holds_comment s"
    then obtain x y z where "s = x @ ''/**'' @ y @ ''*/'' @ z" unfolding holds_comment_def by blast
    then have "c # s = (c # x) @ ''/**'' @ y @ ''*/'' @ z" by simp
    then show ?thesis unfolding holds_comment_def by blast
  qed
qed

lemma holds_comment_Nil [simp]: "\<not> holds_comment []"
  by (simp add: holds_comment_def)

lemma holds_comment_append: "holds_comment s \<Longrightarrow> holds_comment (m @ s)"
  by (induction m) (auto simp: holds_comment_Cons)

lemma all_jsdocs_Nil_iff: "all_jsdocs s = [] \<longleftrightarrow> \<not> holds_comment s"
proof (induction s rule: all_jsdocs.induct)
  case 1
  show ?case by simp
next
  case (2 c s)
  show ?case
  proof (cases "match_jsdoc (c # s)")
    case None
    then have "\<not> (\<exists>y z. c # s = ''/**'' @ y @ ''*/'' @ z)"
      using match_jsdoc_Some[of "c # s"] by simp
    with 2(1)[OF None] None show ?thesis by (simp add: holds_comment_Cons)
  next
    case (Some p)
    then have "\<exists>y z. c # s = ''/**'' @ y @ ''*/'' @ z"
      using match_jsdoc_Some[of "c # s"] by simp
    with Some show ?thesis by (auto simp: holds_comment_Cons split: prod.splits)
  qed
qed

lemma holds_comment_iff: "holds_comment s \<longleftrightarrow> all_jsdocs s \<noteq> []"
  by (simp add: all_jsdocs_Nil_iff)

text \<open>The search over a text that lies outside the comments, with a comment behind it.\<close>

lemma opener_straddle:
  assumes "prefix ''/**'' (c # a @ ''/**'' @ r)"
  shows "prefix ''/**'' (c # a)"
proof (cases a)
  case Nil
  with assms show ?thesis by simp
next
  case (Cons d a')
  show ?thesis
  proof (cases a')
    case Nil
    with Cons assms show ?thesis by simp
  next
    case (Cons e a'')
    with \<open>a = d # a'\<close> assms show ?thesis by auto
  qed
qed

lemma match_jsdoc_not_opener: "\<not> prefix ''/**'' s \<Longrightarrow> match_jsdoc s = None"
  by (simp add: match_jsdoc_def starts_with_None[symmetric])

lemma all_jsdocs_comment:
  "closes_first body \<Longrightarrow> all_jsdocs (''/**'' @ body @ ''*/'' @ r) = (''/**'' @ body @ ''*/'') # all_jsdocs r"
proof -
  assume cf: "closes_first body"
  have "match_jsdoc (''/**'' @ body @ ''*/'' @ r) = Some (''/**'' @ body @ ''*/'', r)"
    unfolding match_jsdoc_iff using cf by (intro exI[of _ body]) simp
  then show ?thesis by simp
qed

lemma all_jsdocs_outside:
  assumes "outside_comments a" "closes_first body"
  shows "all_jsdocs (a @ ''/**'' @ body @ ''*/'' @ b) =
         all_jsdocs a @ (''/**'' @ body @ ''*/'') # all_jsdocs b"
  using assms(1)
proof (induction rule: outside_comments.induct)
  case empty
  show ?case using all_jsdocs_comment[OF assms(2), of b] by simp
next
  case (comment body' a)
  have "all_jsdocs ((''/**'' @ body' @ ''*/'' @ a) @ ''/**'' @ body @ ''*/'' @ b) =
        all_jsdocs (''/**'' @ body' @ ''*/'' @ (a @ ''/**'' @ body @ ''*/'' @ b))" by simp
  also have "\<dots> = (''/**'' @ body' @ ''*/'') # all_jsdocs (a @ ''/**'' @ body @ ''*/'' @ b)"
    by (rule all_jsdocs_comment[OF comment(1)])
  also have "\<dots> = all_jsdocs (''/**'' @ body' @ ''*/'' @ a) @ (''/**'' @ body @ ''*/'') # all_jsdocs b"
    unfolding comment.IH all_jsdocs_comment[OF comment(1), of a] by simp
  finally show ?case .
next
  case (other c a)
  have "\<not> prefix ''/**'' (c # a @ ''/**'' @ body @ ''*/'' @ b)"
    using other(1) opener_straddle[of c a "body @ ''*/'' @ b"] by blast
  then have 1: "match_jsdoc (c # a @ ''/**'' @ body @ ''*/'' @ b) = None"
    by (rule match_jsdoc_not_opener)
  have 2: "match_jsdoc (c # a) = None" using other(1) by (rule match_jsdoc_not_opener)
  show ?case using 1 2 other.IH by simp
qed

lemma nearest_comment_last:
  assumes "nearest_comment front body"
  shows "all_jsdocs front \<noteq> [] \<and> last (all_jsdocs front) = ''/**'' @ body @ ''*/''"
proof -
  from assms obtain a b where f: "front = a @ ''/**'' @ body @ ''*/'' @ b"
    and o: "outside_comments a" and cf: "closes_first body" and nb: "\<not> holds_comment b"
    unfolding nearest_comment_def by blast
  have "all_jsdocs b = []" using nb by (simp add: all_jsdocs_Nil_iff)
  then have "all_jsdocs front = all_jsdocs a @ [''/**'' @ body @ ''*/'']"
    unfolding f all_jsdocs_outside[OF o cf] by simp
  then show ?thesis by simp
qed

lemma last_nearest_comment:
  "all_jsdocs s \<noteq> [] \<Longrightarrow> \<exists>body. last (all_jsdocs s) = ''/**'' @ body @ ''*/'' \<and> nearest_comment s body"
proof (induction s rule: all_jsdocs.induct)
  case 1
  then show ?case by simp
next
  case (2 c s)
  show ?case
  proof (cases "match_jsdoc (c # s)")
    case None
    with 2(3) have ne: "all_jsdocs s \<noteq> []" by simp
    from 2(1)[OF None ne] obtain body a b where l: "last (all_jsdocs s) = ''/**'' @ body @ ''*/''"
      and s: "s = a @ ''/**'' @ body @ ''*/'' @ b" and o: "outside_comments a"
      and cf: "closes_first body" and nb: "\<not> holds_comment b"
      unfolding nearest_comment_def by blast
    have "\<not> prefix ''/**'' (c # a)"
    proof
      assume "prefix ''/**'' (c # a)"
      then obtain y where "c # a = ''/**'' @ y" by (auto simp: prefix_def)
      then have "c # s = ''/**'' @ (y @ ''/**'' @ body) @ ''*/'' @ b" using s by simp
      then have "match_jsdoc (c # s) \<noteq> None" unfolding match_jsdoc_Some by blast
      with None show False by simp
    qed
    then have "outside_comments (c # a)" using o by (rule outside_comments.other)
    moreover have "c # s = (c # a) @ ''/**'' @ body @ ''*/'' @ b" using s by simp
    ultimately have "nearest_comment (c # s) body" unfolding nearest_comment_def using cf nb by blast
    moreover have "last (all_jsdocs (c # s)) = ''/**'' @ body @ ''*/''" using None l by simp
    ultimately show ?thesis by blast
  next
    case (Some p)
    obtain m rest where p: "p = (m, rest)" by (cases p)
    from Some[unfolded p match_jsdoc_iff] obtain body0 where m: "m = ''/**'' @ body0 @ ''*/''"
      and cs: "c # s = m @ rest" and cf0: "closes_first body0" by blast
    have aj: "all_jsdocs (c # s) = m # all_jsdocs rest" using Some p by simp
    show ?thesis
    proof (cases "all_jsdocs rest = []")
      case True
      then have "\<not> holds_comment rest" by (simp add: all_jsdocs_Nil_iff)
      moreover have "c # s = [] @ ''/**'' @ body0 @ ''*/'' @ rest" using cs m by simp
      ultimately have "nearest_comment (c # s) body0"
        unfolding nearest_comment_def using cf0 outside_comments.empty by blast
      moreover have "last (all_jsdocs (c # s)) = ''/**'' @ body0 @ ''*/''" using aj True m by simp
      ultimately show ?thesis by blast
    next
      case False
      from 2(2)[OF Some[unfolded p] refl False] obtain body a b where
        l: "last (all_jsdocs rest) = ''/**'' @ body @ ''*/''"
        and s: "rest = a @ ''/**'' @ body @ ''*/'' @ b" and o: "outside_comments a"
        and cf: "closes_first body" and nb: "\<not> holds_comment b"
        unfolding nearest_comment_def by blast
      have "outside_comments (''/**'' @ body0 @ ''*/'' @ a)"
        using cf0 o by (rule outside_comments.comment)
      moreover have "c # s = (''/**'' @ body0 @ ''*/'' @ a) @ ''/**'' @ body @ ''*/'' @ b"
        using cs m s by simp
      ultimately have "nearest_comment (c # s) body"
        unfolding nearest_comment_def using cf nb by blast
      moreover have "last (all_jsdocs (c # s)) = ''/**'' @ body @ ''*/''" using aj False l by simp
      ultimately show ?thesis by blast
    qed
  qed
qed

subsection \<open>The cleaning of a comment\<close>

lemma split_lines_not_Nil [simp]: "split_lines s \<noteq> []"
  by (induction s) (auto split: list.splits)

lemma split_lines_join: "intercalate ''\<newline>'' (split_lines s) = s"
proof (induction s)
  case (Cons c s)
  obtain l ls where l: "split_lines s = l # ls" by (cases "split_lines s") auto
  show ?case
  proof (cases "c = CHR 0x0A")
    case True
    with Cons l show ?thesis by simp
  next
    case False
    with Cons l show ?thesis by (cases ls) auto
  qed
qed simp

lemma split_lines_no_newline: "\<not> list_ex (\<lambda>l. CHR 0x0A \<in> set l) (split_lines s)"
proof (induction s)
  case (Cons c s)
  obtain l ls where l: "split_lines s = l # ls" by (cases "split_lines s") auto
  with Cons show ?case by (auto simp: list_ex_iff)
qed simp

lemma unmarked_space:
  assumes "spaces ws" "w \<in> set white_space"
  shows "unmarked (ws @ ''*'' @ w @ r) r"
proof -
  have "\<exists>w'. w' \<in> set white_space \<and> w @ r = w' @ r" using assms(2) by blast
  then have "spaces ws \<and> ws @ ''*'' @ w @ r = ws @ ''*'' @ (w @ r) \<and>
         ((\<exists>w'. w' \<in> set white_space \<and> w @ r = w' @ r) \<or>
          (\<not> (\<exists>w' r'. w' \<in> set white_space \<and> w @ r = w' @ r') \<and> r = w @ r))"
    using assms(1) by simp
  then show ?thesis unfolding unmarked_def by (intro disjI1 exI[of _ ws] exI[of _ "w @ r"])
qed

lemma unmarked_no_space:
  assumes "spaces ws" "skip_space r = None"
  shows "unmarked (ws @ ''*'' @ r) r"
proof -
  have "\<not> (\<exists>w r'. w \<in> set white_space \<and> r = w @ r')"
  proof
    assume "\<exists>w r'. w \<in> set white_space \<and> r = w @ r'"
    then obtain w r' where "w \<in> set white_space" "r = w @ r'" by blast
    then have "skip_space r = Some r'" by (simp add: skip_space_white)
    with assms(2) show False by simp
  qed
  then have "spaces ws \<and> ws @ ''*'' @ r = ws @ ''*'' @ r \<and>
         ((\<exists>w. w \<in> set white_space \<and> r = w @ r) \<or>
          (\<not> (\<exists>w r'. w \<in> set white_space \<and> r = w @ r') \<and> r = r))"
    using assms(1) by simp
  then show ?thesis unfolding unmarked_def by (intro disjI1 exI[of _ ws] exI[of _ r])
qed

lemma unmarked_none:
  assumes "\<not> (\<exists>ws l'. spaces ws \<and> l = ws @ ''*'' @ l')"
  shows "unmarked l l"
  unfolding unmarked_def using assms by (intro disjI2 conjI) simp_all

lemma strip_marker_unmarked: "unmarked l (strip_marker l)"
proof (cases "starts_with ''*'' (drop_spaces l)")
  case None
  have "\<not> (\<exists>ws l'. spaces ws \<and> l = ws @ ''*'' @ l')"
  proof
    assume "\<exists>ws l'. spaces ws \<and> l = ws @ ''*'' @ l'"
    then obtain ws l' where ws: "spaces ws" "l = ws @ ''*'' @ l'" by blast
    have "drop_spaces l = ''*'' @ l'"
      unfolding ws(2) by (rule drop_spaces_eq[OF ws(1)]) (simp add: skip_space_no_lead space_lead_def)
    with None show False by simp
  qed
  then have "unmarked l l" by (rule unmarked_none)
  moreover have "strip_marker l = l" using None by (simp add: strip_marker_def)
  ultimately show ?thesis by simp
next
  case (Some r)
  obtain ws where ws: "spaces ws" "l = ws @ drop_spaces l" using drop_spaces_shape[of l] by blast
  have l: "l = ws @ ''*'' @ r" using ws(2) unfolding starts_with_append[OF Some] .
  show ?thesis
  proof (cases "skip_space r")
    case None
    have "strip_marker l = r" using Some None by (simp add: strip_marker_def)
    moreover have "unmarked (ws @ ''*'' @ r) r" using ws(1) None by (rule unmarked_no_space)
    ultimately show ?thesis using l by simp
  next
    case (Some r')
    from skip_space_Some[OF this] obtain w where w: "w \<in> set white_space" "r = w @ r'" by blast
    have "strip_marker l = r'"
      using \<open>starts_with ''*'' (drop_spaces l) = Some r\<close> Some by (simp add: strip_marker_def)
    moreover have "unmarked (ws @ ''*'' @ w @ r') r'" using ws(1) w(1) by (rule unmarked_space)
    ultimately show ?thesis using l w(2) by simp
  qed
qed

lemma list_all2_strip_marker: "list_all2 unmarked ls (map strip_marker ls)"
  by (induction ls) (simp_all add: strip_marker_unmarked)

text \<open>The \<^verbatim>\<open>*/\<close> that ends a comment is the only one behind its \<^verbatim>\<open>/**\<close>.\<close>

lemma first_closer_unique:
  assumes "closes_first body" "body @ ''*/'' = y @ ''*/'' @ r"
  shows "r = [] \<and> y = body"
proof -
  have "r = []"
  proof (rule ccontr)
    assume "r \<noteq> []"
    then obtain r' c where r: "r = r' @ [c]" by (cases r rule: rev_cases) auto
    with assms(2) have "(body @ ''*'') @ ''/'' = (y @ ''*/'' @ r') @ [c]" by simp
    then have "body @ ''*'' = y @ ''*/'' @ r'" by (simp only: append1_eq_conv)
    then have "sublist ''*/'' (body @ ''*'')" unfolding sublist_def by blast
    with assms(1) show False by (simp add: closes_first_def)
  qed
  with assms(2) show ?thesis by simp
qed

lemma match_closing_shape:
  "match_closing s = Some r \<Longrightarrow> \<exists>ws. spaces ws \<and> s = ws @ ''*/'' @ r \<and> line_end r"
proof -
  assume a: "match_closing s = Some r"
  then have 1: "starts_with ''*/'' (drop_spaces s) = Some r" and 2: "line_end r"
    by (auto simp: match_closing_def split: option.splits if_splits)
  obtain ws where ws: "spaces ws" "s = ws @ drop_spaces s" using drop_spaces_shape[of s] by blast
  have "s = ws @ ''*/'' @ r" using ws(2) unfolding starts_with_append[OF 1] .
  with ws(1) 2 show ?thesis by blast
qed

lemma match_closing_end: "spaces ws \<Longrightarrow> match_closing (ws @ ''*/'') = Some []"
proof -
  assume ws: "spaces ws"
  have "drop_spaces (ws @ ''*/'') = ''*/''"
    by (rule drop_spaces_eq[OF ws]) (simp add: skip_space_no_lead space_lead_def)
  then show ?thesis by (simp add: match_closing_def line_end_def)
qed

lemma openers_removed_Nil: "openers_removed [] []"
  unfolding openers_removed_def by (intro exI[of _ "[[]]"]) simp

lemma openers_removed_opener:
  assumes "openers_removed s r"
  shows "openers_removed (''/**'' @ s) r"
proof -
  from assms obtain ps where ps: "ps \<noteq> []" "s = intercalate ''/**'' ps" "r = concat ps"
    "\<not> list_ex (sublist ''/**'') ps" unfolding openers_removed_def by blast
  obtain p ps' where p: "ps = p # ps'" using ps(1) by (cases ps) auto
  have "''/**'' @ s = intercalate ''/**'' ([] # ps)" using ps(2) p by simp
  moreover have "r = concat ([] # ps)" using ps(3) by simp
  moreover have "\<not> list_ex (sublist ''/**'') ([] # ps)" using ps(4) by simp
  ultimately show ?thesis unfolding openers_removed_def by blast
qed

lemma openers_removed_keep:
  assumes "openers_removed s r" "\<not> prefix ''/**'' (c # s)"
  shows "openers_removed (c # s) (c # r)"
proof -
  from assms obtain ps where ps: "ps \<noteq> []" "s = intercalate ''/**'' ps" "r = concat ps"
    "\<not> list_ex (sublist ''/**'') ps" unfolding openers_removed_def by blast
  obtain p ps' where p: "ps = p # ps'" using ps(1) by (cases ps) auto
  have pre: "prefix p s" using ps(2) p by (cases ps') auto
  have "\<not> prefix ''/**'' (c # p)"
  proof
    assume "prefix ''/**'' (c # p)"
    moreover have "prefix (c # p) (c # s)" using pre by simp
    ultimately have "prefix ''/**'' (c # s)" by (rule prefix_order.order_trans)
    with assms(2) show False by simp
  qed
  moreover have "\<not> sublist ''/**'' p" using ps(4) p by simp
  ultimately have "\<not> sublist ''/**'' (c # p)" by (simp add: sublist_Cons_right del: Cons_prefix_Cons)
  then have "\<not> list_ex (sublist ''/**'') ((c # p) # ps')" using ps(4) p by simp
  moreover have "c # s = intercalate ''/**'' ((c # p) # ps')" using ps(2) p by (cases ps') auto
  moreover have "c # r = concat ((c # p) # ps')" using ps(3) p by simp
  ultimately show ?thesis unfolding openers_removed_def by blast
qed

text \<open>A stretch of text in which the pattern for \<^verbatim>\<open>*/\<close> matches nowhere.\<close>

lemma strip_delimiters_openers:
  assumes "\<forall>v1 v2. v = v1 @ v2 \<longrightarrow> line_start (f @ v1) \<longrightarrow> match_closing v2 = None"
  shows "openers_removed v (strip_delimiters f v)"
  using assms
proof (induction f v rule: strip_delimiters.induct)
  case (1 f)
  show ?case by (simp add: openers_removed_Nil)
next
  case (2 f c s)
  show ?case
  proof (cases "starts_with ''/**'' (c # s)")
    case (Some rest)
    have cs: "c # s = ''/**'' @ rest" using starts_with_append[OF Some] .
    have "\<forall>v1 v2. rest = v1 @ v2 \<longrightarrow> line_start ((f @ ''/**'') @ v1) \<longrightarrow> match_closing v2 = None"
    proof (intro allI impI)
      fix v1 v2 assume "rest = v1 @ v2" "line_start ((f @ ''/**'') @ v1)"
      then show "match_closing v2 = None"
        using "2.prems"[rule_format, of "''/**'' @ v1" v2] cs by simp
    qed
    from "2.IH"(3)[OF Some this] have "openers_removed rest (strip_delimiters (f @ ''/**'') rest)" .
    then have "openers_removed (''/**'' @ rest) (strip_delimiters (f @ ''/**'') rest)"
      by (rule openers_removed_opener)
    then show ?thesis using Some cs by simp
  next
    case None
    have here: "(if line_start f then match_closing (c # s) else None) = None"
      using "2.prems"[rule_format, of "[]" "c # s"] by simp
    have "\<forall>v1 v2. s = v1 @ v2 \<longrightarrow> line_start ((f @ [c]) @ v1) \<longrightarrow> match_closing v2 = None"
    proof (intro allI impI)
      fix v1 v2 assume "s = v1 @ v2" "line_start ((f @ [c]) @ v1)"
      then show "match_closing v2 = None"
        using "2.prems"[rule_format, of "c # v1" v2] by simp
    qed
    from "2.IH"(1)[OF None here this]
    have "openers_removed s (strip_delimiters (f @ [c]) s)" .
    moreover have "\<not> prefix ''/**'' (c # s)" using None starts_with_None by blast
    ultimately have "openers_removed (c # s) (c # strip_delimiters (f @ [c]) s)"
      by (rule openers_removed_keep)
    then show ?thesis using None here by simp
  qed
qed

text \<open>A stretch of text \<open>x\<close> with a \<^verbatim>\<open>*/\<close> behind it that the pattern matches, and matches
  from nowhere inside \<open>x\<close>.\<close>

lemma strip_delimiters_closing:
  assumes "spaces w" "line_start (f @ x)"
    and "\<forall>x1 x2. x = x1 @ x2 \<longrightarrow> x2 \<noteq> [] \<longrightarrow> line_start (f @ x1) \<longrightarrow>
           match_closing (x2 @ w @ ''*/'') = None"
    and "\<forall>x1 x2. x = x1 @ x2 \<longrightarrow> x2 \<noteq> [] \<longrightarrow> prefix ''/**'' (x2 @ w @ ''*/'') \<longrightarrow> prefix ''/**'' x2"
  shows "openers_removed x (strip_delimiters f (x @ w @ ''*/''))"
  using assms(2-)
proof (induction "length x" arbitrary: x f rule: less_induct)
  case less
  show ?case
  proof (cases x)
    case Nil
    obtain c s where cs: "w @ ''*/'' = c # s" by (cases "w @ ''*/''") auto
    have "\<not> prefix ''/**'' (w @ ''*/'')"
    proof (cases w)
      case Nil
      then show ?thesis by simp
    next
      case (Cons d w')
      with spaces_lead[OF assms(1)] have "space_lead d" by simp
      then have "d \<noteq> CHR ''/''" by (auto simp: space_lead_def)
      with Cons show ?thesis by simp
    qed
    then have 1: "starts_with ''/**'' (c # s) = None" unfolding cs using starts_with_None by blast
    have 2: "match_closing (c # s) = Some []" using match_closing_end[OF assms(1)] cs by simp
    have 3: "line_start f" using less.prems(1) Nil by simp
    have "strip_delimiters f (c # s) = []" using 1 2 3 by simp
    then show ?thesis using Nil cs by (simp add: openers_removed_Nil)
  next
    case (Cons c x')
    have here: "(if line_start f then match_closing (c # x' @ w @ ''*/'') else None) = None"
      using less.prems(2)[rule_format, of "[]" x] Cons by simp
    show ?thesis
    proof (cases "starts_with ''/**'' (c # x' @ w @ ''*/'')")
      case (Some rest)
      then have "starts_with ''/**'' (x @ w @ ''*/'') \<noteq> None" using Cons by simp
      then have "prefix ''/**'' (x @ w @ ''*/'')" using starts_with_prefix by blast
      moreover have "x = [] @ x" "x \<noteq> []" using Cons by simp_all
      ultimately have "prefix ''/**'' x" using less.prems(3) by blast
      then obtain x'' where x: "x = ''/**'' @ x''" by (auto simp: prefix_def)
      have rest: "rest = x'' @ w @ ''*/''" using starts_with_append[OF Some] x Cons by simp
      have len: "length x'' < length x" using x by simp
      have a: "line_start ((f @ ''/**'') @ x'')" using less.prems(1) x by simp
      have b: "\<forall>x1 x2. x'' = x1 @ x2 \<longrightarrow> x2 \<noteq> [] \<longrightarrow> line_start ((f @ ''/**'') @ x1) \<longrightarrow>
           match_closing (x2 @ w @ ''*/'') = None"
      proof (intro allI impI)
        fix x1 x2 assume "x'' = x1 @ x2" "x2 \<noteq> []" "line_start ((f @ ''/**'') @ x1)"
        then show "match_closing (x2 @ w @ ''*/'') = None"
          using less.prems(2)[rule_format, of "''/**'' @ x1" x2] x by simp
      qed
      have c: "\<forall>x1 x2. x'' = x1 @ x2 \<longrightarrow> x2 \<noteq> [] \<longrightarrow> prefix ''/**'' (x2 @ w @ ''*/'') \<longrightarrow> prefix ''/**'' x2"
      proof (intro allI impI)
        fix x1 x2 assume "x'' = x1 @ x2" "x2 \<noteq> []" "prefix ''/**'' (x2 @ w @ ''*/'')"
        then show "prefix ''/**'' x2"
          using less.prems(3)[rule_format, of "''/**'' @ x1" x2] x by simp
      qed
      from less.hyps[OF len a b c]
      have "openers_removed x'' (strip_delimiters (f @ ''/**'') (x'' @ w @ ''*/''))" .
      then have "openers_removed x (strip_delimiters (f @ ''/**'') (x'' @ w @ ''*/''))"
        unfolding x by (rule openers_removed_opener)
      moreover have "strip_delimiters f (x @ w @ ''*/'') = strip_delimiters (f @ ''/**'') (x'' @ w @ ''*/'')"
        using Some rest Cons by simp
      ultimately show ?thesis by simp
    next
      case None
      have len: "length x' < length x" using Cons by simp
      have a: "line_start ((f @ [c]) @ x')" using less.prems(1) Cons by simp
      have b: "\<forall>x1 x2. x' = x1 @ x2 \<longrightarrow> x2 \<noteq> [] \<longrightarrow> line_start ((f @ [c]) @ x1) \<longrightarrow>
           match_closing (x2 @ w @ ''*/'') = None"
      proof (intro allI impI)
        fix x1 x2 assume "x' = x1 @ x2" "x2 \<noteq> []" "line_start ((f @ [c]) @ x1)"
        then show "match_closing (x2 @ w @ ''*/'') = None"
          using less.prems(2)[rule_format, of "c # x1" x2] Cons by simp
      qed
      have c: "\<forall>x1 x2. x' = x1 @ x2 \<longrightarrow> x2 \<noteq> [] \<longrightarrow> prefix ''/**'' (x2 @ w @ ''*/'') \<longrightarrow> prefix ''/**'' x2"
      proof (intro allI impI)
        fix x1 x2 assume "x' = x1 @ x2" "x2 \<noteq> []" "prefix ''/**'' (x2 @ w @ ''*/'')"
        then show "prefix ''/**'' x2"
          using less.prems(3)[rule_format, of "c # x1" x2] Cons by simp
      qed
      from less.hyps[OF len a b c]
      have "openers_removed x' (strip_delimiters (f @ [c]) (x' @ w @ ''*/''))" .
      moreover have "\<not> prefix ''/**'' (c # x')"
      proof
        assume "prefix ''/**'' (c # x')"
        then have "prefix ''/**'' ((c # x') @ w @ ''*/'')" by (rule prefix_prefix)
        then have "starts_with ''/**'' ((c # x') @ w @ ''*/'') \<noteq> None"
          using starts_with_prefix by blast
        with None show False by simp
      qed
      ultimately have "openers_removed (c # x') (c # strip_delimiters (f @ [c]) (x' @ w @ ''*/''))"
        by (rule openers_removed_keep)
      moreover have "strip_delimiters f (x @ w @ ''*/'') = c # strip_delimiters (f @ [c]) (x' @ w @ ''*/'')"
        using None here Cons by simp
      ultimately show ?thesis using Cons by simp
    qed
  qed
qed

lemma line_start_last:
  assumes "line_start (f @ x)" "f \<noteq> []" "last f = CHR ''*''"
  shows "x \<noteq> [] \<and> last x \<notin> set ''/**''"
proof -
  from assms(1,2) obtain tm where tm: "tm \<in> set line_terminators" "suffix tm (f @ x)"
    by (auto simp: line_start_def list_ex_iff)
  have ne: "tm \<noteq> []" and l: "last tm \<notin> set ''/**''"
    using tm(1) by (auto simp: line_terminators_def)
  have "last (f @ x) = last tm" using tm(2) ne by (auto simp: suffix_def)
  with l have nl: "last (f @ x) \<notin> set ''/**''" by simp
  have "x \<noteq> []"
  proof
    assume "x = []"
    with nl assms(3) show False by simp
  qed
  with nl show ?thesis by simp
qed

lemma strip_delimiters_comment:
  assumes cf: "closes_first body"
  shows "delimiters_removed body (strip_delimiters [] (''/**'' @ body @ ''*/''))"
proof -
  have step: "strip_delimiters [] (''/**'' @ body @ ''*/'') = strip_delimiters ''/**'' (body @ ''*/'')"
    by simp
  have closing: "r = [] \<and> body = v1 @ ws'"
    if "body @ ''*/'' = v1 @ v2" "match_closing v2 = Some r" "spaces ws'" "v2 = ws' @ ''*/'' @ r"
    for v1 v2 r ws'
  proof -
    from that(1,4) have "body @ ''*/'' = (v1 @ ws') @ ''*/'' @ r" by simp
    from first_closer_unique[OF cf this] show ?thesis by simp
  qed
  show ?thesis
  proof (cases "\<exists>x ws. body = x @ ws \<and> spaces ws \<and> line_start (''/**'' @ x)")
    case False
    have "\<forall>v1 v2. body @ ''*/'' = v1 @ v2 \<longrightarrow> line_start (''/**'' @ v1) \<longrightarrow> match_closing v2 = None"
    proof (intro allI impI, rule ccontr)
      fix v1 v2 assume a: "body @ ''*/'' = v1 @ v2" "line_start (''/**'' @ v1)"
        and "match_closing v2 \<noteq> None"
      then obtain r where r: "match_closing v2 = Some r" by auto
      from match_closing_shape[OF r] obtain ws' where ws': "spaces ws'" "v2 = ws' @ ''*/'' @ r"
        by blast
      from closing[OF a(1) r ws'] have "body = v1 @ ws'" by simp
      with ws'(1) a(2) False show False by blast
    qed
    from strip_delimiters_openers[OF this]
    have "openers_removed (body @ ''*/'') (strip_delimiters ''/**'' (body @ ''*/''))" .
    with False show ?thesis unfolding delimiters_removed_def step by blast
  next
    case True
    define Q where "Q n = (\<exists>x ws. body = x @ ws \<and> spaces ws \<and> line_start (''/**'' @ x) \<and> length x = n)"
      for n
    from True have "\<exists>n. Q n" unfolding Q_def by blast
    then obtain n where n: "Q n" "\<forall>m<n. \<not> Q m"
      using exists_least_iff[of Q] by blast
    from n(1) obtain x ws where x: "body = x @ ws" "spaces ws" "line_start (''/**'' @ x)"
      "length x = n" unfolding Q_def by blast
    have least: "\<not> (\<exists>x' ws'. body = x' @ ws' \<and> spaces ws' \<and> line_start (''/**'' @ x') \<and>
                       length x' < length x)"
    proof
      assume "\<exists>x' ws'. body = x' @ ws' \<and> spaces ws' \<and> line_start (''/**'' @ x') \<and>
                       length x' < length x"
      then obtain x' ws' where "body = x' @ ws'" "spaces ws'" "line_start (''/**'' @ x')"
        "length x' < length x" by blast
      then have "Q (length x')" "length x' < n" unfolding Q_def using x(4) by blast+
      with n(2) show False by blast
    qed
    have a: "\<forall>x1 x2. x = x1 @ x2 \<longrightarrow> x2 \<noteq> [] \<longrightarrow> line_start (''/**'' @ x1) \<longrightarrow>
           match_closing (x2 @ ws @ ''*/'') = None"
    proof (intro allI impI, rule ccontr)
      fix x1 x2 assume s: "x = x1 @ x2" "x2 \<noteq> []" "line_start (''/**'' @ x1)"
        and "match_closing (x2 @ ws @ ''*/'') \<noteq> None"
      then obtain r where r: "match_closing (x2 @ ws @ ''*/'') = Some r" by auto
      from match_closing_shape[OF r] obtain ws' where ws': "spaces ws'"
        "x2 @ ws @ ''*/'' = ws' @ ''*/'' @ r" by blast
      have "body @ ''*/'' = x1 @ (x2 @ ws @ ''*/'')" using x(1) s(1) by simp
      from closing[OF this r ws'] have "body = x1 @ ws'" by simp
      moreover have "length x1 < length x" using s(1,2) by simp
      ultimately show False using least ws'(1) s(3) by blast
    qed
    have xl: "x \<noteq> []" "last x \<notin> set ''/**''"
      using line_start_last[OF x(3)] by simp_all
    have b: "\<forall>x1 x2. x = x1 @ x2 \<longrightarrow> x2 \<noteq> [] \<longrightarrow> prefix ''/**'' (x2 @ ws @ ''*/'') \<longrightarrow>
               prefix ''/**'' x2"
    proof (intro allI impI)
      fix x1 x2 assume s: "x = x1 @ x2" "x2 \<noteq> []" "prefix ''/**'' (x2 @ ws @ ''*/'')"
      have "prefix x2 (x2 @ ws @ ''*/'')" by simp
      from prefix_same_cases[OF s(3) this] show "prefix ''/**'' x2"
      proof
        assume "prefix x2 ''/**''"
        then have "set x2 \<subseteq> set ''/**''" by (rule set_mono_prefix)
        moreover have "last x2 \<in> set x2" using s(2) by simp
        moreover have "last x2 = last x" using s(1,2) by simp
        ultimately have False using xl(2) by auto
        then show ?thesis ..
      qed
    qed
    from strip_delimiters_closing[OF x(2) x(3) a b]
    have "openers_removed x (strip_delimiters ''/**'' (body @ ''*/''))" using x(1) by simp
    with x(1,2,3) least show ?thesis unfolding delimiters_removed_def step by blast
  qed
qed

lemma cleanJsDoc_cleaned:
  assumes "closes_first body"
  shows "cleaned body (cleanJsDoc (''/**'' @ body @ ''*/''))"
proof -
  let ?t = "strip_delimiters [] (''/**'' @ body @ ''*/'')"
  let ?ls = "split_lines ?t"
  let ?kept = "filter (\<lambda>l. \<not> spaces l) ?ls"
  have "(\<lambda>line. drop_spaces line \<noteq> []) = (\<lambda>l. \<not> spaces l)" by (simp add: spaces_iff)
  then have "cleanJsDoc (''/**'' @ body @ ''*/'') = intercalate ''\<newline>'' (map strip_marker ?kept)"
    by (simp add: cleanJsDoc_def)
  moreover have "delimiters_removed body ?t" by (rule strip_delimiters_comment[OF assms])
  moreover have "?ls \<noteq> []" by simp
  moreover have "?t = intercalate ''\<newline>'' ?ls" by (simp add: split_lines_join)
  moreover have "\<not> list_ex (\<lambda>l. CHR 0x0A \<in> set l) ?ls" by (rule split_lines_no_newline)
  moreover have "list_all2 unmarked ?kept (map strip_marker ?kept)" by (rule list_all2_strip_marker)
  ultimately show ?thesis unfolding cleaned_def by blast
qed

subsection \<open>The pairs of a test file\<close>

lemma suffix_starts_with: "starts_with a s = Some r \<Longrightarrow> suffix r s"
  by (auto dest: starts_with_append simp: suffix_def)

lemma match_describe_suffix: "match_describe s = Some (t, rest) \<Longrightarrow> suffix rest s"
proof -
  assume "match_describe s = Some (t, rest)"
  then have "test_group s t rest" by (rule match_describe_test_group)
  then show ?thesis unfolding test_group_def group_tail_def suffix_def
    by (metis append.assoc)
qed

lemma take_suffix: "suffix rest s \<Longrightarrow> take (length s - length rest) s @ rest = s"
  by (auto simp: suffix_def)

lemma describe_loop_declarations:
  "describe_loop b s =
     map (\<lambda>d. \<lparr>title = snd d, test_description = cleanJsDoc (last (all_jsdocs (fst d))),
                test_context = snd d\<rparr>)
       (filter (\<lambda>d. holds_comment (fst d)) (describe_declarations b s))"
  by (induction b s rule: describe_loop.induct)
     (auto simp: holds_comment_iff split: option.splits list.splits)

lemma describe_declarations_sound:
  "d \<in> set (describe_declarations b s) \<Longrightarrow>
   \<exists>rest tail. b @ s = fst d @ rest \<and> test_group rest (snd d) tail"
proof (induction b s rule: describe_declarations.induct)
  case (2 b c s)
  show ?case
  proof (cases "match_describe (c # s)")
    case None
    with 2 show ?thesis by auto
  next
    case (Some m)
    obtain ctx rest where m: "m = (ctx, rest)" by (cases m)
    from Some m have md: "match_describe (c # s) = Some (ctx, rest)" by simp
    from 2(3) md consider "d = (b, ctx)"
      | "d \<in> set (describe_declarations (b @ take (length (c # s) - length rest) (c # s)) rest)"
      by auto
    then show ?thesis
    proof cases
      case 1
      with match_describe_test_group[OF md] show ?thesis by auto
    next
      case 2
      from "2.IH"(2)[OF md refl 2] obtain rest' tail where
        "(b @ take (length (c # s) - length rest) (c # s)) @ rest = fst d @ rest'"
        "test_group rest' (snd d) tail" by blast
      moreover have "take (length (c # s) - length rest) (c # s) @ rest = c # s"
        by (rule take_suffix[OF match_describe_suffix[OF md]])
      ultimately show ?thesis by (metis append.assoc)
    qed
  qed
qed simp

lemmas docs_regex_defs = extractTestDescriptions_def match_describe_def describe_tail_def
  is_quote_def match_jsdoc_def cleanJsDoc_def match_closing_def strip_marker_def text_defs

text \<open>
  Claim C10 as stated fails on the cleaning of the body. The \<^verbatim>\<open>*/\<close> of a one-line
  comment does not stand alone on its line and stays in the body; and the lines that are
  blank are dropped before the markers are stripped, so a line that holds only the marker
  becomes an empty line of the body.
\<close>

theorem extractTestDescriptions_cleaning_counterexample:
  "extractTestDescriptions ''/** Doc */\<newline>describe(`A`, function () {'' =
     [\<lparr>title = ''A'', test_description = '' Doc */'', test_context = ''A''\<rparr>] \<and>
   extractTestDescriptions ''/**\<newline> * One\<newline> *\<newline> * Two\<newline> */\<newline>describe(`B`, function () {'' =
     [\<lparr>title = ''B'', test_description = ''One\<newline>\<newline>Two'', test_context = ''B''\<rparr>]"
  by (simp add: docs_regex_defs)

text \<open>
  Claim C10, as the code has it. The pairs of the result are, one for one and in order,
  the declarations that the search finds with a comment somewhere in the text in front of
  them; a declaration with no comment in front of it gives no pair. The title of a pair
  is the declaration's. Its body comes from the nearest comment in front of the
  declaration: the text in front is a stretch that lies outside the comments, the
  comment ( \<^verbatim>\<open>/**\<close> up to the first \<^verbatim>\<open>*/\<close> behind it), and a stretch that holds no
  comment; and the body is that comment cleaned: the \<^verbatim>\<open>*/\<close> removed only when nothing
  but white space lies between a line start and it, every \<^verbatim>\<open>/**\<close> removed, the lines
  that are white space altogether dropped, and then, from each line that is left, the
  white space in front of one \<^verbatim>\<open>*\<close>, that \<^verbatim>\<open>*\<close> and one white-space character
  behind it. Every declaration found is a declaration of a test group at its place in
  the file.
\<close>

theorem extractTestDescriptions_pairs:
  "list_all2
     (\<lambda>d p. title p = snd d \<and> test_context p = snd d \<and>
            (\<exists>body. nearest_comment (fst d) body \<and> cleaned body (test_description p)))
     (filter (\<lambda>d. holds_comment (fst d)) (describe_declarations [] content))
     (extractTestDescriptions content) \<and>
   (\<forall>d\<in>set (describe_declarations [] content).
      \<exists>s rest. content = fst d @ s \<and> test_group s (snd d) rest)"
proof
  let ?mk = "\<lambda>d. \<lparr>title = snd d, test_description = cleanJsDoc (last (all_jsdocs (fst d))),
                test_context = snd d\<rparr>"
  let ?ds = "filter (\<lambda>d. holds_comment (fst d)) (describe_declarations [] content)"
  have "\<exists>body. nearest_comment (fst d) body \<and> cleaned body (test_description (?mk d))"
    if "d \<in> set ?ds" for d
  proof -
    from that have "all_jsdocs (fst d) \<noteq> []" by (simp add: holds_comment_iff)
    from last_nearest_comment[OF this] obtain body where
      l: "last (all_jsdocs (fst d)) = ''/**'' @ body @ ''*/''" and n: "nearest_comment (fst d) body"
      by blast
    from n have "closes_first body" unfolding nearest_comment_def by blast
    from cleanJsDoc_cleaned[OF this] l n show ?thesis by auto
  qed
  then have "list_all2
     (\<lambda>d p. title p = snd d \<and> test_context p = snd d \<and>
            (\<exists>body. nearest_comment (fst d) body \<and> cleaned body (test_description p)))
     ?ds (map ?mk ?ds)"
    unfolding list_all2_map2 by (intro list_all2_same[THEN iffD2] ballI) simp
  then show "list_all2
     (\<lambda>d p. title p = snd d \<and> test_context p = snd d \<and>
            (\<exists>body. nearest_comment (fst d) body \<and> cleaned body (test_description p)))
     ?ds (extractTestDescriptions content)"
    by (simp only: extractTestDescriptions_def describe_loop_declarations)
  show "\<forall>d\<in>set (describe_declarations [] content).
      \<exists>s rest. content = fst d @ s \<and> test_group s (snd d) rest"
    using describe_declarations_sound[of _ "[]" content] by simp
qed

theorem extractTestDescriptions_pairs_witness:
  "describe_declarations []
     (''describe(`Top`, function () {\<newline>/**\<newline> *'' @ [CHR 0xC2, CHR 0xA0] @
      ''Doc\<newline> */\<newline>describe(`Inner`, function () {'') =
     [([], ''Top''),
      (''describe(`Top`, function () {\<newline>/**\<newline> *'' @ [CHR 0xC2, CHR 0xA0] @ ''Doc\<newline> */\<newline>'',
       ''Inner'')] \<and>
   \<not> holds_comment [] \<and>
   (\<exists>p body.
      extractTestDescriptions
        (''describe(`Top`, function () {\<newline>/**\<newline> *'' @ [CHR 0xC2, CHR 0xA0] @
         ''Doc\<newline> */\<newline>describe(`Inner`, function () {'') = [p] \<and>
      title p = ''Inner'' \<and>
      nearest_comment
        (''describe(`Top`, function () {\<newline>/**\<newline> *'' @ [CHR 0xC2, CHR 0xA0] @ ''Doc\<newline> */\<newline>'')
        body \<and>
      cleaned body (test_description p) \<and> test_description p = ''Doc'')"
proof -
  let ?front = "''describe(`Top`, function () {\<newline>/**\<newline> *'' @ [CHR 0xC2, CHR 0xA0] @ ''Doc\<newline> */\<newline>''"
  let ?c = "''describe(`Top`, function () {\<newline>/**\<newline> *'' @ [CHR 0xC2, CHR 0xA0] @
      ''Doc\<newline> */\<newline>describe(`Inner`, function () {''"
  have ds: "describe_declarations [] ?c = [([], ''Top''), (?front, ''Inner'')]"
    by (simp add: docs_regex_defs)
  have h: "\<not> holds_comment []" "holds_comment ?front"
    by (simp_all add: holds_comment_iff docs_regex_defs)
  have run: "extractTestDescriptions ?c =
     [\<lparr>title = ''Inner'', test_description = ''Doc'', test_context = ''Inner''\<rparr>]"
    by (simp add: docs_regex_defs)
  note T = extractTestDescriptions_pairs[of ?c, THEN conjunct1]
  have "list_all2
     (\<lambda>d p. title p = snd d \<and> test_context p = snd d \<and>
            (\<exists>body. nearest_comment (fst d) body \<and> cleaned body (test_description p)))
     [(?front, ''Inner'')] (extractTestDescriptions ?c)"
    using T unfolding ds using h by simp
  then obtain p body where "extractTestDescriptions ?c = [p]" "title p = ''Inner''"
    "nearest_comment ?front body" "cleaned body (test_description p)"
    by (auto simp: list_all2_Cons1)
  moreover from this(1) run have "test_description p = ''Doc''" by simp
  ultimately show ?thesis using ds h(1) by blast
qed


section \<open>create-fhevm-category: the members of a category\<close>

lemma store_append:
  "lookup fs p = Some n \<Longrightarrow>
   store fs (p @ r) v = (case store n r v of None \<Rightarrow> None | Some n' \<Rightarrow> store fs p n')"
proof (induction fs p arbitrary: n rule: lookup.induct)
  case (1 m)
  then show ?case by (simp split: option.splits)
next
  case (3 es c p)
  then obtain m where m: "map_of es c = Some m" and l: "lookup m p = Some n"
    by (auto split: option.splits)
  show ?case
  proof (cases "p @ r = []")
    case True
    with l m show ?thesis by simp
  next
    case False
    note IH = 3(1)[OF m l]
    show ?thesis
    proof (cases "store n r v")
      case None
      with IH False m show ?thesis by simp
    next
      case (Some n')
      with IH have st: "store m (p @ r) v = store m p n'" by simp
      show ?thesis
      proof (cases "p = []")
        case True
        with l have "m = n" by simp
        with True False m Some show ?thesis by simp
      next
        case False
        with st m Some \<open>p @ r \<noteq> []\<close> show ?thesis by simp
      qed
    qed
  qed
qed simp

lemma mkdir_p_append:
  "lookup fs p = Some n \<Longrightarrow>
   mkdir_p fs (p @ r) = (case mkdir_p n r of None \<Rightarrow> None | Some n' \<Rightarrow> store fs p n')"
proof (induction fs p arbitrary: n rule: lookup.induct)
  case (1 m)
  then show ?case by (simp split: option.splits)
next
  case (3 es c p)
  then obtain m where m: "map_of es c = Some m" and l: "lookup m p = Some n"
    by (auto split: option.splits)
  note IH = 3(1)[OF m l]
  show ?case
  proof (cases "mkdir_p n r")
    case None
    with IH m show ?thesis by simp
  next
    case (Some n')
    with IH have st: "mkdir_p m (p @ r) = store m p n'" by simp
    show ?thesis
    proof (cases "p = []")
      case True
      with l have "m = n" by simp
      with True m Some show ?thesis by simp
    next
      case False
      with st m Some show ?thesis by simp
    qed
  qed
qed simp


lemma map_of_snoc_fresh: "m \<notin> fst ` set ds \<Longrightarrow> map_of (ds @ [(m, X)]) m = Some X"
  by (induction ds) auto

text \<open>One member of a category whose example is registered and whose directory is new.\<close>

lemma copyExample_own:
  assumes E: "lookup fs (outputDir @ [''examples'']) = Some (Dir ds)"
    and fresh: "m \<notin> fst ` set ds"
    and own: "get_property registry m = Own info"
    and c1: "diverge (rootDir @ contract info) (outputDir @ [''examples''])"
    and c2: "\<not> isDirectory fs (rootDir @ contract info)"
    and t1: "diverge (rootDir @ test info) (outputDir @ [''examples''])"
    and t2: "\<not> isDirectory fs (rootDir @ test info)"
  shows "\<exists>fs'. store fs (outputDir @ [''examples''])
                  (Dir (ds @ [(m, member_dir fs rootDir m info)])) = Some fs' \<and>
               copyExample registry fs rootDir outputDir m = (None, fs', [])"
proof -
  let ?E = "outputDir @ [''examples'']"
  define put where "put X = the (store fs ?E (Dir (ds @ [(m, X)])))" for X
  have put: "store fs ?E (Dir (ds @ [(m, X)])) = Some (put X)" for X
    using store_existing[OF E, of "Dir (ds @ [(m, X)])"] by (auto simp: put_def)
  have at_E: "lookup (put X) ?E = Some (Dir (ds @ [(m, X)]))" for X
    using lookup_store_same[OF put, of X "[]"] by simp
  have at_m: "lookup (put X) (?E @ [m]) = Some X" for X
    using at_E[of X] by (simp only: lookup_child map_of_snoc_fresh[OF fresh])
  have below: "lookup (put X) (outputDir @ ''examples'' # m # r) = lookup X r" for X r
    using lookup_append[of "put X" "?E @ [m]" r] at_m[of X] by simp
  have reput: "store (put X) (?E @ [m]) X' = Some (put X')" for X X'
  proof -
    have "store (put X) (?E @ [m]) X' = store (put X) ?E (Dir (AList.update m X' (ds @ [(m, X)])))"
      by (rule store_child[OF at_E])
    also have "\<dots> = store (put X) ?E (Dir (ds @ [(m, X')]))"
      by (simp only: update_last[OF fresh])
    also have "\<dots> = store fs ?E (Dir (ds @ [(m, X')]))"
      by (rule store_store[OF put])
    also have "\<dots> = Some (put X')" by (rule put)
    finally show ?thesis .
  qed
  have reput': "store (put X) (outputDir @ [''examples'', m]) X' = Some (put X')" for X X'
    using reput[of X X'] by simp
  have st: "store (put X) (outputDir @ ''examples'' # m # r) v =
              (case store X r v of None \<Rightarrow> None | Some X' \<Rightarrow> Some (put X'))" for X r v
    using store_append[OF at_m, of X r v] by (simp add: reput' split: option.splits)
  have mk: "mkdirSync (put X) (outputDir @ ''examples'' # m # r) =
              (case mkdir_p X r of None \<Rightarrow> Inl FsError | Some X' \<Rightarrow> Inr (put X'))" for X r
    using mkdir_p_append[OF at_m, of X r] by (simp add: mkdirSync_def reput' split: option.splits)
  have wr: "writeFileSync (put X) (outputDir @ ''examples'' # m # r) s =
              (if (case lookup X r of Some (Dir es) \<Rightarrow> True | _ \<Rightarrow> False) then Inl FsError
               else case store X r (File s) of None \<Rightarrow> Inl FsError | Some X' \<Rightarrow> Inr (put X'))"
    for X r s
    by (simp add: writeFileSync_def isDirectory_def below st split: option.splits)
  have outside: "lookup (put X) q = lookup fs q" if "diverge q ?E" for X q
    using lookup_store_frame[OF put that] .
  have mk0: "mkdirSync fs (outputDir @ [''examples'', m]) = Inr (put (Dir []))"
    using mkdir_child[OF E map_of_fresh[OF fresh]] put[of "Dir []"]
    by (simp add: mkdirSync_def update_fresh[OF fresh])
  have dirs: "makeExampleDirs fs (outputDir @ [''examples'', m]) =
                (None, put (Dir [(''contracts'', Dir []), (''test'', Dir [])]))"
    by (simp add: makeExampleDirs_def attempt_def and_then_def mk0 mk)
  let ?cf = "copied_file fs (rootDir @ contract info)"
  let ?tf = "copied_file fs (rootDir @ test info)"
  have cpc: "copyIfExists (put (Dir [(''contracts'', Dir []), (''test'', Dir [])]))
               (rootDir @ contract info) (outputDir @ [''examples'', m, ''contracts'']) =
             (None, put (Dir [(''contracts'', Dir ?cf), (''test'', Dir [])]))"
    using c2
    by (cases "lookup fs (rootDir @ contract info)")
       (auto simp: copyIfExists_def existsSync_def outside[OF c1] copyFileSync_def
          readFileSync_def wr attempt_def copied_file_def isDirectory_def split: node.splits)
  have cpt: "copyIfExists (put (Dir [(''contracts'', Dir ?cf), (''test'', Dir [])]))
               (rootDir @ test info) (outputDir @ [''examples'', m, ''test'']) =
             (None, put (Dir [(''contracts'', Dir ?cf), (''test'', Dir ?tf)]))"
    using t2
    by (cases "lookup fs (rootDir @ test info)")
       (auto simp: copyIfExists_def existsSync_def outside[OF t1] copyFileSync_def
          readFileSync_def wr attempt_def copied_file_def isDirectory_def split: node.splits)
  have readme: "writeFileSync (put (Dir [(''contracts'', Dir ?cf), (''test'', Dir ?tf)]))
                  (outputDir @ [''examples'', m, ''README.md'']) r =
                Inr (put (Dir [(''contracts'', Dir ?cf), (''test'', Dir ?tf),
                               (''README.md'', File r)]))" for r
    by (simp add: wr)
  have "copyExample registry fs rootDir outputDir m = (None, put (member_dir fs rootDir m info), [])"
    by (simp add: copyExample_def own Let_def and_then_def attempt_def dirs cpc cpt readme
          member_dir_def)
  with put[of "member_dir fs rootDir m info"] show ?thesis by blast
qed


lemma diverge_extend: "diverge q p \<Longrightarrow> diverge q (p @ r)"
  using diverge_append diverge_sym by blast

lemma member_entries_cong:
  assumes "\<And>m info. m \<in> set ms \<Longrightarrow> get_property registry m = Own info \<Longrightarrow>
             lookup fs' (rootDir @ contract info) = lookup fs (rootDir @ contract info) \<and>
             lookup fs' (rootDir @ test info) = lookup fs (rootDir @ test info)"
  shows "member_entries registry fs' rootDir ms = member_entries registry fs rootDir ms"
proof -
  have "(case get_property registry m of Own info \<Rightarrow> [(m, member_dir fs' rootDir m info)] | _ \<Rightarrow> []) =
        (case get_property registry m of Own info \<Rightarrow> [(m, member_dir fs rootDir m info)] | _ \<Rightarrow> [])"
    if "m \<in> set ms" for m
    using assms[OF that]
    by (cases "get_property registry m") (simp_all add: member_dir_def copied_file_def)
  then show ?thesis
    unfolding member_entries_def by (intro arg_cong[where f = concat] map_cong refl)
qed

text \<open>The loop over the members.\<close>

lemma copyExamples_spec:
  "lookup fs (outputDir @ [''examples'']) = Some (Dir ds) \<Longrightarrow> distinct ms \<Longrightarrow>
   \<forall>m\<in>set ms. m \<notin> fst ` set ds \<and> get_property registry m \<noteq> Inherited \<Longrightarrow>
   \<forall>m info. m \<in> set ms \<longrightarrow> get_property registry m = Own info \<longrightarrow>
      source_ok fs (outputDir @ [''examples'']) (rootDir @ contract info) \<and>
      source_ok fs (outputDir @ [''examples'']) (rootDir @ test info) \<Longrightarrow>
   \<exists>fs'. store fs (outputDir @ [''examples''])
            (Dir (ds @ member_entries registry fs rootDir ms)) = Some fs' \<and>
         copyExamples registry fs rootDir outputDir ms = (None, fs', member_warnings registry ms)"
proof (induction ms arbitrary: fs ds)
  case Nil
  then show ?case by (simp add: member_entries_def member_warnings_def store_id)
next
  case (Cons m ms)
  let ?E = "outputDir @ [''examples'']"
  from Cons.prems have dist: "distinct ms" and mnew: "m \<notin> set ms" and fresh: "m \<notin> fst ` set ds"
    and ninh: "get_property registry m \<noteq> Inherited" by auto
  show ?case
  proof (cases "get_property registry m")
    case Inherited
    with ninh show ?thesis by simp
  next
    case Undefined
    have "\<forall>m\<in>set ms. m \<notin> fst ` set ds \<and> get_property registry m \<noteq> Inherited"
      using Cons.prems(3) by simp
    moreover have "\<forall>m info. m \<in> set ms \<longrightarrow> get_property registry m = Own info \<longrightarrow>
      source_ok fs ?E (rootDir @ contract info) \<and> source_ok fs ?E (rootDir @ test info)"
      using Cons.prems(4) by simp
    ultimately obtain fs' where
      "store fs ?E (Dir (ds @ member_entries registry fs rootDir ms)) = Some fs'"
      "copyExamples registry fs rootDir outputDir ms = (None, fs', member_warnings registry ms)"
      using Cons.IH[OF Cons.prems(1) dist] by blast
    with Undefined show ?thesis
      by (simp add: copyExample_def member_entries_def member_warnings_def)
  next
    case (Own info)
    let ?X = "member_dir fs rootDir m info"
    from Cons.prems(4) Own have ok: "source_ok fs ?E (rootDir @ contract info)"
      "source_ok fs ?E (rootDir @ test info)" by auto
    from copyExample_own[OF Cons.prems(1) fresh Own] ok obtain fs1 where
      st: "store fs ?E (Dir (ds @ [(m, ?X)])) = Some fs1" and
      body: "copyExample registry fs rootDir outputDir m = (None, fs1, [])"
      by (auto simp: source_ok_def)
    have E1: "lookup fs1 ?E = Some (Dir (ds @ [(m, ?X)]))"
      using lookup_store_same[OF st, of "[]"] by simp
    have same: "lookup fs1 q = lookup fs q" if "diverge q ?E" for q
      using lookup_store_frame[OF st that] .
    have pre3: "\<forall>m'\<in>set ms. m' \<notin> fst ` set (ds @ [(m, ?X)]) \<and> get_property registry m' \<noteq> Inherited"
      using Cons.prems(3) mnew by auto
    have pre4: "\<forall>m' info. m' \<in> set ms \<longrightarrow> get_property registry m' = Own info \<longrightarrow>
      source_ok fs1 ?E (rootDir @ contract info) \<and> source_ok fs1 ?E (rootDir @ test info)"
      using Cons.prems(4) same by (auto simp: source_ok_def isDirectory_def)
    from Cons.IH[OF E1 dist pre3 pre4] obtain fs' where
      a: "store fs1 ?E (Dir ((ds @ [(m, ?X)]) @ member_entries registry fs1 rootDir ms)) = Some fs'" and
      b: "copyExamples registry fs1 rootDir outputDir ms = (None, fs', member_warnings registry ms)"
      by blast
    have "member_entries registry fs1 rootDir ms = member_entries registry fs rootDir ms"
    proof (rule member_entries_cong)
      fix m' info' assume "m' \<in> set ms" "get_property registry m' = Own info'"
      with Cons.prems(4) have "diverge (rootDir @ contract info') ?E" "diverge (rootDir @ test info') ?E"
        by (auto simp: source_ok_def)
      then show "lookup fs1 (rootDir @ contract info') = lookup fs (rootDir @ contract info') \<and>
                 lookup fs1 (rootDir @ test info') = lookup fs (rootDir @ test info')"
        using same by simp
    qed
    with a have "store fs ?E (Dir (ds @ member_entries registry fs rootDir (m # ms))) = Some fs'"
      by (simp add: store_store[OF st] member_entries_def Own)
    moreover have "copyExamples registry fs rootDir outputDir (m # ms) =
                     (None, fs', member_warnings registry (m # ms))"
      using body b Own by (simp add: member_warnings_def)
    ultimately show ?thesis by blast
  qed
qed

lemma map_of_template_entries_None:
  "c \<notin> set files \<Longrightarrow> map_of (template_entries fs base files) c = None"
  by (induction files) (auto simp: template_entries_def split: option.splits node.splits)

lemma template_entries_cong:
  "(\<And>f. f \<in> set files \<Longrightarrow> lookup fs' (base @ [f]) = lookup fs (base @ [f])) \<Longrightarrow>
   template_entries fs' base files = template_entries fs base files"
  unfolding template_entries_def by (intro arg_cong[where f = concat] map_cong refl) simp

text \<open>The loop over the shared configuration files.\<close>

lemma copyTemplateFiles_spec:
  "lookup fs outputDir = Some (Dir os) \<Longrightarrow> distinct files \<Longrightarrow>
   \<forall>f\<in>set files. f \<notin> fst ` set os \<and> \<not> isDirectory fs (base @ [f]) \<Longrightarrow>
   diverge base outputDir \<Longrightarrow>
   \<exists>fs'. store fs outputDir (Dir (os @ template_entries fs base files)) = Some fs' \<and>
         copyTemplateFiles fs base outputDir files = (None, fs')"
proof (induction files arbitrary: fs os)
  case Nil
  then show ?case by (simp add: template_entries_def store_id)
next
  case (Cons f files)
  from Cons.prems have dist: "distinct files" and fnew: "f \<notin> set files"
    and fresh: "f \<notin> fst ` set os" and nd: "\<not> isDirectory fs (base @ [f])" by auto
  have dv: "diverge (base @ [g]) outputDir" for g
    using Cons.prems(4) by (rule diverge_append)
  show ?case
  proof (cases "lookup fs (base @ [f])")
    case None
    have "\<forall>f\<in>set files. f \<notin> fst ` set os \<and> \<not> isDirectory fs (base @ [f])"
      using Cons.prems(3) by simp
    from Cons.IH[OF Cons.prems(1) dist this Cons.prems(4)] None show ?thesis
      by (simp add: template_entries_def existsSync_def)
  next
    case (Some n)
    with nd obtain s where n: "n = File s" by (cases n) (auto simp: isDirectory_def)
    have absent: "\<not> isDirectory fs (outputDir @ [f])"
      using Cons.prems(1) fresh by (simp add: isDirectory_def lookup_child map_of_fresh)
    from writeFileSync_child[OF Cons.prems(1) absent, of s] obtain fs1 where
      w: "writeFileSync fs (outputDir @ [f]) s = Inr fs1" and
      o1: "lookup fs1 outputDir = Some (Dir (AList.update f (File s) os))" by blast
    from w have st: "store fs outputDir (Dir (os @ [(f, File s)])) = Some fs1"
      by (auto simp: writeFileSync_def store_child[OF Cons.prems(1)] update_fresh[OF fresh]
            split: if_splits option.splits)
    have o1': "lookup fs1 outputDir = Some (Dir (os @ [(f, File s)]))"
      using o1 by (simp add: update_fresh[OF fresh])
    have same: "lookup fs1 (base @ [g]) = lookup fs (base @ [g])" for g
      using lookup_store_frame[OF st dv] .
    have pre: "\<forall>g\<in>set files. g \<notin> fst ` set (os @ [(f, File s)]) \<and> \<not> isDirectory fs1 (base @ [g])"
      using Cons.prems(3) fnew same by (auto simp: isDirectory_def)
    from Cons.IH[OF o1' dist pre Cons.prems(4)] obtain fs' where
      a: "store fs1 outputDir (Dir ((os @ [(f, File s)]) @ template_entries fs1 base files)) = Some fs'"
      and b: "copyTemplateFiles fs1 base outputDir files = (None, fs')" by blast
    have "template_entries fs1 base files = template_entries fs base files"
      by (rule template_entries_cong) (rule same)
    with a have "store fs outputDir (Dir (os @ template_entries fs base (f # files))) = Some fs'"
      using Some n by (simp add: store_store[OF st] template_entries_def)
    moreover have "copyTemplateFiles fs base outputDir (f # files) = (None, fs')"
      using Some n w b
      by (simp add: existsSync_def copyFileSync_def readFileSync_def attempt_def and_then_def)
    ultimately show ?thesis by blast
  qed
qed

lemma map_of_template_entries:
  "distinct files \<Longrightarrow> f \<in> set files \<Longrightarrow>
   map_of (template_entries fs base files) f =
     (case lookup fs (base @ [f]) of Some (File s) \<Rightarrow> Some (File s) | _ \<Rightarrow> None)"
proof (induction files)
  case (Cons g files)
  show ?case
  proof (cases "f = g")
    case True
    with Cons.prems have "f \<notin> set files" by simp
    from map_of_template_entries_None[OF this, of fs base] True show ?thesis
      by (auto simp: template_entries_def split: option.splits node.splits)
  next
    case False
    with Cons have "map_of (template_entries fs base files) f =
       (case lookup fs (base @ [f]) of Some (File s) \<Rightarrow> Some (File s) | _ \<Rightarrow> None)" by simp
    with False show ?thesis
      by (auto simp: template_entries_def split: option.splits node.splits)
  qed
qed simp

lemma map_of_member_entries:
  "distinct ms \<Longrightarrow>
   map_of (member_entries registry fs rootDir ms) m =
     (if m \<in> set ms
      then (case get_property registry m of
              Own info \<Rightarrow> Some (member_dir fs rootDir m info) | _ \<Rightarrow> None)
      else None)"
proof (induction ms)
  case (Cons a ms)
  then have IH: "map_of (member_entries registry fs rootDir ms) m =
     (if m \<in> set ms
      then (case get_property registry m of
              Own info \<Rightarrow> Some (member_dir fs rootDir m info) | _ \<Rightarrow> None)
      else None)" and a: "a \<notin> set ms" by simp_all
  have split: "member_entries registry fs rootDir (a # ms) =
     (case get_property registry a of Own info \<Rightarrow> [(a, member_dir fs rootDir a info)] | _ \<Rightarrow> []) @
     member_entries registry fs rootDir ms"
    by (simp add: member_entries_def)
  show ?case
    unfolding split using IH a
    by (cases "get_property registry a") (auto split: property.splits)
qed (simp add: member_entries_def)

lemma get_property_Own: "get_property registry m = Own info \<longleftrightarrow> map_of registry m = Some info"
  by (auto simp: get_property_def split: option.splits)

text \<open>The run of \<^verbatim>\<open>createCategory\<close> up to the end of the loop over the members.\<close>

lemma createCategory_structure:
  assumes fresh: "\<not> existsSync fs outputDir" and creatable: "creatable fs outputDir"
    and members: "distinct ms" "\<forall>m\<in>set ms. get_property registry m \<noteq> Inherited"
    and sources: "\<forall>m info. m \<in> set ms \<longrightarrow> map_of registry m = Some info \<longrightarrow>
                    source_ok fs outputDir (rootDir @ contract info) \<and>
                    source_ok fs outputDir (rootDir @ test info)"
    and base: "diverge (rootDir @ [''base-template'']) outputDir"
      "\<forall>f\<in>set template_files. \<not> isDirectory fs (rootDir @ [''base-template'', f])"
  shows "\<exists>fsC fsD.
           and_then (attempt (mkdirSync fs outputDir) fs)
             (\<lambda>fs1. and_then (attempt (mkdirSync fs1 (outputDir @ [''examples''])) fs1)
                (\<lambda>fs2. if existsSync fs2 (rootDir @ [''base-template''])
                        then copyTemplateFiles fs2 (rootDir @ [''base-template''])
                               outputDir template_files
                        else (None, fs2))) = (None, fsC) \<and>
           copyExamples registry fsC rootDir outputDir ms = (None, fsD, member_warnings registry ms) \<and>
           lookup fsD (outputDir @ [''examples'']) =
             Some (Dir (member_entries registry fs rootDir ms)) \<and>
           (\<forall>c. c \<noteq> ''examples'' \<longrightarrow>
              lookup fsD (outputDir @ [c]) =
                (if c \<in> set template_files
                 then (case lookup fs (rootDir @ [''base-template'', c]) of
                         Some (File s) \<Rightarrow> Some (File s) | _ \<Rightarrow> None)
                 else None))"
proof -
  let ?base = "rootDir @ [''base-template'']"
  let ?E = "outputDir @ [''examples'']"
  from fresh have none: "lookup fs outputDir = None" by (simp add: existsSync_def)
  from creatable_mkdir_p[OF creatable] obtain fsA where mkA: "mkdir_p fs outputDir = Some fsA"
    by blast
  have oA: "lookup fsA outputDir = Some (Dir [])" by (rule mkdir_p_fresh[OF mkA none])
  have frameA: "lookup fsA q = lookup fs q" if "diverge q outputDir" for q
    by (rule lookup_mkdir_p_frame[OF mkA that])
  obtain fsB where stB: "store fsA outputDir (Dir [(''examples'', Dir [])]) = Some fsB"
    using store_existing[OF oA] by blast
  have mkB: "mkdir_p fsA ?E = Some fsB"
    using mkdir_child[OF oA, of "''examples''"] stB by simp
  have oB: "lookup fsB outputDir = Some (Dir [(''examples'', Dir [])])"
    using lookup_store_same[OF stB, of "[]"] by simp
  have frameB: "lookup fsB q = lookup fs q" if "diverge q outputDir" for q
    using lookup_store_frame[OF stB that] frameA[OF that] by simp
  have dvb: "diverge (?base @ r) outputDir" for r
    using base(1) by (rule diverge_append)
  have baseB: "lookup fsB (?base @ [f]) = lookup fs (?base @ [f])" for f
    by (rule frameB[OF dvb])
  have preT: "\<forall>f\<in>set template_files.
                f \<notin> fst ` set [(''examples'', Dir [])] \<and> \<not> isDirectory fsB (?base @ [f])"
    using base(2) baseB by (auto simp: isDirectory_def template_files_def)
  have distT: "distinct template_files" by (simp add: template_files_def)
  from copyTemplateFiles_spec[OF oB distT preT base(1)] obtain fsC where
    stC: "store fsB outputDir
            (Dir ([(''examples'', Dir [])] @ template_entries fsB ?base template_files)) = Some fsC"
    and cpC: "copyTemplateFiles fsB ?base outputDir template_files = (None, fsC)" by blast
  have te: "template_entries fsB ?base template_files = template_entries fs ?base template_files"
    by (rule template_entries_cong) (rule baseB)
  have step3: "(if existsSync fsB ?base
                then copyTemplateFiles fsB ?base outputDir template_files
                else (None, fsB)) = (None, fsC)"
  proof (cases "existsSync fsB ?base")
    case True
    with cpC show ?thesis by simp
  next
    case False
    then have "lookup fsB (?base @ [f]) = None" for f
      using lookup_append[of fsB ?base "[f]"] by (simp add: existsSync_def)
    then have "template_entries fsB ?base template_files = []"
      by (simp add: template_entries_def)
    with stC have "store fsB outputDir (Dir [(''examples'', Dir [])]) = Some fsC" by simp
    with store_id[OF oB] have "fsC = fsB" by simp
    with False show ?thesis by simp
  qed
  have oC: "lookup fsC outputDir =
              Some (Dir ((''examples'', Dir []) # template_entries fs ?base template_files))"
    using lookup_store_same[OF stC, of "[]"] te by simp
  have frameC: "lookup fsC q = lookup fs q" if "diverge q outputDir" for q
    using lookup_store_frame[OF stC that] frameB[OF that] by simp
  have EC: "lookup fsC ?E = Some (Dir [])"
    using oC by (simp only: lookup_child) simp
  have first: "and_then (attempt (mkdirSync fs outputDir) fs)
             (\<lambda>fs1. and_then (attempt (mkdirSync fs1 ?E) fs1)
                (\<lambda>fs2. if existsSync fs2 ?base
                        then copyTemplateFiles fs2 ?base outputDir template_files
                        else (None, fs2))) = (None, fsC)"
    using mkA mkB step3 by (simp add: and_then_def attempt_def mkdirSync_def)
  have pre3: "\<forall>m\<in>set ms. m \<notin> fst ` set [] \<and> get_property registry m \<noteq> Inherited"
    using members(2) by simp
  have src: "diverge (rootDir @ contract info) outputDir \<and> \<not> isDirectory fs (rootDir @ contract info) \<and>
             diverge (rootDir @ test info) outputDir \<and> \<not> isDirectory fs (rootDir @ test info)"
    if "m \<in> set ms" "get_property registry m = Own info" for m info
    using sources that by (auto simp: source_ok_def get_property_Own)
  have pre4: "\<forall>m info. m \<in> set ms \<longrightarrow> get_property registry m = Own info \<longrightarrow>
      source_ok fsC ?E (rootDir @ contract info) \<and> source_ok fsC ?E (rootDir @ test info)"
  proof (intro allI impI)
    fix m info assume m: "m \<in> set ms" "get_property registry m = Own info"
    note s = src[OF m]
    show "source_ok fsC ?E (rootDir @ contract info) \<and> source_ok fsC ?E (rootDir @ test info)"
      using s frameC[of "rootDir @ contract info"] frameC[of "rootDir @ test info"]
        diverge_extend[of "rootDir @ contract info" outputDir "[''examples'']"]
        diverge_extend[of "rootDir @ test info" outputDir "[''examples'']"]
      by (simp add: source_ok_def isDirectory_def)
  qed
  from copyExamples_spec[OF EC members(1) pre3 pre4] obtain fsD where
    stD: "store fsC ?E (Dir ([] @ member_entries registry fsC rootDir ms)) = Some fsD" and
    loop: "copyExamples registry fsC rootDir outputDir ms = (None, fsD, member_warnings registry ms)"
    by blast
  have me: "member_entries registry fsC rootDir ms = member_entries registry fs rootDir ms"
  proof (rule member_entries_cong)
    fix m info assume m: "m \<in> set ms" "get_property registry m = Own info"
    from src[OF m] frameC show "lookup fsC (rootDir @ contract info) = lookup fs (rootDir @ contract info) \<and>
               lookup fsC (rootDir @ test info) = lookup fs (rootDir @ test info)"
      by simp
  qed
  have ED: "lookup fsD ?E = Some (Dir (member_entries registry fs rootDir ms))"
    using lookup_store_same[OF stD, of "[]"] me by simp
  have others: "lookup fsD (outputDir @ [c]) =
                (if c \<in> set template_files
                 then (case lookup fs (rootDir @ [''base-template'', c]) of
                         Some (File s) \<Rightarrow> Some (File s) | _ \<Rightarrow> None)
                 else None)" if "c \<noteq> ''examples''" for c
  proof -
    have "diverge (outputDir @ [c]) ?E" using that by (rule diverge_snoc)
    from lookup_store_frame[OF stD this]
    have "lookup fsD (outputDir @ [c]) = lookup fsC (outputDir @ [c])" .
    also have "\<dots> = map_of (template_entries fs ?base template_files) c"
      using oC that by (simp only: lookup_child) simp
    also have "\<dots> = (if c \<in> set template_files
                 then (case lookup fs (rootDir @ [''base-template'', c]) of
                         Some (File s) \<Rightarrow> Some (File s) | _ \<Rightarrow> None)
                 else None)"
      using map_of_template_entries[OF distT, of c fs ?base]
        map_of_template_entries_None[of c template_files fs ?base]
      by (cases "c \<in> set template_files") simp_all
    finally show ?thesis .
  qed
  have others': "\<forall>c. c \<noteq> ''examples'' \<longrightarrow>
              lookup fsD (outputDir @ [c]) =
                (if c \<in> set template_files
                 then (case lookup fs (rootDir @ [''base-template'', c]) of
                         Some (File s) \<Rightarrow> Some (File s) | _ \<Rightarrow> None)
                 else None)"
    using others by blast
  show ?thesis
    by (rule exI[of _ fsC], rule exI[of _ fsD]) (intro conjI first loop ED others')
qed

text \<open>
  Claim C2 as stated fails for a member whose source file is missing: with the shipped
  registries and no \<^verbatim>\<open>contracts/Counter.sol\<close>, the run for the category \<^verbatim>\<open>basic\<close>
  ends well, prints no warning, and \<^verbatim>\<open>examples/counter\<close> is there all the same, with
  an empty \<^verbatim>\<open>contracts/\<close>.
\<close>

theorem createCategory_missing_source_counterexample:
  "\<not> existsSync
       (Dir [(''repo'', Dir [(''test'', Dir [(''Counter.ts'', File ''describe'')])])])
       [''repo'', ''contracts'', ''Counter.sol''] \<and>
   (case createCategory demo_parse (stringify_at 0)
           (Dir [(''repo'', Dir [(''test'', Dir [(''Counter.ts'', File ''describe'')])])])
           [''repo''] ''basic'' [''out''] of
      (r, fs', warnings) \<Rightarrow>
        r = None \<and> warnings = [] \<and>
        lookup fs' [''out'', ''examples'', ''counter'', ''contracts''] = Some (Dir []) \<and>
        lookup fs' [''out'', ''examples'', ''counter'', ''test''] =
          Some (Dir [(''Counter.ts'', File ''describe'')]))"
  by (simp add: createCategory_def createCategoryIn_def get_property_def CATEGORIES_def
        EXAMPLES_def existsSync_def mkdirSync_def attempt_def and_then_def template_files_def
        copyExample_def makeExampleDirs_def copyIfExists_def copyFileSync_def readFileSync_def
        writeFileSync_def isDirectory_def basename_def updateCategoryPackageJson_def Let_def)

text \<open>
  Claim C2, as the code has it. For a category of the registry whose members are distinct
  names, none of them only an inherited property, a destination that does not exist and
  can be created, sources and base template that lie beside the destination and are not
  directories, and a base-template manifest that, if there is one, parses to an object: the
  run ends well; under \<^verbatim>\<open>examples/\<close> there is a directory for exactly the members
  that the example registry holds, whether their source files exist or not, each with
  \<^verbatim>\<open>contracts/\<close>, \<^verbatim>\<open>test/\<close> and \<^verbatim>\<open>README.md\<close> and with each source file that
  exists copied in; and what is printed as warnings is one line for each member that the
  example registry does not hold. A missing source file gives no warning and skips
  nothing.
\<close>

theorem createCategory_members:
  assumes cat: "map_of categories categoryName = Some config"
    and fresh: "\<not> existsSync fs outputDir" and creatable: "creatable fs outputDir"
    and members: "distinct (examples config)"
      "\<forall>m\<in>set (examples config). get_property registry m \<noteq> Inherited"
    and sources: "\<forall>m info. m \<in> set (examples config) \<longrightarrow> map_of registry m = Some info \<longrightarrow>
                    source_ok fs outputDir (rootDir @ contract info) \<and>
                    source_ok fs outputDir (rootDir @ test info)"
    and base: "diverge (rootDir @ [''base-template'']) outputDir"
      "\<forall>f\<in>set template_files. \<not> isDirectory fs (rootDir @ [''base-template'', f])"
    and manifest: "\<forall>pkg. lookup fs (rootDir @ [''base-template'', ''package.json'']) = Some (File pkg) \<longrightarrow>
                     (\<exists>kv. parse pkg = Some (JObject kv))"
  shows "\<exists>fs'. createCategoryIn categories registry parse stringify fs rootDir categoryName outputDir =
                 (None, fs', member_warnings registry (examples config)) \<and>
               (\<forall>m. lookup fs' (outputDir @ [''examples'', m]) =
                      (if m \<in> set (examples config)
                       then (case map_of registry m of
                               Some info \<Rightarrow> Some (member_dir fs rootDir m info)
                             | None \<Rightarrow> None)
                       else None))"
proof -
  let ?ms = "examples config"
  let ?R = "outputDir @ [''README.md'']"
  let ?P = "outputDir @ [''package.json'']"
  from createCategory_structure[OF fresh creatable members sources base] obtain fsC fsD where
    first: "and_then (attempt (mkdirSync fs outputDir) fs)
             (\<lambda>fs1. and_then (attempt (mkdirSync fs1 (outputDir @ [''examples''])) fs1)
                (\<lambda>fs2. if existsSync fs2 (rootDir @ [''base-template''])
                        then copyTemplateFiles fs2 (rootDir @ [''base-template''])
                               outputDir template_files
                        else (None, fs2))) = (None, fsC)" and
    loop: "copyExamples registry fsC rootDir outputDir ?ms = (None, fsD, member_warnings registry ?ms)" and
    ED: "lookup fsD (outputDir @ [''examples'']) = Some (Dir (member_entries registry fs rootDir ?ms))" and
    others: "\<forall>c. c \<noteq> ''examples'' \<longrightarrow>
              lookup fsD (outputDir @ [c]) =
                (if c \<in> set template_files
                 then (case lookup fs (rootDir @ [''base-template'', c]) of
                         Some (File s) \<Rightarrow> Some (File s) | _ \<Rightarrow> None)
                 else None)"
    by blast
  obtain osD where oD: "lookup fsD outputDir = Some (Dir osD)"
    using lookup_prefix_Dir[of fsD outputDir "[''examples'']"] ED by auto
  have "lookup fsD ?R = None" using others by (simp add: template_files_def)
  then have ndR: "\<not> isDirectory fsD ?R" by (simp add: isDirectory_def)
  from writeFileSync_child[OF oD ndR, of "generateCategoryReadme registry categoryName config"]
  obtain fsE where
    wE: "writeFileSync fsD ?R (generateCategoryReadme registry categoryName config) = Inr fsE" and
    oE: "lookup fsE outputDir =
           Some (Dir (AList.update ''README.md''
                        (File (generateCategoryReadme registry categoryName config)) osD))" and
    frameE: "\<forall>q. diverge q ?R \<longrightarrow> lookup fsE q = lookup fsD q" by blast
  have dPR: "diverge ?P ?R" by (rule diverge_snoc) simp
  have pE: "lookup fsE ?P =
              (case lookup fs (rootDir @ [''base-template'', ''package.json'']) of
                 Some (File s) \<Rightarrow> Some (File s) | _ \<Rightarrow> None)"
    using frameE dPR others by (simp add: template_files_def)
  have last: "\<exists>fsF. updateCategoryPackageJson parse stringify fsE outputDir categoryName
                      (cat_description config) = (None, fsF) \<and>
                    (\<forall>q. diverge q ?P \<longrightarrow> lookup fsF q = lookup fsE q)"
  proof (cases "lookup fsE ?P")
    case None
    then show ?thesis by (simp add: updateCategoryPackageJson_def existsSync_def)
  next
    case (Some n)
    with pE obtain pkg where src: "lookup fs (rootDir @ [''base-template'', ''package.json'']) = Some (File pkg)"
      and n: "n = File pkg"
      by (auto split: option.splits node.splits)
    from manifest src obtain kv where kv: "parse pkg = Some (JObject kv)" by blast
    have ndP: "\<not> isDirectory fsE ?P" using Some n by (simp add: isDirectory_def)
    let ?text = "stringify (JObject
                         (AList.update ''description'' (JString (cat_description config))
                            (AList.update ''name''
                               (JString (''fhevm-'' @ categoryName @ ''-examples'')) kv)))"
    from writeFileSync_child[OF oE ndP, of ?text] obtain fsF where
      wF: "writeFileSync fsE ?P ?text = Inr fsF" and
      frameF: "\<forall>q. diverge q ?P \<longrightarrow> lookup fsF q = lookup fsE q" by blast
    have "updateCategoryPackageJson parse stringify fsE outputDir categoryName
            (cat_description config) = (None, fsF)"
      using Some n kv wF
      by (simp add: updateCategoryPackageJson_def existsSync_def readFileSync_def attempt_def)
    with frameF show ?thesis by blast
  qed
  then obtain fsF where
    upd: "updateCategoryPackageJson parse stringify fsE outputDir categoryName
            (cat_description config) = (None, fsF)" and
    frameF: "\<forall>q. diverge q ?P \<longrightarrow> lookup fsF q = lookup fsE q" by blast
  have gp: "get_property categories categoryName = Own config"
    using cat by (simp add: get_property_def)
  have run: "createCategoryIn categories registry parse stringify fs rootDir categoryName outputDir =
                 (None, fsF, member_warnings registry ?ms)"
    using fresh first loop wE upd
    by (simp add: createCategoryIn_def gp and_then_def attempt_def)
  have dirs: "lookup fsF (outputDir @ [''examples'', m]) =
                      (if m \<in> set ?ms
                       then (case map_of registry m of
                               Some info \<Rightarrow> Some (member_dir fs rootDir m info)
                             | None \<Rightarrow> None)
                       else None)" for m
  proof -
    have "diverge (outputDir @ [''examples'', m]) ?P" "diverge (outputDir @ [''examples'', m]) ?R"
      by (rule diverge_branches, simp)+
    then have "lookup fsF (outputDir @ [''examples'', m]) = lookup fsD (outputDir @ [''examples'', m])"
      using frameE frameF by simp
    also have "\<dots> = map_of (member_entries registry fs rootDir ?ms) m"
      using lookup_child[OF ED, of m] by simp
    also have "\<dots> = (if m \<in> set ?ms
                       then (case map_of registry m of
                               Some info \<Rightarrow> Some (member_dir fs rootDir m info)
                             | None \<Rightarrow> None)
                       else None)"
      by (simp add: map_of_member_entries[OF members(1)] get_property_def split: option.splits)
    finally show ?thesis .
  qed
  from run dirs show ?thesis by blast
qed

theorem createCategory_members_witness:
  "\<exists>fs'. createCategoryIn
            [(''demo'', \<lparr>cat_name = ''Demo'', cat_description = ''Two members'',
                         examples = [''counter'', ''ghost'']\<rparr>)]
            EXAMPLES demo_parse (stringify_at 0)
            (Dir [(''repo'', Dir [(''test'', Dir [(''Counter.ts'', File ''describe'')])])])
            [''repo''] ''demo'' [''out''] =
          (None, fs', [''Warning: Example ghost not found'']) \<and>
         lookup fs' [''out'', ''examples'', ''counter''] =
           Some (Dir [(''contracts'', Dir []),
                      (''test'', Dir [(''Counter.ts'', File ''describe'')]),
                      (''README.md'',
                       File (exampleReadme ''counter''
                              \<lparr>contract = [''contracts'', ''Counter.sol''],
                               test = [''test'', ''Counter.ts''],
                               description = ''Simple non-encrypted counter for comparison''\<rparr>))]) \<and>
         lookup fs' [''out'', ''examples'', ''ghost''] = None"
proof -
  let ?fs = "Dir [(''repo'', Dir [(''test'', Dir [(''Counter.ts'', File ''describe'')])])]"
  let ?config = "\<lparr>cat_name = ''Demo'', cat_description = ''Two members'',
                   examples = [''counter'', ''ghost'']\<rparr>"
  let ?info = "\<lparr>contract = [''contracts'', ''Counter.sol''],
                               test = [''test'', ''Counter.ts''],
                               description = ''Simple non-encrypted counter for comparison''\<rparr>"
  have h1: "map_of [(''demo'', ?config)] ''demo'' = Some ?config" by simp
  have h2: "\<not> existsSync ?fs [''out'']" "creatable ?fs [''out'']"
    by (simp_all add: fs_defs)
  have h3: "distinct (examples ?config)"
    "\<forall>m\<in>set (examples ?config). get_property EXAMPLES m \<noteq> Inherited"
    by (simp_all add: get_property_def EXAMPLES_def object_prototype_keys_def)
  have h4: "\<forall>m info. m \<in> set (examples ?config) \<longrightarrow> map_of EXAMPLES m = Some info \<longrightarrow>
                    source_ok ?fs [''out''] ([''repo''] @ contract info) \<and>
                    source_ok ?fs [''out''] ([''repo''] @ test info)"
    by (auto simp: EXAMPLES_def source_ok_def fs_defs)
  have h5: "diverge ([''repo''] @ [''base-template'']) [''out'']"
    "\<forall>f\<in>set template_files. \<not> isDirectory ?fs ([''repo''] @ [''base-template'', f])"
    "\<forall>pkg. lookup ?fs ([''repo''] @ [''base-template'', ''package.json'']) = Some (File pkg) \<longrightarrow>
                     (\<exists>kv. demo_parse pkg = Some (JObject kv))"
    by (simp_all add: fs_defs)
  from createCategory_members[where stringify = "stringify_at 0" and registry = EXAMPLES,
      OF h1 h2 h3 h4 h5]
  obtain fs' where
    run: "createCategoryIn [(''demo'', ?config)] EXAMPLES demo_parse (stringify_at 0) ?fs
            [''repo''] ''demo'' [''out''] =
          (None, fs', member_warnings EXAMPLES (examples ?config))" and
    dirs: "\<forall>m. lookup fs' ([''out''] @ [''examples'', m]) =
                      (if m \<in> set (examples ?config)
                       then (case map_of EXAMPLES m of
                               Some info \<Rightarrow> Some (member_dir ?fs [''repo''] m info)
                             | None \<Rightarrow> None)
                       else None)"
    by blast
  have w: "member_warnings EXAMPLES (examples ?config) = [''Warning: Example ghost not found'']"
    by (simp add: member_warnings_def get_property_def EXAMPLES_def object_prototype_keys_def)
  have c: "lookup fs' [''out'', ''examples'', ''counter''] = Some (member_dir ?fs [''repo''] ''counter'' ?info)"
    using dirs[rule_format, of "''counter''"] by (simp add: EXAMPLES_def)
  have g: "lookup fs' [''out'', ''examples'', ''ghost''] = None"
    using dirs[rule_format, of "''ghost''"] by (simp add: EXAMPLES_def)
  have m: "member_dir ?fs [''repo''] ''counter'' ?info =
           Dir [(''contracts'', Dir []),
                      (''test'', Dir [(''Counter.ts'', File ''describe'')]),
                      (''README.md'', File (exampleReadme ''counter'' ?info))]"
    by (simp add: member_dir_def copied_file_def basename_def)
  from run w c g m show ?thesis by simp
qed

section \<open>create-fhevm-example: a destination inside the template\<close>

text \<open>What exists keeps existing: no call of the scripts removes anything.\<close>

lemma mkdir_p_keeps:
  "mkdir_p fs p = Some fs' \<Longrightarrow> lookup fs q \<noteq> None \<Longrightarrow> lookup fs' q \<noteq> None"
proof (induction fs p arbitrary: fs' q rule: mkdir_p.induct)
  case (3 es c p)
  from 3(2) obtain n' where n': "mkdir_p (case map_of es c of None \<Rightarrow> Dir [] | Some n \<Rightarrow> n) p = Some n'"
    and fs': "fs' = Dir (AList.update c n' es)" by (auto split: option.splits)
  show ?case
  proof (cases q)
    case Nil
    then show ?thesis by simp
  next
    case (Cons d q')
    show ?thesis
    proof (cases "d = c")
      case False
      with 3(3) Cons fs' show ?thesis by (simp add: map_of_update)
    next
      case True
      with 3(3) Cons obtain n where n: "map_of es c = Some n" "lookup n q' \<noteq> None"
        by (auto split: option.splits)
      from n' n(1) have "mkdir_p n p = Some n'" by simp
      with "3.IH"[of n' q'] n have "lookup n' q' \<noteq> None" by simp
      with True Cons fs' show ?thesis by (simp add: map_of_update)
    qed
  qed
qed auto

lemma store_keeps:
  "store fs p v = Some fs' \<Longrightarrow> \<not> isDirectory fs p \<Longrightarrow> lookup fs q \<noteq> None \<Longrightarrow>
   lookup fs' q \<noteq> None"
proof (induction fs p v arbitrary: fs' q rule: store.induct)
  case (1 n v)
  then show ?case by (cases n; cases q) (auto simp: isDirectory_def)
next
  case (2 s' c p v)
  then show ?case by simp
next
  case (3 es c p v)
  show ?case
  proof (cases q)
    case Nil
    then show ?thesis by simp
  next
    case (Cons d q')
    show ?thesis
    proof (cases "p = []")
      case True
      with 3(2) have fs': "fs' = Dir (AList.update c v es)" by simp
      show ?thesis
      proof (cases "d = c")
        case False
        with 3(4) Cons fs' show ?thesis by (simp add: map_of_update)
      next
        case d: True
        with 3(4) Cons obtain n where n: "map_of es c = Some n" "lookup n q' \<noteq> None"
          by (auto split: option.splits)
        from 3(3) True n(1) have "\<forall>ds. n \<noteq> Dir ds" by (auto simp: isDirectory_def)
        with n(2) have "q' = []" by (cases n; cases q') auto
        with d Cons fs' show ?thesis by (simp add: map_of_update)
      qed
    next
      case False
      with 3(2) obtain n n' where n: "map_of es c = Some n" "store n p v = Some n'"
        and fs': "fs' = Dir (AList.update c n' es)" by (auto split: option.splits)
      show ?thesis
      proof (cases "d = c")
        case d: False
        with 3(4) Cons fs' show ?thesis by (simp add: map_of_update)
      next
        case d: True
        with 3(4) Cons n(1) have l: "lookup n q' \<noteq> None" by simp
        from 3(3) n(1) have "\<not> isDirectory n p" by (simp add: isDirectory_def)
        from 3(1)[OF False n(1) n(2) this l] have "lookup n' q' \<noteq> None" .
        with d Cons fs' show ?thesis by (simp add: map_of_update)
      qed
    qed
  qed
qed

lemma copyFileSync_keeps:
  "copyFileSync fs src dst = Inr fs' \<Longrightarrow> lookup fs q \<noteq> None \<Longrightarrow> lookup fs' q \<noteq> None"
  by (auto simp: copyFileSync_def writeFileSync_def split: sum.splits option.splits if_splits
        dest: store_keeps)

lemma copyItems_keeps:
  assumes S: "\<And>fs src dst fs'. copyDirectoryRecursive k skip fs src dst = Some (None, fs') \<Longrightarrow>
                lookup fs q \<noteq> None \<Longrightarrow> lookup fs' q \<noteq> None"
  shows "copyItems k skip fs src dst items = Some (None, fs') \<Longrightarrow> lookup fs q \<noteq> None \<Longrightarrow>
         lookup fs' q \<noteq> None"
proof (induction items arbitrary: fs)
  case Nil
  then show ?case by simp
next
  case (Cons item items)
  show ?case
  proof (cases "item \<in> set skip")
    case True
    with Cons show ?thesis by simp
  next
    case False
    show ?thesis
    proof (cases "lookup fs (src @ [item])")
      case None
      with Cons.prems False show ?thesis by simp
    next
      case (Some n)
      show ?thesis
      proof (cases n)
        case (File s)
        with Cons.prems(1) False Some obtain fs1 where
          c: "copyFileSync fs (src @ [item]) (dst @ [item]) = Inr fs1"
          and rest: "copyItems k skip fs1 src dst items = Some (None, fs')"
          by (auto split: sum.splits)
        from copyFileSync_keeps[OF c Cons.prems(2)] have "lookup fs1 q \<noteq> None" .
        with Cons.IH[OF rest] show ?thesis by blast
      next
        case (Dir es)
        show ?thesis
        proof (cases "item \<in> set excluded_dirs")
          case True
          with Cons False Some Dir show ?thesis by simp
        next
          case ex: False
          with Cons.prems(1) False Some Dir obtain fs1 where
            c: "copyDirectoryRecursive k skip fs (src @ [item]) (dst @ [item]) = Some (None, fs1)"
            and rest: "copyItems k skip fs1 src dst items = Some (None, fs')"
            by (auto split: option.splits prod.splits)
          from S[OF c Cons.prems(2)] have "lookup fs1 q \<noteq> None" .
          with Cons.IH[OF rest] show ?thesis by blast
        qed
      qed
    qed
  qed
qed

lemma copyDirectoryRecursive_keeps:
  "copyDirectoryRecursive k skip fs src dst = Some (None, fs') \<Longrightarrow> lookup fs q \<noteq> None \<Longrightarrow>
   lookup fs' q \<noteq> None"
proof (induction k arbitrary: fs src dst fs')
  case 0
  then show ?case by simp
next
  case (Suc k)
  from Suc.prems(1) obtain fs1 items where
    fs1: "(if \<not> existsSync fs dst then mkdirSync fs dst else Inr fs) = Inr fs1"
    and rest: "copyItems k skip fs1 src dst items = Some (None, fs')"
    by (auto split: sum.splits)
  from fs1 Suc.prems(2) have l: "lookup fs1 q \<noteq> None"
    by (auto simp: mkdirSync_def split: if_splits option.splits dest: mkdir_p_keeps)
  show ?case
    by (rule copyItems_keeps[OF _ rest l]) (rule Suc.IH, assumption+)
qed

text \<open>
  With the destination inside the directory it copies, \<^verbatim>\<open>copyDirectoryRecursive\<close> makes
  the destination, then lists the source, finds the way to the destination among the
  entries and copies it into itself, one level further down each time: no amount of fuel
  lets the copy end well. \<open>r\<close> is the way from the source to the destination.
\<close>

lemma store_below_file:
  "lookup fs p = Some (File s) \<Longrightarrow> r \<noteq> [] \<Longrightarrow> store fs (p @ r) v = None"
  by (cases r) (simp_all add: store_append)

lemma copyItems_into_itself:
  assumes S: "\<And>fs src r fs'. r \<noteq> [] \<Longrightarrow> set r \<inter> (set skip \<union> set excluded_dirs) = {} \<Longrightarrow>
                copyDirectoryRecursive k skip fs src (src @ r) \<noteq> Some (None, fs')"
    and r: "r = c # r'" "set r \<inter> (set skip \<union> set excluded_dirs) = {}"
  shows "c \<in> set items \<Longrightarrow> lookup fs (src @ [c]) \<noteq> None \<Longrightarrow>
         copyItems k skip fs src (src @ r) items \<noteq> Some (None, fs')"
proof (induction items arbitrary: fs)
  case Nil
  then show ?case by simp
next
  case (Cons item items)
  have c: "c \<notin> set skip" "c \<notin> set excluded_dirs" using r by auto
  show ?case
  proof (cases "item \<in> set skip")
    case True
    with c Cons.prems have "c \<in> set items" by auto
    from Cons.IH[OF this Cons.prems(2)] True show ?thesis by simp
  next
    case False
    show ?thesis
    proof (cases "lookup fs (src @ [item])")
      case None
      with False show ?thesis by simp
    next
      case (Some n)
      show ?thesis
      proof (cases n)
        case (File s)
        show ?thesis
        proof (cases "item = c")
          case True
          have "store fs ((src @ [c]) @ (r' @ [c])) (File s) = None"
            using Some File True by (intro store_below_file) simp_all
          then have "copyFileSync fs (src @ [item]) ((src @ r) @ [item]) = Inl FsError"
            using Some File True r(1)
            by (simp add: copyFileSync_def readFileSync_def writeFileSync_def)
          with False Some File show ?thesis by simp
        next
          case ne: False
          with Cons.prems have in_rest: "c \<in> set items" by auto
          show ?thesis
          proof (cases "copyFileSync fs (src @ [item]) ((src @ r) @ [item])")
            case (Inl e)
            with False Some File show ?thesis by simp
          next
            case (Inr fs1)
            from copyFileSync_keeps[OF Inr Cons.prems(2)] have "lookup fs1 (src @ [c]) \<noteq> None" .
            from Cons.IH[OF in_rest this] False Some File Inr show ?thesis by simp
          qed
        qed
      next
        case (Dir es)
        show ?thesis
        proof (cases "item \<in> set excluded_dirs")
          case True
          with c Cons.prems have "c \<in> set items" by auto
          from Cons.IH[OF this Cons.prems(2)] True False Some Dir show ?thesis by simp
        next
          case ex: False
          show ?thesis
          proof (cases "item = c")
            case True
            have "r' @ [c] \<noteq> []" "set (r' @ [c]) \<inter> (set skip \<union> set excluded_dirs) = {}"
              using r by auto
            from S[OF this, of fs "src @ [c]"]
            have "\<And>fs1. copyDirectoryRecursive k skip fs (src @ [item]) ((src @ r) @ [item]) \<noteq>
                    Some (None, fs1)"
              using True r(1) by simp
            with False Some Dir ex show ?thesis
              by (auto split: option.splits prod.splits)
          next
            case ne: False
            with Cons.prems have in_rest: "c \<in> set items" by auto
            show ?thesis
            proof (cases "copyDirectoryRecursive k skip fs (src @ [item]) ((src @ r) @ [item])")
              case None
              with False Some Dir ex show ?thesis by simp
            next
              case (Some res)
              obtain e fs1 where res: "res = (e, fs1)" by (cases res)
              show ?thesis
              proof (cases e)
                case None
                from copyDirectoryRecursive_keeps[OF Some[unfolded res None] Cons.prems(2)]
                have "lookup fs1 (src @ [c]) \<noteq> None" .
                from Cons.IH[OF in_rest this] False \<open>lookup fs (src @ [item]) = Some n\<close> Dir ex
                  Some res None show ?thesis by simp
              next
                case (Some err)
                with False \<open>lookup fs (src @ [item]) = Some n\<close> Dir ex
                  \<open>copyDirectoryRecursive k skip fs (src @ [item]) ((src @ r) @ [item]) = Some res\<close> res
                show ?thesis by simp
              qed
            qed
          qed
        qed
      qed
    qed
  qed
qed

lemma copyDirectoryRecursive_into_itself:
  "r \<noteq> [] \<Longrightarrow> set r \<inter> (set skip \<union> set excluded_dirs) = {} \<Longrightarrow>
   copyDirectoryRecursive k skip fs src (src @ r) \<noteq> Some (None, fs')"
proof (induction k arbitrary: fs src r fs')
  case 0
  show ?case by simp
next
  case (Suc k)
  obtain c r' where r: "r = c # r'" using Suc.prems(1) by (cases r) auto
  show ?case
  proof (cases "if \<not> existsSync fs (src @ r) then mkdirSync fs (src @ r) else Inr fs")
    case (Inl e)
    then show ?thesis by simp
  next
    case (Inr fs1)
    have there: "lookup fs1 (src @ r) \<noteq> None"
    proof (cases "existsSync fs (src @ r)")
      case True
      with Inr have "fs1 = fs" by simp
      with True show ?thesis by (simp add: existsSync_def)
    next
      case False
      with Inr have "mkdir_p fs (src @ r) = Some fs1"
        by (auto simp: mkdirSync_def split: option.splits)
      from mkdir_p_isDirectory[OF this] show ?thesis
        by (auto simp: isDirectory_def split: option.splits)
    qed
    then have child: "lookup fs1 (src @ [c]) \<noteq> None"
      using lookup_append[of fs1 "src @ [c]" r'] r by (auto split: option.splits)
    from there obtain n where "lookup fs1 (src @ r) = Some n" by auto
    from lookup_prefix_Dir[OF this Suc.prems(1)] obtain es where es: "lookup fs1 src = Some (Dir es)"
      by blast
    have "map_of es c \<noteq> None" using child es by (simp add: lookup_child)
    then have "map_of (AList.clearjunk es) c \<noteq> None" by (simp add: map_of_clearjunk)
    then have listed: "c \<in> set (map fst (AList.clearjunk es))"
      by (auto dest: map_of_SomeD intro: rev_image_eqI)
    have "copyItems k skip fs1 src (src @ r) (map fst (AList.clearjunk es)) \<noteq> Some (None, fs')"
      by (rule copyItems_into_itself[OF _ r Suc.prems(2) listed child]) (rule Suc.IH, assumption+)
    then show ?thesis using Inr es by (simp add: readdirSync_def)
  qed
qed

text \<open>
  Claim C1 at the destinations that the script itself proposes. \<^verbatim>\<open>rootDir\<close> is the
  directory above \<^verbatim>\<open>scripts/\<close>, the checkout, so the default destination
  \<^verbatim>\<open>output/fhevm-K\<close> under the working directory, \<^verbatim>\<open>./output/artifact-auction\<close> of
  the usage line and \<^verbatim>\<open>./output/test1\<close> all lie inside it when the script is run from
  the checkout. The copy then runs into its own destination: whatever the fuel, the run
  does not end well, so no manifest with the new name is ever written. No name on the
  way from \<^verbatim>\<open>rootDir\<close> to the destination is \<^verbatim>\<open>scripts\<close> or one of the excluded
  directory names.
\<close>

theorem createExample_copies_into_itself:
  assumes "outputDir = rootDir @ r" and "r \<noteq> []"
    and "set r \<inter> set (''scripts'' # excluded_dirs) = {}"
  shows "createExample fuel parse stringify fs rootDir exampleName outputDir \<noteq> Some (None, fs')"
proof -
  have "set r \<inter> (set [''scripts''] \<union> set excluded_dirs) = {}" using assms(3) by simp
  from copyDirectoryRecursive_into_itself[OF assms(2) this]
  have "copyDirectoryRecursive fuel [''scripts''] fs rootDir outputDir \<noteq> Some (None, fs1)" for fs1
    unfolding assms(1) .
  then show ?thesis
    by (auto simp: createExample_def Let_def updatePackageJson_def
          split: property.splits option.splits prod.splits sum.splits json.splits)
qed

theorem createExample_copies_into_itself_witness:
  "map_of EXAMPLES_MAP ''artifact-auction'' \<noteq> None \<and>
   \<not> existsSync (demo_repo ''contract ArtifactAuction is SepoliaConfig {'')
       [''repo'', ''output'', ''artifact-auction''] \<and>
   \<not> (\<exists>fuel fs'.
        createExample fuel demo_parse (stringify_at 0)
          (demo_repo ''contract ArtifactAuction is SepoliaConfig {'')
          [''repo''] ''artifact-auction'' [''repo'', ''output'', ''artifact-auction''] =
        Some (None, fs')) \<and>
   createExample 3 demo_parse (stringify_at 0)
     (demo_repo ''contract ArtifactAuction is SepoliaConfig {'')
     [''repo''] ''artifact-auction'' [''repo'', ''output'', ''artifact-auction''] = None"
proof -
  have "[''repo'', ''output'', ''artifact-auction''] = [''repo''] @ [''output'', ''artifact-auction'']"
    "[''output'', ''artifact-auction''] \<noteq> []"
    "set [''output'', ''artifact-auction''] \<inter> set (''scripts'' # excluded_dirs) = {}"
    by (simp_all add: excluded_dirs_def)
  note T = createExample_copies_into_itself[OF this]
  have "createExample 3 demo_parse (stringify_at 0)
     (demo_repo ''contract ArtifactAuction is SepoliaConfig {'')
     [''repo''] ''artifact-auction'' [''repo'', ''output'', ''artifact-auction''] = None"
    by (simp add: createExample_def get_property_def EXAMPLES_MAP_def demo_repo_def existsSync_def
          mkdirSync_def readdirSync_def copyFileSync_def readFileSync_def writeFileSync_def
          isDirectory_def excluded_dirs_def AList.clearjunk.simps AList.delete_eq numeral_3_eq_3)
  moreover have "map_of EXAMPLES_MAP ''artifact-auction'' \<noteq> None"
    by (simp add: EXAMPLES_MAP_def)
  moreover have "\<not> existsSync (demo_repo ''contract ArtifactAuction is SepoliaConfig {'')
       [''repo'', ''output'', ''artifact-auction'']"
    by (simp add: demo_repo_def existsSync_def)
  ultimately show ?thesis using T by blast
qed

end
